(* ===== verification/Prelude.thy ===== *)
theory Prelude
  imports Main "HOL-Library.Word"
begin

text \<open>
  Shared vocabulary of the development: the machine integers and the byte memory of the C++
  code, the fault values that stand for undefined behaviour and for loops that cannot end, the
  little-endian encoding of integers, and the generic lemmas on memory, words and ring positions
  that the component theories use.

  \<^item> \<open>mem_simps\<close> collects the read-over-write and length facts of byte memory;
  \<^item> \<open>exec_simps\<close> collects the evaluation rules of the fault monad and of checked accesses.
\<close>

named_theorems mem_simps \<open>reads, writes and lengths of byte memory\<close>
named_theorems exec_simps \<open>evaluation of checked memory accesses\<close>

section \<open>Types\<close>

type_synonym byte = "8 word"
type_synonym u16 = "16 word"
type_synonym u32 = "32 word"
type_synonym u64 = "64 word"
type_synonym memory = "byte list"

lemma unat_lt_pow: "unat (w :: 'a::len word) < 2 ^ LENGTH('a)"
  by (rule unsigned_less)

text \<open>
  What C++ leaves undefined is a value of its own: an access outside the memory that was mapped,
  a division by zero (\<open>x % capacity\<close> with an empty ring), a dereference of a null pointer. An
  operation that may not return has a result in \<open>option\<close>, with \<open>None\<close> for a loop that never ends.
\<close>

datatype fault = OutOfBounds | DivideByZero | NullDereference

type_synonym 'a exec = "fault + 'a"

definition bindE :: "'e + 'a \<Rightarrow> ('a \<Rightarrow> 'e + 'b) \<Rightarrow> 'e + 'b" where
  "bindE x f = (case x of Inl e \<Rightarrow> Inl e | Inr a \<Rightarrow> f a)"

lemma bindE_Inl [simp, exec_simps]: "bindE (Inl e) f = Inl e"
  by (simp add: bindE_def)

lemma bindE_Inr [simp, exec_simps]: "bindE (Inr a) f = f a"
  by (simp add: bindE_def)

lemma bindE_eq_Inr: "bindE x f = Inr b \<longleftrightarrow> (\<exists>a. x = Inr a \<and> f a = Inr b)"
  by (cases x) auto

lemma bindE_assoc: "bindE (bindE x f) g = bindE x (\<lambda>a. bindE (f a) g)"
  by (cases x) auto

text \<open>
  A \<open>for (;;)\<close> loop: the body either continues with a new state (\<open>Inl\<close>) or leaves the loop with a
  result (\<open>Inr\<close>). In \<open>run_loopL\<close> the body itself may fail to return.
\<close>

partial_function (option) run_loopL :: "('s \<Rightarrow> ('s + 'r) exec option) \<Rightarrow> 's \<Rightarrow> 'r exec option" where
  "run_loopL body s =
     (case body s of
        None \<Rightarrow> None
      | Some e \<Rightarrow> (case e of
          Inl f \<Rightarrow> Some (Inl f)
        | Inr c \<Rightarrow> (case c of Inl s' \<Rightarrow> run_loopL body s' | Inr r \<Rightarrow> Some (Inr r))))"

definition run_loop :: "('s \<Rightarrow> ('s + 'r) exec) \<Rightarrow> 's \<Rightarrow> 'r exec option" where
  "run_loop body = run_loopL (\<lambda>s. Some (body s))"

lemma run_loopL_exit: "body s = Some (Inr (Inr r)) \<Longrightarrow> run_loopL body s = Some (Inr r)"
  by (simp add: run_loopL.simps)

lemma run_loopL_continue: "body s = Some (Inr (Inl s')) \<Longrightarrow> run_loopL body s = run_loopL body s'"
  by (simp add: run_loopL.simps)

lemma run_loopL_None: "body s = None \<Longrightarrow> run_loopL body s = None"
  by (simp add: run_loopL.simps)

lemma run_loop_fault: "body s = Inl f \<Longrightarrow> run_loop body s = Some (Inl f)"
  by (simp add: run_loop_def run_loopL.simps)

lemma run_loop_exit: "body s = Inr (Inr r) \<Longrightarrow> run_loop body s = Some (Inr r)"
  by (simp add: run_loop_def run_loopL.simps)

lemma run_loop_continue: "body s = Inr (Inl s') \<Longrightarrow> run_loop body s = run_loop body s'"
  by (simp add: run_loop_def run_loopL.simps)

text \<open>A loop whose body changes nothing never ends.\<close>

lemma run_loopL_stuck:
  assumes "body s = Some (Inr (Inl s))"
  shows "run_loopL body s = None"
proof (rule ccontr)
  assume "run_loopL body s \<noteq> None"
  then obtain r where r: "run_loopL body s = Some r" by auto
  have "body s \<noteq> Some (Inr (Inl s))"
  proof (rule run_loopL.raw_induct [where P = "\<lambda>b s r. b s \<noteq> Some (Inr (Inl s))", OF _ r])
    fix f and b :: "'a \<Rightarrow> ('a + 'b) exec option" and s y
    assume IH: "\<And>b s y. f b s = Some y \<Longrightarrow> b s \<noteq> Some (Inr (Inl s))"
      and eq: "(case b s of None \<Rightarrow> None | Some e \<Rightarrow> (case e of Inl f \<Rightarrow> Some (Inl f)
        | Inr c \<Rightarrow> (case c of Inl s' \<Rightarrow> f b s' | Inr r \<Rightarrow> Some (Inr r)))) = Some y"
    show "b s \<noteq> Some (Inr (Inl s))"
      using IH eq by force
  qed
  with assms show False by simp
qed

lemma run_loop_stuck: "body s = Inr (Inl s) \<Longrightarrow> run_loop body s = None"
  unfolding run_loop_def by (rule run_loopL_stuck) simp

text \<open>A busy-wait \<open>while (!cond) {}\<close> with nobody else running.\<close>

definition spin_until :: "bool \<Rightarrow> unit exec option" where
  "spin_until cond = run_loop (\<lambda>u. Inr (if cond then Inr u else Inl u)) ()"

lemma spin_until_simps [simp]: "spin_until True = Some (Inr ())" "spin_until False = None"
  by (simp_all add: spin_until_def run_loop_exit run_loop_stuck)

definition bindL :: "'a exec option \<Rightarrow> ('a \<Rightarrow> 'b exec option) \<Rightarrow> 'b exec option" where
  "bindL x f = (case x of None \<Rightarrow> None | Some (Inl e) \<Rightarrow> Some (Inl e) | Some (Inr a) \<Rightarrow> f a)"

lemma bindL_simps [simp, exec_simps]:
  "bindL None f = None" "bindL (Some (Inl e)) f = Some (Inl e)" "bindL (Some (Inr a)) f = f a"
  by (simp_all add: bindL_def)

lemma bindL_eq_Inr: "bindL x f = Some (Inr b) \<longleftrightarrow> (\<exists>a. x = Some (Inr a) \<and> f a = Some (Inr b))"
  by (auto simp: bindL_def split: option.splits sum.splits)

section \<open>Byte memory\<close>

text \<open>
  A memory region is the list of its bytes; \<open>mem_write\<close> and \<open>mem_read\<close> are the raw effect of a
  \<open>memcpy\<close> or a typed access, \<open>store_bytes\<close> and \<open>load_bytes\<close> the same with the bounds of the
  region made explicit.
\<close>

definition mem_read :: "memory \<Rightarrow> nat \<Rightarrow> nat \<Rightarrow> byte list" where
  "mem_read m a n = take n (drop a m)"

definition mem_write :: "memory \<Rightarrow> nat \<Rightarrow> byte list \<Rightarrow> memory" where
  "mem_write m a bs = take a m @ bs @ drop (a + length bs) m"

definition load_bytes :: "memory \<Rightarrow> nat \<Rightarrow> nat \<Rightarrow> byte list exec" where
  "load_bytes m a n = (if a + n \<le> length m then Inr (mem_read m a n) else Inl OutOfBounds)"

definition store_bytes :: "memory \<Rightarrow> nat \<Rightarrow> byte list \<Rightarrow> memory exec" where
  "store_bytes m a bs =
     (if a + length bs \<le> length m then Inr (mem_write m a bs) else Inl OutOfBounds)"

lemma load_bytes_ok [exec_simps]: "a + n \<le> length m \<Longrightarrow> load_bytes m a n = Inr (mem_read m a n)"
  by (simp add: load_bytes_def)

lemma store_bytes_ok [exec_simps]:
  "a + length bs \<le> length m \<Longrightarrow> store_bytes m a bs = Inr (mem_write m a bs)"
  by (simp add: store_bytes_def)

lemma length_mem_read [simp, mem_simps]: "a + n \<le> length m \<Longrightarrow> length (mem_read m a n) = n"
  by (simp add: mem_read_def)

lemma length_mem_write [simp, mem_simps]:
  "a + length bs \<le> length m \<Longrightarrow> length (mem_write m a bs) = length m"
  by (simp add: mem_write_def)

lemma nth_mem_write:
  assumes "a + length bs \<le> length m" "i < length m"
  shows "mem_write m a bs ! i = (if a \<le> i \<and> i < a + length bs then bs ! (i - a) else m ! i)"
proof -
  have "length (take a m) = a" using assms by simp
  then show ?thesis using assms
    by (auto simp: mem_write_def nth_append)
qed

lemma nth_mem_read: "a + n \<le> length m \<Longrightarrow> i < n \<Longrightarrow> mem_read m a n ! i = m ! (a + i)"
  by (simp add: mem_read_def)

lemma mem_read_eqI:
  assumes "length m = length m'" "a + n \<le> length m" "\<And>i. i < n \<Longrightarrow> m ! (a + i) = m' ! (a + i)"
  shows "mem_read m a n = mem_read m' a n"
  by (rule nth_equalityI) (use assms in \<open>simp_all add: nth_mem_read\<close>)

lemma mem_read_write_same [simp, mem_simps]:
  "a + length bs \<le> length m \<Longrightarrow> mem_read (mem_write m a bs) a (length bs) = bs"
  by (simp add: mem_read_def mem_write_def)

lemma mem_read_write_sub:
  assumes "a + length bs \<le> length m" "a \<le> b" "b + n \<le> a + length bs"
  shows "mem_read (mem_write m a bs) b n = mem_read bs (b - a) n"
  by (rule nth_equalityI) (use assms in \<open>auto simp: nth_mem_read nth_mem_write\<close>)

lemma mem_read_write_disj:
  assumes "a + length bs \<le> length m" "b + n \<le> length m" "b + n \<le> a \<or> a + length bs \<le> b"
  shows "mem_read (mem_write m a bs) b n = mem_read m b n"
  by (rule nth_equalityI) (use assms in \<open>auto simp: nth_mem_read nth_mem_write\<close>)

lemma mem_write_append:
  assumes "a + length bs + length cs \<le> length m"
  shows "mem_write (mem_write m a bs) (a + length bs) cs = mem_write m a (bs @ cs)"
  by (rule nth_equalityI)
     (use assms in \<open>auto simp: nth_mem_write nth_append\<close>)

lemma mem_write_overwrite:
  assumes "length bs = length cs" "a + length bs \<le> length m"
  shows "mem_write (mem_write m a bs) a cs = mem_write m a cs"
  by (rule nth_equalityI) (use assms in \<open>auto simp: nth_mem_write\<close>)

lemma mem_write_inner:
  assumes "length y' = length y" "a + length (x @ y @ z) \<le> length m"
  shows "mem_write (mem_write m a (x @ y @ z)) (a + length x) y' = mem_write m a (x @ y' @ z)"
  by (rule nth_equalityI)
     (use assms in \<open>auto simp: nth_mem_write nth_append\<close>)

lemma mem_read_all [simp]: "mem_read m 0 (length m) = m"
  by (simp add: mem_read_def)

lemma mem_read_split:
  "mem_read m a (n + k) = mem_read m a n @ mem_read m (a + n) k"
  by (simp add: mem_read_def take_add add.commute [of n a])

lemma mem_write_Nil [simp]: "mem_write m a [] = m"
  by (simp add: mem_write_def)

section \<open>Little-endian integers\<close>

text \<open>
  The files are read and written through C++ structs on a little-endian machine: the \<open>n\<close> bytes of
  a value, least significant first.
\<close>

primrec le_bytes :: "nat \<Rightarrow> nat \<Rightarrow> byte list" where
  "le_bytes 0 v = []"
| "le_bytes (Suc n) v = of_nat v # le_bytes n (v div 256)"

primrec le_val :: "byte list \<Rightarrow> nat" where
  "le_val [] = 0"
| "le_val (b # bs) = unat b + 256 * le_val bs"

lemma length_le_bytes [simp, mem_simps]: "length (le_bytes n v) = n"
  by (induction n arbitrary: v) auto

lemma unat_byte_of_nat: "unat (of_nat v :: byte) = v mod 256"
  by (simp add: unat_of_nat)

lemma le_val_le_bytes: "le_val (le_bytes n v) = v mod 256 ^ n"
proof (induction n arbitrary: v)
  case 0
  then show ?case by simp
next
  case (Suc n)
  have "v mod (256 * 256 ^ n) = 256 * (v div 256 mod 256 ^ n) + v mod 256"
    by (rule mod_mult2_eq)
  then show ?case
    using Suc by (simp add: unat_byte_of_nat)
qed

lemma le_val_bound: "le_val bs < 256 ^ length bs"
proof (induction bs)
  case Nil
  then show ?case by simp
next
  case (Cons b bs)
  have "unat b < 256"
    using unat_lt_pow [of b] by simp
  moreover from Cons.IH have "le_val bs + 1 \<le> 256 ^ length bs"
    by simp
  ultimately have "unat b + 256 * le_val bs < 256 * (le_val bs + 1)"
    by simp
  also have "\<dots> \<le> 256 * 256 ^ length bs"
    using \<open>le_val bs + 1 \<le> 256 ^ length bs\<close> by (rule mult_le_mono2)
  finally show ?case by simp
qed

lemma le_bytes_le_val: "le_bytes (length bs) (le_val bs) = bs"
proof (induction bs)
  case Nil
  then show ?case by simp
next
  case (Cons b bs)
  have "unat b < 256"
    using unat_lt_pow [of b] by simp
  then have "(unat b + 256 * le_val bs) div 256 = le_val bs"
    by simp
  moreover have "(256 :: byte) = 0" by simp
  then have "(of_nat (unat b + 256 * le_val bs) :: byte) = b"
    using \<open>(256 :: byte) = 0\<close> by (simp del: word_eq_numeral_iff_iszero)
  ultimately show ?case
    using Cons by simp
qed

text \<open>The typed accesses of the code: \<open>w\<close>-byte unsigned integers.\<close>

definition enc16 :: "u16 \<Rightarrow> byte list" where "enc16 v = le_bytes 2 (unat v)"
definition enc32 :: "u32 \<Rightarrow> byte list" where "enc32 v = le_bytes 4 (unat v)"
definition enc64 :: "u64 \<Rightarrow> byte list" where "enc64 v = le_bytes 8 (unat v)"
definition dec16 :: "byte list \<Rightarrow> u16" where "dec16 bs = of_nat (le_val bs)"
definition dec32 :: "byte list \<Rightarrow> u32" where "dec32 bs = of_nat (le_val bs)"
definition dec64 :: "byte list \<Rightarrow> u64" where "dec64 bs = of_nat (le_val bs)"

lemma length_enc [simp, mem_simps]:
  "length (enc16 a) = 2" "length (enc32 b) = 4" "length (enc64 c) = 8"
  by (simp_all add: enc16_def enc32_def enc64_def)

lemma dec_enc [simp, mem_simps]:
  "dec16 (enc16 a) = a" "dec32 (enc32 b) = b" "dec64 (enc64 c) = c"
  using unat_lt_pow [of a] unat_lt_pow [of b] unat_lt_pow [of c]
  by (simp_all add: enc16_def enc32_def enc64_def dec16_def dec32_def dec64_def le_val_le_bytes)

definition load_u16 :: "memory \<Rightarrow> nat \<Rightarrow> u16 exec" where
  "load_u16 m a = bindE (load_bytes m a 2) (\<lambda>bs. Inr (dec16 bs))"
definition load_u32 :: "memory \<Rightarrow> nat \<Rightarrow> u32 exec" where
  "load_u32 m a = bindE (load_bytes m a 4) (\<lambda>bs. Inr (dec32 bs))"
definition load_u64 :: "memory \<Rightarrow> nat \<Rightarrow> u64 exec" where
  "load_u64 m a = bindE (load_bytes m a 8) (\<lambda>bs. Inr (dec64 bs))"
definition store_u16 :: "memory \<Rightarrow> nat \<Rightarrow> u16 \<Rightarrow> memory exec" where
  "store_u16 m a v = store_bytes m a (enc16 v)"
definition store_u32 :: "memory \<Rightarrow> nat \<Rightarrow> u32 \<Rightarrow> memory exec" where
  "store_u32 m a v = store_bytes m a (enc32 v)"
definition store_u64 :: "memory \<Rightarrow> nat \<Rightarrow> u64 \<Rightarrow> memory exec" where
  "store_u64 m a v = store_bytes m a (enc64 v)"

lemmas typed_access_defs =
  load_u16_def load_u32_def load_u64_def store_u16_def store_u32_def store_u64_def

section \<open>Positions of a ring\<close>

text \<open>
  Ring positions grow without bound and are reduced modulo the capacity. Two positions of one
  window of at most \<open>c\<close> positions never share a byte.
\<close>

lemma mod_window_inj:
  assumes "(k::nat) mod c = l mod c" "k \<le> l" "l < k + c"
  shows "k = l"
proof -
  from assms(1,2) have "c dvd l - k"
    by (metis mod_eq_dvd_iff_nat)
  with assms(3) show ?thesis
    using assms(2) by (auto dest: dvd_imp_le)
qed

lemma mod_add_in_block:
  assumes "k mod c + i < (c::nat)"
  shows "(k + i) mod c = k mod c + i"
proof -
  have "(k + i) mod c = (k mod c + i) mod c"
    by (simp add: mod_add_left_eq)
  then show ?thesis using assms by simp
qed

lemma mod_next_block:
  assumes "0 < (c::nat)"
  shows "(k + (c - k mod c)) mod c = 0"
proof -
  have "k mod c \<le> c" using assms by (simp add: less_imp_le)
  moreover have "k = k div c * c + k mod c" by simp
  ultimately have "k + (c - k mod c) = k div c * c + c" by linarith
  also have "\<dots> = (k div c + 1) * c" by simp
  finally have "k + (c - k mod c) = (k div c + 1) * c" .
  then show ?thesis by (simp only: mod_mult_self2_is_0)
qed

text \<open>
  The code keeps a position in a 64-bit counter that wraps. The residue of the counter is the
  residue of the position as long as the counter has not wrapped, or for ever when the capacity
  divides \<open>2 ^ 64\<close>.
\<close>

definition counter_ok :: "nat \<Rightarrow> nat \<Rightarrow> bool" where
  "counter_ok c p \<longleftrightarrow> c dvd 2 ^ 64 \<or> p < 2 ^ 64"

lemma counter_ok_mod:
  assumes "counter_ok c p"
  shows "unat (of_nat p :: u64) mod c = p mod c"
proof (cases "c dvd 2 ^ 64")
  case True
  have "unat (of_nat p :: u64) = p mod 2 ^ 64"
    by (simp add: unat_of_nat)
  then show ?thesis using True by (simp only: mod_mod_cancel)
next
  case False
  with assms have "p < 2 ^ 64" by (simp add: counter_ok_def)
  then show ?thesis by (simp add: unat_of_nat)
qed

lemma counter_ok_mono: "counter_ok c q \<Longrightarrow> p \<le> q \<Longrightarrow> counter_ok c p"
  by (auto simp: counter_ok_def)

lemma counter_diff:
  assumes "h \<le> t" "t - h < 2 ^ 64"
  shows "unat (of_nat t - of_nat h :: u64) = t - h"
proof -
  have "(of_nat t - of_nat h :: u64) = of_nat (t - h)"
    using assms(1) by (simp add: of_nat_diff)
  then show ?thesis using assms(2) by (simp add: unat_of_nat)
qed

lemma counter_eq_iff:
  assumes "h \<le> t" "t - h < 2 ^ 64"
  shows "(of_nat h :: u64) = of_nat t \<longleftrightarrow> h = t"
proof
  assume "(of_nat h :: u64) = of_nat t"
  then have "unat (of_nat t - of_nat h :: u64) = 0" by simp
  with counter_diff [OF assms] assms(1) show "h = t" by simp
qed simp

text \<open>Small naturals as 64-bit words.\<close>

lemma unat_of_nat_small: "n < 2 ^ 64 \<Longrightarrow> unat (of_nat n :: u64) = n"
  by (simp add: unat_of_nat)

lemma word_of_unat: "unat (w :: u64) = n \<Longrightarrow> w = of_nat n"
  by auto

lemma of_nat_less_word:
  assumes "a < 2 ^ 64" "b < 2 ^ 64"
  shows "(of_nat a :: u64) < of_nat b \<longleftrightarrow> a < b" "(of_nat a :: u64) \<le> of_nat b \<longleftrightarrow> a \<le> b"
    "(of_nat a :: u64) = of_nat b \<longleftrightarrow> a = b"
  using assms by (simp_all add: word_less_nat_alt word_le_nat_alt unat_of_nat_small word_unat_eq_iff)

end
