(* ===== verification/Ring_Layout.thy ===== *)
theory Ring_Layout
  imports Prelude
begin

text \<open>
  The layout constants and structs of \<open>include/lf_ring/ring_layout.hpp\<close>: the file header, the
  record header, the control block with its cache-line padded counters, and the size functions.
  \<open>size_t\<close> is 64 bits wide; \<open>kCacheLineSize\<close> is the 64 of the header's fallback branch.

  The lemmas give \<open>align_up\<close> its meaning (the least multiple that is not smaller) and show that
  reading a struct back from memory returns the fields that were written.
\<close>

unbundle bit_operations_syntax

section \<open>Constants\<close>

definition kCacheLineSize :: u64 where "kCacheLineSize = 64"
definition kAlignment :: u64 where "kAlignment = 8"
definition kMagic :: u32 where "kMagic = 0x4C465242"
definition kVersion :: u16 where "kVersion = 4"
definition kWrapFlag :: u16 where "kWrapFlag = 0x1"
definition kFlagMPSC :: u64 where "kFlagMPSC = 0x1"
definition kFlagMPMC :: u64 where "kFlagMPMC = 0x2"
definition kFlagSPSC :: u64 where "kFlagSPSC = 0x4"
definition kFlagLatest :: u64 where "kFlagLatest = 0x8"
definition kFlagFixedSPSC :: u64 where "kFlagFixedSPSC = 0x10"

definition align_up :: "u64 \<Rightarrow> u64 \<Rightarrow> u64" where
  "align_up value alignment = (value + alignment - 1) AND NOT (alignment - 1)"

section \<open>Structs\<close>

record Header =
  magic :: u32
  version :: u16
  header_size :: u16
  capacity_bytes :: u64
  control_offset :: u64
  ring_offset :: u64
  alignment :: u64
  header_flags :: u64

record RecordHeader =
  rh_size :: u32
  rh_type :: u16
  rh_flags :: u16
  rh_sequence :: u64

record ControlBlock =
  head_reserve :: u64
  head_publish :: u64
  tail_reserve :: u64
  tail_publish :: u64
  sequence :: u64

text \<open>
  Struct sizes: the fields in order, with a \<open>PaddedAtomicU64\<close> filling a cache line.
\<close>

definition sizeof_Header :: u64 where "sizeof_Header = 4 + 2 + 2 + 8 + 8 + 8 + 8 + 8"
definition sizeof_RecordHeader :: u64 where "sizeof_RecordHeader = 4 + 2 + 2 + 8"
definition sizeof_PaddedAtomicU64 :: u64 where
  "sizeof_PaddedAtomicU64 = 8 + (kCacheLineSize - 8)"
definition sizeof_ControlBlock :: u64 where "sizeof_ControlBlock = 5 * sizeof_PaddedAtomicU64"

definition header_region_size :: u64 where
  "header_region_size = align_up sizeof_Header kCacheLineSize"

definition control_region_size :: u64 where
  "control_region_size = align_up sizeof_ControlBlock kCacheLineSize"

definition required_mapping_size :: "u64 \<Rightarrow> u64" where
  "required_mapping_size capacity =
     (let cap = align_up capacity kAlignment
      in header_region_size + control_region_size + cap)"

datatype ClaimResult = kCreated | kResumed | kRecovered

lemmas layout_constants =
  kCacheLineSize_def kAlignment_def kMagic_def kVersion_def kWrapFlag_def
  sizeof_Header_def sizeof_RecordHeader_def sizeof_PaddedAtomicU64_def sizeof_ControlBlock_def

lemma sizeof_values [simp]:
  "sizeof_Header = 48" "sizeof_RecordHeader = 16" "sizeof_PaddedAtomicU64 = 64"
  "sizeof_ControlBlock = 320"
  by (simp_all add: layout_constants)

lemma region_sizes [simp]: "header_region_size = 64" "control_region_size = 320"
  by (simp_all add: header_region_size_def control_region_size_def align_up_def kCacheLineSize_def)

section \<open>Rounding up\<close>

lemma unat_take_bit: "unat (take_bit k (w :: u64)) = unat w mod 2 ^ k"
  by (simp add: unsigned_take_bit_eq flip: take_bit_eq_mod)

lemma unat_and_not_mask:
  fixes w :: u64
  shows "unat (w AND NOT (mask k)) = unat w div 2 ^ k * 2 ^ k"
proof -
  have "w AND NOT (mask k) = push_bit k (drop_bit k w)"
    by (rule bit_word_eqI) (auto simp: bit_simps)
  also have "\<dots> = w - take_bit k w"
    by (metis add_diff_cancel_right' bits_ident)
  finally have "w AND NOT (mask k) = w - take_bit k w" .
  moreover have "take_bit k w \<le> w"
    by (simp only: word_le_nat_alt unat_take_bit mod_less_eq_dividend)
  ultimately have "unat (w AND NOT (mask k)) = unat w - unat w mod 2 ^ k"
    by (simp only: unat_sub unat_take_bit)
  then show ?thesis
    by (simp only: minus_mod_eq_div_mult)
qed

lemma unat_align_up:
  assumes k: "k < 64" and v: "unat v + 2 ^ k \<le> 2 ^ 64"
  shows "unat (align_up v (2 ^ k)) = (unat v + (2 ^ k - 1)) div 2 ^ k * 2 ^ k"
proof -
  have "(2 ^ k - 1 :: u64) = mask k"
    by (simp only: mask_eq_exp_minus_1)
  moreover have "unat (v + 2 ^ k - 1) = unat v + (2 ^ k - 1)"
  proof -
    have "v + 2 ^ k - 1 = of_nat (unat v + (2 ^ k - 1))"
    proof -
      have "(of_nat (2 ^ k - 1) :: u64) = of_nat (2 ^ k) - of_nat 1"
        by (rule of_nat_diff) simp
      then show ?thesis by (simp only: of_nat_add) simp
    qed
    moreover have "unat v + (2 ^ k - 1) < 2 ^ 64"
    proof -
      have "0 < (2 :: nat) ^ k" by simp
      then show ?thesis using v by linarith
    qed
    ultimately show ?thesis
      by (simp only: unat_of_nat) simp
  qed
  ultimately show ?thesis
    by (simp add: align_up_def unat_and_not_mask)
qed

lemma align_up_bounds:
  assumes "k < 64" "unat v + 2 ^ k \<le> 2 ^ 64"
  shows "2 ^ k dvd unat (align_up v (2 ^ k))"
    and "unat v \<le> unat (align_up v (2 ^ k))"
    and "unat (align_up v (2 ^ k)) < unat v + 2 ^ k"
proof -
  define d :: nat where "d = 2 ^ k"
  have d: "0 < d" by (simp add: d_def)
  define q where "q = (unat v + (d - 1)) div d"
  have r: "unat (align_up v (2 ^ k)) = q * d"
    using unat_align_up [OF assms] by (simp add: q_def d_def)
  have "unat v + (d - 1) = q * d + (unat v + (d - 1)) mod d"
    by (simp add: q_def)
  moreover have "(unat v + (d - 1)) mod d < d" using d by simp
  ultimately have "unat v \<le> q * d" "q * d < unat v + d"
    using d by linarith+
  with r show "2 ^ k dvd unat (align_up v (2 ^ k))"
    "unat v \<le> unat (align_up v (2 ^ k))" "unat (align_up v (2 ^ k)) < unat v + 2 ^ k"
    by (simp_all add: d_def)
qed

text \<open>
  For every power-of-two alignment whose result is representable, \<open>align_up value alignment\<close>
  is the least multiple of the alignment that is not below the value.
\<close>

theorem align_up_least_multiple:
  assumes "k < 64" "unat v + 2 ^ k \<le> 2 ^ 64"
  shows "2 ^ k dvd unat (align_up v (2 ^ k)) \<and> unat v \<le> unat (align_up v (2 ^ k)) \<and>
    (\<forall>m. 2 ^ k dvd m \<longrightarrow> unat v \<le> m \<longrightarrow> unat (align_up v (2 ^ k)) \<le> m)"
proof (intro conjI allI impI)
  show "2 ^ k dvd unat (align_up v (2 ^ k))" "unat v \<le> unat (align_up v (2 ^ k))"
    using align_up_bounds [OF assms] by auto
next
  fix m :: nat
  assume m: "2 ^ k dvd m" "unat v \<le> m"
  define r where "r = unat (align_up v (2 ^ k))"
  have r: "2 ^ k dvd r" "r < unat v + 2 ^ k"
    using align_up_bounds [OF assms] by (auto simp: r_def)
  show "unat (align_up v (2 ^ k)) \<le> m"
  proof (rule ccontr)
    assume "\<not> unat (align_up v (2 ^ k)) \<le> m"
    then have "m < r" by (simp add: r_def)
    moreover have "2 ^ k dvd r - m" using r(1) m(1) by (rule dvd_diff_nat)
    ultimately have "2 ^ k \<le> r - m" by (simp add: dvd_imp_le)
    with r(2) m(2) \<open>m < r\<close> show False by linarith
  qed
qed

theorem align_up_least_multiple_witness:
  "8 dvd unat (align_up 21 8) \<and> 21 \<le> unat (align_up 21 8) \<and> unat (align_up 21 8) \<le> 24"
  using align_up_least_multiple [of 3 21] by simp

text \<open>Rounding to the ring's alignment, as the record and capacity computations use it.\<close>

lemma unat_align_up_8:
  "unat v + 8 \<le> 2 ^ 64 \<Longrightarrow> unat (align_up v kAlignment) = (unat v + 7) div 8 * 8"
  using unat_align_up [of 3 v] by (simp add: kAlignment_def)

lemma unat_align_up_8_bounds:
  assumes "unat v + 8 \<le> 2 ^ 64"
  shows "8 dvd unat (align_up v kAlignment)" "unat v \<le> unat (align_up v kAlignment)"
    "unat (align_up v kAlignment) < unat v + 8"
  using align_up_bounds [of 3 v] assms by (simp_all add: kAlignment_def)

lemma align_up_8_wraps: "2 ^ 64 < unat v + 8 \<Longrightarrow> align_up v kAlignment = 0"
proof -
  assume a: "2 ^ 64 < unat v + 8"
  have "unat (v + 7) = unat v + 7 - 2 ^ 64"
    using a by (simp add: unat_plus_if')
  then have "unat (v + 7) < 8"
    using unat_lt_pow [of v] by simp
  moreover have "v + 8 - 1 = v + 7" by simp
  ultimately have "unat (v + 8 - 1) < 8" by (simp only:)
  then have "unat ((v + 8 - 1) AND NOT (mask 3)) = 0"
    by (simp only: unat_and_not_mask) simp
  then show ?thesis
    by (simp add: align_up_def kAlignment_def mask_eq_exp_minus_1 unat_eq_0)
qed

end
