(* ===== verification/Ring_Memory.thy ===== *)
theory Ring_Memory
  imports Ring_Layout
begin

text \<open>
  What the three byte rings (\<open>SharedRingBuffer\<close>, \<open>SharedRingBufferMPMC\<close>,
  \<open>SharedRingBufferSPSC\<close>) share: the state of a mapped ring, access to the record headers in its
  bytes, and the meaning of the bytes between the head and the tail position as a list of
  messages.

  \<open>ring_seg m h t ms\<close> says that the bytes of ring \<open>m\<close> from position \<open>h\<close> to position \<open>t\<close> hold
  exactly the messages \<open>ms\<close>, with the padding the writers insert at the end of the ring. The
  lemmas give its decomposition at the head (what a consumer reads), its extension at the tail
  (what a producer writes), and the frame property: bytes outside the window do not matter.
\<close>

unbundle bit_operations_syntax

section \<open>The state of a mapped ring\<close>

text \<open>The part of \<open>detail::Mapping\<close> the ring operations use: control block, ring bytes, capacity.\<close>

record ring_state =
  control :: ControlBlock
  ring :: memory
  capacity :: u64

section \<open>Record headers\<close>

text \<open>Struct field accesses through \<open>reinterpret_cast<RecordHeader*>(ring + pos)\<close>.\<close>

definition load_rh_size :: "memory \<Rightarrow> u64 \<Rightarrow> u32 exec" where
  "load_rh_size m pos = load_u32 m (unat pos)"
definition load_rh_type :: "memory \<Rightarrow> u64 \<Rightarrow> u16 exec" where
  "load_rh_type m pos = load_u16 m (unat pos + 4)"
definition load_rh_flags :: "memory \<Rightarrow> u64 \<Rightarrow> u16 exec" where
  "load_rh_flags m pos = load_u16 m (unat pos + 6)"
definition load_rh_sequence :: "memory \<Rightarrow> u64 \<Rightarrow> u64 exec" where
  "load_rh_sequence m pos = load_u64 m (unat pos + 8)"

definition store_rh_sequence :: "memory \<Rightarrow> u64 \<Rightarrow> u64 \<Rightarrow> memory exec" where
  "store_rh_sequence m pos v = store_u64 m (unat pos + 8) v"

text \<open>The four field assignments in the order of the code.\<close>

definition store_RecordHeader :: "memory \<Rightarrow> u64 \<Rightarrow> RecordHeader \<Rightarrow> memory exec" where
  "store_RecordHeader m pos h =
     bindE (store_u32 m (unat pos) (rh_size h)) (\<lambda>m.
     bindE (store_u16 m (unat pos + 4) (rh_type h)) (\<lambda>m.
     bindE (store_u16 m (unat pos + 6) (rh_flags h)) (\<lambda>m.
     store_rh_sequence m pos (rh_sequence h))))"

definition record_size :: "u32 \<Rightarrow> u64" where
  "record_size sz = align_up (sizeof_RecordHeader + ucast sz) kAlignment"

text \<open>The bytes of a header, and the header at an address.\<close>

definition header_bytes :: "RecordHeader \<Rightarrow> byte list" where
  "header_bytes h = enc32 (rh_size h) @ enc16 (rh_type h) @ enc16 (rh_flags h) @ enc64 (rh_sequence h)"

definition header_at :: "memory \<Rightarrow> nat \<Rightarrow> RecordHeader" where
  "header_at m p =
     \<lparr>rh_size = dec32 (mem_read m p 4), rh_type = dec16 (mem_read m (p + 4) 2),
      rh_flags = dec16 (mem_read m (p + 6) 2), rh_sequence = dec64 (mem_read m (p + 8) 8)\<rparr>"

lemma length_header_bytes [simp]: "length (header_bytes h) = 16"
  by (simp add: header_bytes_def)

lemma store_RecordHeader_ok [exec_simps]:
  assumes "unat pos + 16 \<le> length m"
  shows "store_RecordHeader m pos h = Inr (mem_write m (unat pos) (header_bytes h))"
proof -
  let ?p = "unat pos"
  have 1: "mem_write (mem_write m ?p (enc32 (rh_size h))) (?p + 4) (enc16 (rh_type h)) =
      mem_write m ?p (enc32 (rh_size h) @ enc16 (rh_type h))"
    using mem_write_append [of ?p "enc32 (rh_size h)" "enc16 (rh_type h)" m] assms by simp
  have 2: "mem_write (mem_write m ?p (enc32 (rh_size h) @ enc16 (rh_type h))) (?p + 6) (enc16 (rh_flags h)) =
      mem_write m ?p (enc32 (rh_size h) @ enc16 (rh_type h) @ enc16 (rh_flags h))"
    using mem_write_append [of ?p "enc32 (rh_size h) @ enc16 (rh_type h)" "enc16 (rh_flags h)" m] assms
    by simp
  have 3: "mem_write (mem_write m ?p (enc32 (rh_size h) @ enc16 (rh_type h) @ enc16 (rh_flags h)))
        (?p + 8) (enc64 (rh_sequence h)) = mem_write m ?p (header_bytes h)"
    using mem_write_append [of ?p "enc32 (rh_size h) @ enc16 (rh_type h) @ enc16 (rh_flags h)"
        "enc64 (rh_sequence h)" m] assms
    by (simp add: header_bytes_def)
  show ?thesis
    using assms
    by (simp add: store_RecordHeader_def store_rh_sequence_def typed_access_defs exec_simps 1 2 3)
qed

lemma load_rh_ok [exec_simps]:
  assumes "unat pos + 16 \<le> length m"
  shows "load_rh_size m pos = Inr (rh_size (header_at m (unat pos)))"
    and "load_rh_type m pos = Inr (rh_type (header_at m (unat pos)))"
    and "load_rh_flags m pos = Inr (rh_flags (header_at m (unat pos)))"
    and "load_rh_sequence m pos = Inr (rh_sequence (header_at m (unat pos)))"
  using assms
  by (simp_all add: load_rh_size_def load_rh_type_def load_rh_flags_def load_rh_sequence_def
      typed_access_defs exec_simps header_at_def)

lemma header_at_write [simp]:
  assumes "p + 16 \<le> length m"
  shows "header_at (mem_write m p (header_bytes h)) p = h"
  using assms
  by (simp add: header_at_def mem_read_write_sub)
     (simp add: header_bytes_def mem_read_def)

text \<open>Two memories that agree on 16 bytes hold the same header there.\<close>

lemma header_at_cong:
  "mem_read m p 16 = mem_read m' p 16 \<Longrightarrow> header_at m p = header_at m' p"
proof -
  assume eq: "mem_read m p 16 = mem_read m' p 16"
  have sub: "mem_read x (p + i) n = take n (drop i (mem_read x p 16))" if "i + n \<le> 16" for x i n
    using that by (simp add: mem_read_def drop_take min_def add.commute)
  show ?thesis
    using sub [of 0 4] sub [of 4 2] sub [of 6 2] sub [of 8 8]
    by (simp add: header_at_def eq)
qed

section \<open>Record sizes\<close>

text \<open>The length of the record for \<open>n\<close> payload bytes.\<close>

definition rec_len :: "nat \<Rightarrow> nat" where
  "rec_len n = (16 + n + 7) div 8 * 8"

lemma rec_len_bounds: "16 + n \<le> rec_len n" "rec_len n < 16 + n + 8"
  unfolding rec_len_def by linarith+

lemma rec_len_ge [simp]: "16 \<le> rec_len n"
  using rec_len_bounds(1) [of n] by linarith

lemma unat_record_size: "unat (record_size sz) = rec_len (unat sz)"
proof -
  have "unat sz < 2 ^ 32"
    using unat_lt_pow [of sz] by simp
  moreover have "unat (ucast sz :: u64) = unat sz"
    using unat_lt_pow [of sz] by (simp add: unsigned_ucast_eq take_bit_eq_mod)
  ultimately have u: "unat (sizeof_RecordHeader + ucast sz) = 16 + unat sz"
    by (simp add: unat_plus_if')
  with \<open>unat sz < 2 ^ 32\<close> show ?thesis
    unfolding record_size_def rec_len_def by (subst unat_align_up_8) simp_all
qed

lemma record_size_of_nat: "record_size sz = of_nat (rec_len (unat sz))"
  by (rule word_of_unat) (rule unat_record_size)

lemma rec_len_lt: "rec_len (unat (sz :: u32)) < 2 ^ 33"
  using rec_len_bounds(2) [of "unat sz"] unat_lt_pow [of sz] by simp

section \<open>Messages in the ring\<close>

record message =
  payload :: "byte list"
  msg_type :: u16
  msg_sequence :: u64

definition wrap_at :: "memory \<Rightarrow> nat \<Rightarrow> bool" where
  "wrap_at m p \<longleftrightarrow> rh_flags (header_at m p) AND kWrapFlag \<noteq> 0"

definition rec_at :: "memory \<Rightarrow> nat \<Rightarrow> message \<Rightarrow> bool" where
  "rec_at m p x \<longleftrightarrow> \<not> wrap_at m p \<and> unat (rh_size (header_at m p)) = length (payload x) \<and>
     rh_type (header_at m p) = msg_type x \<and> rh_sequence (header_at m p) = msg_sequence x \<and>
     mem_read m (p + 16) (length (payload x)) = payload x"

text \<open>Bytes from position \<open>k\<close> to the end of the ring.\<close>

definition room :: "nat \<Rightarrow> nat \<Rightarrow> nat" where
  "room c k = c - k mod c"

inductive ring_seg :: "memory \<Rightarrow> nat \<Rightarrow> nat \<Rightarrow> message list \<Rightarrow> bool" for m :: memory where
  seg_nil: "ring_seg m h h []"
| seg_short: "room (length m) h < 16 \<Longrightarrow> ring_seg m (h + room (length m) h) t ms \<Longrightarrow>
     ring_seg m h t ms"
| seg_wrap: "16 \<le> room (length m) h \<Longrightarrow> wrap_at m (h mod length m) \<Longrightarrow>
     ring_seg m (h + room (length m) h) t ms \<Longrightarrow> ring_seg m h t ms"
| seg_rec: "rec_len (length (payload x)) \<le> room (length m) h \<Longrightarrow> rec_at m (h mod length m) x \<Longrightarrow>
     ring_seg m (h + rec_len (length (payload x))) t ms \<Longrightarrow> ring_seg m h t (x # ms)"

lemma room_pos [simp]: "0 < c \<Longrightarrow> 0 < room c k"
  by (simp add: room_def)

lemma room_le: "room c k \<le> c"
  by (simp add: room_def)

lemma add_le_room: "0 < c \<Longrightarrow> n \<le> room c k \<longleftrightarrow> k mod c + n \<le> c"
  using mod_less_divisor [of c k] unfolding room_def by linarith

lemma mod_add_room [simp]: "0 < c \<Longrightarrow> (k + room c k) mod c = 0"
  unfolding room_def by (rule mod_next_block)

lemma room_next [simp]: "0 < c \<Longrightarrow> room c (k + room c k) = c"
  by (simp add: room_def [of c "k + room c k"])

lemma pos_word:
  assumes "0 < c" "c < 2 ^ 63" "cap = of_nat c" "counter_ok c k"
  shows "(of_nat k :: u64) mod cap = of_nat (k mod c)"
    and "cap - of_nat (k mod c) = of_nat (room c k)"
proof -
  have c: "unat cap = c" using assms(2,3) by (simp add: unat_of_nat_small)
  have "unat ((of_nat k :: u64) mod cap) = k mod c"
    by (simp only: unat_mod c counter_ok_mod [OF assms(4)])
  then show "(of_nat k :: u64) mod cap = of_nat (k mod c)"
    by (rule word_of_unat)
  have "k mod c \<le> c" using assms(1) by (simp add: less_imp_le)
  then show "cap - of_nat (k mod c) = of_nat (room c k)"
    by (simp add: assms(3) room_def of_nat_diff)
qed

lemma seg_le: "ring_seg m h t ms \<Longrightarrow> h \<le> t"
  by (induction rule: ring_seg.induct) auto

lemma seg_append: "ring_seg m h u xs \<Longrightarrow> ring_seg m u t ys \<Longrightarrow> ring_seg m h t (xs @ ys)"
  by (induction rule: ring_seg.induct) (auto intro: ring_seg.intros)

lemma seg_empty_window:
  assumes "ring_seg m h h ms" "0 < length m"
  shows "ms = []"
  using assms(1)
proof cases
  case seg_short
  then show ?thesis using seg_le [of m _ h] room_pos [OF assms(2), of h] by fastforce
next
  case seg_wrap
  then show ?thesis using seg_le [of m _ h] room_pos [OF assms(2), of h] by fastforce
next
  case (seg_rec x ms')
  then have "h + rec_len (length (payload x)) \<le> h" by (auto dest: seg_le)
  with rec_len_ge [of "length (payload x)"] show ?thesis by linarith
qed simp

text \<open>What the consumer finds at a head that is not the tail.\<close>

lemma seg_short_next:
  assumes "ring_seg m h t ms" "h \<noteq> t" "room (length m) h < 16"
  shows "ring_seg m (h + room (length m) h) t ms"
  using assms(1)
proof cases
  case (seg_rec x ms')
  with assms(3) rec_len_ge [of "length (payload x)"] show ?thesis by linarith
qed (use assms in auto)

lemma seg_wrap_next:
  assumes "ring_seg m h t ms" "h \<noteq> t" "16 \<le> room (length m) h" "wrap_at m (h mod length m)"
  shows "ring_seg m (h + room (length m) h) t ms"
  using assms(1) by cases (use assms in \<open>auto simp: rec_at_def\<close>)

lemma seg_rec_next:
  assumes "ring_seg m h t ms" "h \<noteq> t" "16 \<le> room (length m) h" "\<not> wrap_at m (h mod length m)"
  obtains x xs where "ms = x # xs" "rec_len (length (payload x)) \<le> room (length m) h"
    "rec_at m (h mod length m) x" "ring_seg m (h + rec_len (length (payload x))) t xs"
  using assms(1) by cases (use assms that in auto)

section \<open>Frame\<close>

text \<open>
  The segment depends on the bytes of its own window only.
\<close>

definition agree :: "memory \<Rightarrow> memory \<Rightarrow> nat \<Rightarrow> nat \<Rightarrow> bool" where
  "agree m m' h t \<longleftrightarrow> length m' = length m \<and>
     (\<forall>k. h \<le> k \<longrightarrow> k < t \<longrightarrow> m' ! (k mod length m) = m ! (k mod length m))"

lemma agree_refl [simp]: "agree m m h t"
  by (simp add: agree_def)

lemma agree_trans: "agree m m' h t \<Longrightarrow> agree m' m'' h t \<Longrightarrow> agree m m'' h t"
  by (simp add: agree_def)

lemma agree_sub: "agree m m' h t \<Longrightarrow> h \<le> h' \<Longrightarrow> t' \<le> t \<Longrightarrow> agree m m' h' t'"
  by (simp add: agree_def)

lemma agree_read:
  assumes "agree m m' h t" "0 < length m" "h \<le> k" "k + i + n \<le> t" "k mod length m + i + n \<le> length m"
  shows "mem_read m' (k mod length m + i) n = mem_read m (k mod length m + i) n"
proof (rule mem_read_eqI)
  show "length m' = length m" "k mod length m + i + n \<le> length m'"
    using assms by (simp_all add: agree_def)
  fix j assume j: "j < n"
  have "(k + (i + j)) mod length m = k mod length m + (i + j)"
    by (rule mod_add_in_block) (use assms j in linarith)
  moreover have "h \<le> k + (i + j)" "k + (i + j) < t" using assms j by auto
  ultimately show "m' ! (k mod length m + i + j) = m ! (k mod length m + i + j)"
    using assms(1) unfolding agree_def by (metis add.assoc)
qed

lemma agree_header:
  assumes "agree m m' h t" "0 < length m" "h \<le> k" "k + 16 \<le> t" "16 \<le> room (length m) k"
  shows "header_at m' (k mod length m) = header_at m (k mod length m)"
proof (rule header_at_cong)
  show "mem_read m' (k mod length m) 16 = mem_read m (k mod length m) 16"
    using agree_read [of m m' h t k 0 16] assms by (simp add: add_le_room)
qed

lemma seg_agree:
  assumes "ring_seg m h t ms" "agree m m' h t" "0 < length m"
  shows "ring_seg m' h t ms"
  using assms
proof (induction rule: ring_seg.induct)
  case (seg_nil h)
  show ?case by (rule ring_seg.seg_nil)
next
  case (seg_short h t ms)
  have "agree m m' (h + room (length m) h) t"
    using seg_short.prems(1) by (rule agree_sub) simp_all
  then have "ring_seg m' (h + room (length m) h) t ms"
    using seg_short.IH seg_short.prems(2) by blast
  moreover have "length m' = length m" using seg_short.prems(1) by (simp add: agree_def)
  ultimately show ?case
    using seg_short.hyps(1) by (auto intro: ring_seg.seg_short)
next
  case (seg_wrap h t ms)
  have "agree m m' (h + room (length m) h) t"
    using seg_wrap.prems(1) by (rule agree_sub) simp_all
  then have r: "ring_seg m' (h + room (length m) h) t ms"
    using seg_wrap.IH seg_wrap.prems(2) by blast
  have "h + 16 \<le> t"
    using seg_le [OF r] seg_wrap.hyps(1) by linarith
  then have "header_at m' (h mod length m) = header_at m (h mod length m)"
    using seg_wrap by (intro agree_header) auto
  then have "wrap_at m' (h mod length m)"
    using seg_wrap.hyps(2) by (simp add: wrap_at_def)
  moreover have "length m' = length m" using seg_wrap.prems(1) by (simp add: agree_def)
  ultimately show ?case
    using r seg_wrap.hyps(1) by (auto intro: ring_seg.seg_wrap)
next
  case (seg_rec x h t ms)
  let ?n = "length (payload x)"
  have "agree m m' (h + rec_len ?n) t"
    using seg_rec.prems(1) by (rule agree_sub) simp_all
  then have r: "ring_seg m' (h + rec_len ?n) t ms"
    using seg_rec.IH seg_rec.prems(2) by blast
  have b: "h + 16 + ?n \<le> t" "h mod length m + 16 + ?n \<le> length m"
    using seg_le [OF r] rec_len_bounds [of ?n] seg_rec.hyps(1) seg_rec.prems(2)
    by (auto simp: add_le_room)
  have "header_at m' (h mod length m) = header_at m (h mod length m)"
    using seg_rec b by (intro agree_header) (auto simp: add_le_room)
  moreover have "mem_read m' (h mod length m + 16) ?n = mem_read m (h mod length m + 16) ?n"
    using seg_rec b by (intro agree_read) auto
  ultimately have "rec_at m' (h mod length m) x"
    using seg_rec.hyps(2) by (simp add: rec_at_def wrap_at_def)
  moreover have "length m' = length m" using seg_rec.prems(1) by (simp add: agree_def)
  ultimately show ?case
    using r seg_rec.hyps(1) by (auto intro: ring_seg.seg_rec)
qed

text \<open>
  A write into the free part of the ring, at positions from \<open>t\<close> on and before the head comes
  round again, keeps every byte of the window.
\<close>

lemma agree_write:
  assumes "t \<le> p" "p + length bs \<le> h + length m" "p mod length m + length bs \<le> length m"
    "0 < length m"
  shows "agree m (mem_write m (p mod length m) bs) h t"
  unfolding agree_def
proof (intro conjI allI impI)
  show "length (mem_write m (p mod length m) bs) = length m"
    using assms by simp
  fix k assume k: "h \<le> k" "k < t"
  have "\<not> (p mod length m \<le> k mod length m \<and> k mod length m < p mod length m + length bs)"
  proof
    assume a: "p mod length m \<le> k mod length m \<and> k mod length m < p mod length m + length bs"
    define i where "i = k mod length m - p mod length m"
    have "i < length bs" using a by (auto simp: i_def)
    then have "(p + i) mod length m = p mod length m + i"
      using assms(3) by (intro mod_add_in_block) linarith
    also have "\<dots> = k mod length m" using a by (simp add: i_def)
    finally have "k mod length m = (p + i) mod length m" by simp
    then have "k = p + i"
      by (rule mod_window_inj) (use k assms \<open>i < length bs\<close> in linarith)+
    with k assms show False by linarith
  qed
  then show "mem_write m (p mod length m) bs ! (k mod length m) = m ! (k mod length m)"
    using assms by (subst nth_mem_write) auto
qed

lemmas seg_write = seg_agree [OF _ agree_write]

end
