(* ===== verification/Ring_Invariant.thy ===== *)
theory Ring_Invariant
  imports Ring_Memory
begin

text \<open>
  The invariant of a byte ring and what it means to push a record: the padding rule, the memory
  and the control block after the push, and that the invariant holds again with one message more.
  The writers of \<open>ring_writer.hpp\<close> and \<open>shared_ring_buffer_spsc.cpp\<close> are both shown to produce
  exactly this state.
\<close>

unbundle bit_operations_syntax

section \<open>Writing a record\<close>

text \<open>The header of the record that fills the end of the ring.\<close>

definition wrap_header :: RecordHeader where
  "wrap_header = \<lparr>rh_size = 0, rh_type = 0, rh_flags = kWrapFlag, rh_sequence = 0\<rparr>"

text \<open>\<open>memcpy(ring + pos + sizeof(RecordHeader), data, size)\<close>, skipped when \<open>size == 0\<close>.\<close>

definition copy_payload :: "memory \<Rightarrow> u64 \<Rightarrow> byte list option \<Rightarrow> u32 \<Rightarrow> memory exec" where
  "copy_payload m pos data sz =
     (if 0 < sz then
        (case data of
           None \<Rightarrow> Inl NullDereference
         | Some d \<Rightarrow> bindE (load_bytes d 0 (unat sz)) (\<lambda>bs.
             store_bytes m (unat pos + unat sizeof_RecordHeader) bs))
      else Inr m)"

section \<open>The ring invariant\<close>

text \<open>
  The geometry a reservation relies on: the counters hold the head position \<open>h\<close> and the reserved
  tail position \<open>t\<close> modulo \<open>2 ^ 64\<close>, and the window is not larger than the ring. The capacity is
  below \<open>2 ^ 63\<close> because the file length is a signed 64-bit \<open>off_t\<close>.
\<close>

definition ring_geometry :: "ring_state \<Rightarrow> nat \<Rightarrow> nat \<Rightarrow> bool" where
  "ring_geometry st h t \<longleftrightarrow>
     0 < length (ring st) \<and> length (ring st) < 2 ^ 63 \<and> capacity st = of_nat (length (ring st)) \<and>
     head_publish (control st) = of_nat h \<and> tail_reserve (control st) = of_nat t \<and>
     h \<le> t \<and> t - h \<le> length (ring st) \<and> counter_ok (length (ring st)) t"

text \<open>
  A ring at rest: nothing is reserved but not published, and the bytes of the window are the
  messages \<open>ms\<close>.
\<close>

definition ring_inv :: "ring_state \<Rightarrow> nat \<Rightarrow> nat \<Rightarrow> message list \<Rightarrow> bool" where
  "ring_inv st h t ms \<longleftrightarrow> ring_geometry st h t \<and>
     head_reserve (control st) = of_nat h \<and> tail_publish (control st) = of_nat t \<and>
     ring_seg (ring st) h t ms"

lemma ring_geometryD:
  assumes "ring_geometry st h t"
  shows "0 < length (ring st)" "length (ring st) < 2 ^ 63" "capacity st = of_nat (length (ring st))"
    "head_publish (control st) = of_nat h" "tail_reserve (control st) = of_nat t"
    "h \<le> t" "t - h \<le> length (ring st)" "counter_ok (length (ring st)) t"
  using assms by (auto simp: ring_geometry_def)

lemma ring_invD:
  assumes "ring_inv st h t ms"
  shows "ring_geometry st h t" "head_reserve (control st) = of_nat h"
    "tail_publish (control st) = of_nat t" "ring_seg (ring st) h t ms"
  using assms by (auto simp: ring_inv_def)

lemma unat_capacity: "ring_geometry st h t \<Longrightarrow> unat (capacity st) = length (ring st)"
  by (simp add: ring_geometry_def unat_of_nat)

lemma capacity_nonzero: "ring_geometry st h t \<Longrightarrow> capacity st \<noteq> 0"
  using unat_capacity [of st h t] by (auto simp: ring_geometry_def)

text \<open>The 64-bit computations of a producer on such a ring, as arithmetic on positions.\<close>

lemma tail_words:
  assumes "ring_geometry st h t"
  shows "(of_nat t - of_nat h :: u64) = of_nat (t - h)"
    and "(of_nat t :: u64) mod capacity st = of_nat (t mod length (ring st))"
    and "capacity st - of_nat (t mod length (ring st)) = of_nat (room (length (ring st)) t)"
    and "(of_nat (room (length (ring st)) t) :: u64) < 16 \<longleftrightarrow> room (length (ring st)) t < 16"
    and "(of_nat (room (length (ring st)) t) :: u64) < record_size sz \<longleftrightarrow>
      room (length (ring st)) t < rec_len (unat sz)"
    and "unat (of_nat (t mod length (ring st)) :: u64) = t mod length (ring st)"
    and "\<not> capacity st < of_nat (t - h)"
    and "n < 2 ^ 64 \<Longrightarrow> capacity st < of_nat n \<longleftrightarrow> length (ring st) < n"
proof -
  let ?c = "length (ring st)"
  note G = ring_geometryD [OF assms]
  show "(of_nat t - of_nat h :: u64) = of_nat (t - h)"
    using G(6) by (simp add: of_nat_diff)
  show "(of_nat t :: u64) mod capacity st = of_nat (t mod ?c)"
    "capacity st - of_nat (t mod ?c) = of_nat (room ?c t)"
    by (rule pos_word [OF G(1,2,3,8)])+
  have c: "?c < 2 ^ 64" using G(2) by simp
  have "t mod ?c < ?c" "room ?c t \<le> ?c" using G(1) room_le by auto
  with c have lt: "t mod ?c < 2 ^ 64" "room ?c t < 2 ^ 64" by linarith+
  show "unat (of_nat (t mod ?c) :: u64) = t mod ?c"
    using lt by (simp only: unat_of_nat_small)
  show "(of_nat (room ?c t) :: u64) < 16 \<longleftrightarrow> room ?c t < 16"
    using of_nat_less_word(1) [of "room ?c t" 16] lt by simp
  show "(of_nat (room ?c t) :: u64) < record_size sz \<longleftrightarrow> room ?c t < rec_len (unat sz)"
    unfolding record_size_of_nat using lt rec_len_lt [of sz] by (intro of_nat_less_word) simp_all
  show gt: "capacity st < of_nat n \<longleftrightarrow> ?c < n" if "n < 2 ^ 64" for n
    unfolding G(3) using c that by (intro of_nat_less_word)
  show "\<not> capacity st < of_nat (t - h)"
    using gt [of "t - h"] G(7) c by simp
qed

text \<open>Padding before a record of \<open>n\<close> payload bytes at position \<open>t\<close>, and the bytes it takes in all.\<close>

definition pad_len :: "nat \<Rightarrow> nat \<Rightarrow> nat \<Rightarrow> nat" where
  "pad_len c t n = (if room c t < rec_len n then room c t else 0)"

definition push_len :: "nat \<Rightarrow> nat \<Rightarrow> nat \<Rightarrow> nat" where
  "push_len c t n = pad_len c t n + rec_len n"

definition push_fits :: "ring_state \<Rightarrow> nat \<Rightarrow> nat \<Rightarrow> nat \<Rightarrow> bool" where
  "push_fits st h t n \<longleftrightarrow>
     rec_len n \<le> length (ring st) \<and> t - h + push_len (length (ring st)) t n \<le> length (ring st)"

section \<open>The memory after a push\<close>

definition pushed_memory :: "memory \<Rightarrow> nat \<Rightarrow> message \<Rightarrow> memory" where
  "pushed_memory m t x =
     (let c = length m; n = length (payload x); pad = pad_len c t n;
          m' = (if 16 \<le> room c t \<and> room c t < rec_len n
                then mem_write m (t mod c) (header_bytes wrap_header) else m)
      in mem_write m' ((t + pad) mod c)
           (header_bytes \<lparr>rh_size = of_nat n, rh_type = msg_type x, rh_flags = 0,
              rh_sequence = msg_sequence x\<rparr> @ payload x))"

lemma wrap_header_flags: "rh_flags wrap_header AND kWrapFlag \<noteq> 0"
  by (simp add: wrap_header_def kWrapFlag_def)

lemma rec_at_written:
  assumes "p + 16 + length (payload x) \<le> length m" "length (payload x) < 2 ^ 32"
  shows "rec_at (mem_write m p (header_bytes \<lparr>rh_size = of_nat (length (payload x)),
      rh_type = msg_type x, rh_flags = 0, rh_sequence = msg_sequence x\<rparr> @ payload x)) p x"
    (is "rec_at ?m p x")
proof -
  let ?h = "\<lparr>rh_size = of_nat (length (payload x)), rh_type = msg_type x, rh_flags = 0,
    rh_sequence = msg_sequence x\<rparr> :: RecordHeader"
  have "mem_read ?m p 16 = mem_read (mem_write m p (header_bytes ?h)) p 16"
    using assms by (simp add: mem_read_write_sub) (simp add: mem_read_def)
  then have "header_at ?m p = ?h"
    using header_at_cong [of ?m p] header_at_write [of p m ?h] assms by simp
  moreover have "mem_read ?m (p + 16) (length (payload x)) = payload x"
    using assms by (simp add: mem_read_write_sub) (simp add: mem_read_def)
  ultimately show ?thesis
    using assms by (simp add: rec_at_def wrap_at_def unat_of_nat)
qed

lemma pad_cases:
  assumes "0 < c" "rec_len n \<le> c"
  obtains (fits) "pad_len c t n = 0" "rec_len n \<le> room c t" "(t + pad_len c t n) mod c = t mod c"
  | (short) "pad_len c t n = room c t" "room c t < 16" "(t + pad_len c t n) mod c = 0"
  | (wrap) "pad_len c t n = room c t" "16 \<le> room c t" "room c t < rec_len n"
      "(t + pad_len c t n) mod c = 0"
proof -
  consider "rec_len n \<le> room c t" | "room c t < 16" | "16 \<le> room c t" "room c t < rec_len n"
    by linarith
  then show ?thesis
  proof cases
    case 2
    then have "room c t < rec_len n" using rec_len_ge [of n] by linarith
    with 2 assms that show ?thesis by (simp add: pad_len_def)
  qed (use assms that in \<open>simp_all add: pad_len_def\<close>)
qed

lemma pushed_place:
  assumes "0 < c" "rec_len n \<le> c"
  shows "rec_len n \<le> room c (t + pad_len c t n)"
proof (rule pad_cases [OF assms, of t])
qed (use assms in \<open>auto simp: room_def\<close>)

lemma pushed_memory_seg:
  assumes "ring_seg m h t ms" "0 < length m"
    "rec_len (length (payload x)) \<le> length m"
    "t - h + push_len (length m) t (length (payload x)) \<le> length m" "length (payload x) < 2 ^ 32"
  shows "length (pushed_memory m t x) = length m"
    and "ring_seg (pushed_memory m t x) h (t + push_len (length m) t (length (payload x))) (ms @ [x])"
proof -
  let ?c = "length m" and ?n = "length (payload x)"
  let ?pad = "pad_len ?c t ?n" and ?q = "t + pad_len ?c t ?n"
  let ?hdr = "\<lparr>rh_size = of_nat ?n, rh_type = msg_type x, rh_flags = 0,
    rh_sequence = msg_sequence x\<rparr> :: RecordHeader"
  let ?bs = "header_bytes ?hdr @ payload x"
  define w where "w \<longleftrightarrow> 16 \<le> room ?c t \<and> room ?c t < rec_len ?n"
  define m1 where "m1 = (if w then mem_write m (t mod ?c) (header_bytes wrap_header) else m)"
  have ht: "h \<le> t" using assms(1) by (rule seg_le)
  have room_t: "16 \<le> room ?c t \<Longrightarrow> t mod ?c + 16 \<le> ?c"
    using add_le_room [OF assms(2), of 16 t] by simp
  have m': "pushed_memory m t x = mem_write m1 (?q mod ?c) ?bs"
    by (simp add: pushed_memory_def Let_def m1_def w_def)
  have place: "?q mod ?c + length ?bs \<le> ?c"
    using pushed_place [OF assms(2,3), of t] rec_len_bounds(1) [of ?n] add_le_room [OF assms(2)]
    by (metis (no_types, lifting) add.commute add_le_cancel_left dual_order.trans length_append length_header_bytes)
  have len1: "length m1 = ?c" using room_t by (simp add: m1_def w_def)
  show len: "length (pushed_memory m t x) = ?c"
    using place by (simp add: m' len1)
  have bs_len: "length ?bs \<le> rec_len ?n" using rec_len_bounds(1) [of ?n] by simp
  have win: "?q + length ?bs \<le> h + ?c"
    using assms(4) ht bs_len by (simp add: push_len_def)
  have agree1: "agree m m1 h t"
  proof (cases w)
    case True
    then have "t + 16 \<le> h + ?c" using win by (simp add: w_def pad_len_def)
    with True show ?thesis
      unfolding m1_def using agree_write [of t t "header_bytes wrap_header" h m] room_t assms(2)
      by (simp add: w_def)
  qed (simp add: m1_def)
  have agree2: "agree m1 (pushed_memory m t x) h ?q"
    unfolding m' len1 [symmetric]
    by (rule agree_write) (use win place len1 assms(2) in auto)
  have old: "ring_seg (pushed_memory m t x) h t ms"
    using seg_agree [OF assms(1) agree_trans [OF agree1]] agree_sub [OF agree2, of h t] assms(2)
    by simp
  have rec: "ring_seg (pushed_memory m t x) ?q (?q + rec_len ?n) [x]"
  proof (rule seg_rec)
    show "rec_len ?n \<le> room (length (pushed_memory m t x)) ?q"
      using pushed_place [OF assms(2,3)] by (simp add: len)
    show "rec_at (pushed_memory m t x) (?q mod length (pushed_memory m t x)) x"
      unfolding len unfolding m' by (rule rec_at_written) (use place len1 assms(5) in auto)
  qed (rule seg_nil)
  have new: "ring_seg (pushed_memory m t x) t (?q + rec_len ?n) [x]"
    using assms(2,3)
  proof (cases rule: pad_cases [where t = t])
    case fits
    with rec show ?thesis by simp
  next
    case short
    with rec show ?thesis using seg_short [of "pushed_memory m t x" t] by (simp add: len)
  next
    case wrap
    then have w by (simp add: w_def)
    have "header_at (pushed_memory m t x) (t mod ?c) = header_at m1 (t mod ?c)"
      using agree_header [OF agree2, of t] wrap ht assms(2) by (simp add: len1)
    also have "\<dots> = wrap_header"
      using \<open>w\<close> room_t wrap by (simp add: m1_def)
    finally have "wrap_at (pushed_memory m t x) (t mod ?c)"
      using wrap_header_flags by (simp add: wrap_at_def)
    with rec wrap show ?thesis using seg_wrap [of "pushed_memory m t x" t] by (simp add: len)
  qed
  show "ring_seg (pushed_memory m t x) h (t + push_len ?c t ?n) (ms @ [x])"
    using seg_append [OF old new] by (simp add: push_len_def add.assoc)
qed

definition readable :: "byte list option \<Rightarrow> u32 \<Rightarrow> bool" where
  "readable data sz \<longleftrightarrow> (case data of None \<Rightarrow> sz = 0 | Some d \<Rightarrow> unat sz \<le> length d)"

definition source_bytes :: "byte list option \<Rightarrow> u32 \<Rightarrow> byte list" where
  "source_bytes data sz = (case data of None \<Rightarrow> [] | Some d \<Rightarrow> take (unat sz) d)"

lemma length_source_bytes: "readable data sz \<Longrightarrow> length (source_bytes data sz) = unat sz"
  by (auto simp: readable_def source_bytes_def split: option.splits)

lemma copy_payload_ok:
  assumes "readable data sz" "unat pos + 16 + unat sz \<le> length m"
  shows "copy_payload m pos data sz = Inr (mem_write m (unat pos + 16) (source_bytes data sz))"
proof (cases "sz = 0")
  case True
  with length_source_bytes [OF assms(1)] show ?thesis
    by (simp add: copy_payload_def)
next
  case False
  with assms obtain d where d: "data = Some d" "unat sz \<le> length d"
    by (auto simp: readable_def split: option.splits)
  with False assms(2) show ?thesis
    by (simp add: copy_payload_def word_gt_0 exec_simps source_bytes_def mem_read_def)
qed

lemma store_sequence_pushed:
  assumes "0 < length m" "length m < 2 ^ 63" "rec_len (length (payload x)) \<le> length m"
  shows "store_rh_sequence (pushed_memory m t x)
      (of_nat ((t + pad_len (length m) t (length (payload x))) mod length m)) s =
    Inr (pushed_memory m t (x\<lparr>msg_sequence := s\<rparr>))"
proof -
  let ?c = "length m" and ?n = "length (payload x)"
  let ?q = "(t + pad_len ?c t ?n) mod ?c"
  define m1 where "m1 = (if 16 \<le> room ?c t \<and> room ?c t < rec_len ?n
    then mem_write m (t mod ?c) (header_bytes wrap_header) else m)"
  define pre where "pre = enc32 (of_nat ?n) @ enc16 (msg_type x) @ enc16 0"
  have pm: "pushed_memory m t (x\<lparr>msg_sequence := v\<rparr>) = mem_write m1 ?q (pre @ enc64 v @ payload x)" for v
    by (simp add: pushed_memory_def Let_def m1_def pre_def header_bytes_def)
  have len1: "length m1 = ?c"
    using add_le_room [OF assms(1), of 16 t] by (simp add: m1_def)
  have place: "?q + 16 + ?n \<le> ?c"
    using pushed_place [OF assms(1,3), of t] rec_len_bounds(1) [of ?n] add_le_room [OF assms(1)]
    by (simp add: add.assoc)
  have q: "unat (of_nat ?q :: u64) = ?q"
    using assms(2) place by (intro unat_of_nat_small) simp
  have "mem_write (mem_write m1 ?q (pre @ enc64 (msg_sequence x) @ payload x)) (?q + length pre) (enc64 s) =
      mem_write m1 ?q (pre @ enc64 s @ payload x)"
    by (rule mem_write_inner) (use place len1 in \<open>simp_all add: pre_def\<close>)
  then show ?thesis
    using place len1 pm [of "msg_sequence x"] pm [of s]
    by (simp add: store_rh_sequence_def store_u64_def q store_bytes_ok pre_def)
qed

text \<open>The state after a push of message \<open>x\<close> at tail position \<open>t\<close>.\<close>

definition pushed_state :: "ring_state \<Rightarrow> nat \<Rightarrow> message \<Rightarrow> ring_state" where
  "pushed_state st t x =
     (let t' = of_nat (t + push_len (length (ring st)) t (length (payload x)))
      in st\<lparr>control := (control st)\<lparr>tail_reserve := t', tail_publish := t', sequence := msg_sequence x\<rparr>,
            ring := pushed_memory (ring st) t x\<rparr>)"

definition next_message :: "ring_state \<Rightarrow> byte list \<Rightarrow> u16 \<Rightarrow> message" where
  "next_message st bs ty =
     \<lparr>payload = bs, msg_type = ty, msg_sequence = sequence (control st) + 1\<rparr>"

text \<open>Distance of the 64-bit tail counter from its wrap-around: more than one record.\<close>

definition counter_headroom :: "nat \<Rightarrow> nat \<Rightarrow> bool" where
  "counter_headroom c t \<longleftrightarrow> c dvd 2 ^ 64 \<or> t + 2 ^ 34 \<le> 2 ^ 64"

lemma push_len_lt: "push_len c t (unat (sz :: u32)) < 2 ^ 34"
proof -
  have "pad_len c t (unat sz) < rec_len (unat sz) \<or> pad_len c t (unat sz) = 0"
    by (simp add: pad_len_def)
  then show ?thesis using rec_len_lt [of sz] by (auto simp: push_len_def)
qed

lemma headroom_counter_ok:
  "counter_headroom c t \<Longrightarrow> counter_ok c (t + push_len c t (unat (sz :: u32)))"
  using push_len_lt [of c t sz] by (auto simp: counter_headroom_def counter_ok_def)

lemma pushed_state_inv:
  assumes inv: "ring_inv st h t ms" and n: "length (payload x) = unat (sz :: u32)"
    and fits: "push_fits st h t (unat sz)" and hr: "counter_headroom (length (ring st)) t"
  shows "ring_inv (pushed_state st t x) h (t + push_len (length (ring st)) t (unat sz)) (ms @ [x])"
proof -
  note G = ring_geometryD [OF ring_invD(1) [OF inv]]
  have "length (payload x) < 2 ^ 32" using unat_lt_pow [of sz] n by simp
  moreover have "rec_len (length (payload x)) \<le> length (ring st)"
    "t - h + push_len (length (ring st)) t (length (payload x)) \<le> length (ring st)"
    using fits by (simp_all add: push_fits_def n)
  ultimately have s: "length (pushed_memory (ring st) t x) = length (ring st)"
    "ring_seg (pushed_memory (ring st) t x) h (t + push_len (length (ring st)) t (unat sz)) (ms @ [x])"
    using pushed_memory_seg [OF ring_invD(4) [OF inv] G(1), of x] by (simp_all add: n)
  show ?thesis
    using G ring_invD [OF inv] s fits headroom_counter_ok [OF hr, of sz]
    by (simp add: ring_inv_def ring_geometry_def pushed_state_def Let_def n push_fits_def)
qed

text \<open>An accepted push, in the form the ring interface asks for.\<close>

lemma push_accepted:
  fixes ty :: u16
  assumes inv: "ring_inv st h t ms" and rd: "readable data sz"
    and fits: "push_fits st h t (unat sz)" and hr: "counter_headroom (length (ring st)) t"
  defines "x \<equiv> next_message st (source_bytes data sz) ty"
  shows "\<exists>t'. ring_inv (pushed_state st t x) h t' (ms @ [x]) \<and>
    sequence (control (pushed_state st t x)) = sequence (control st) + 1 \<and>
    length (ring (pushed_state st t x)) = length (ring st) \<and> t' \<le> t + 2 ^ 34"
proof -
  have n: "length (payload x) = unat sz"
    using length_source_bytes [OF rd] by (simp add: x_def next_message_def)
  have "length (pushed_memory (ring st) t x) = length (ring st)"
    using fits n unat_lt_pow [of sz] ring_geometryD(1) [OF ring_invD(1) [OF inv]]
    by (intro pushed_memory_seg(1) [OF ring_invD(4) [OF inv]]) (simp_all add: push_fits_def)
  moreover have "push_len (length (ring st)) t (unat sz) \<le> 2 ^ 34"
    using push_len_lt [of "length (ring st)" t sz] by simp
  ultimately show ?thesis
    using pushed_state_inv [OF inv n fits hr]
    by (intro exI [of _ "t + push_len (length (ring st)) t (unat sz)"])
       (simp add: pushed_state_def Let_def x_def next_message_def)
qed

end
