(* ===== verification/Ring_Interface.thy ===== *)
theory Ring_Interface
  imports Ring_Invariant
begin

text \<open>
  The interfaces of the byte rings.

  \<open>ring_consumer\<close> is the contract of one turn of a consumer loop: nothing at an empty window,
  progress over padding (or a retry after a spurious failure), or the delivery of the first
  message. What a whole \<open>try_pop\<close> does follows once for every loop that meets it.

  \<open>byte_ring\<close> is what the clients of a ring rely on: the laws of \<open>try_push\<close> and \<open>try_pop\<close> over the
  messages in the ring. In it, every sequence of operations is shown to refine the abstract FIFO
  queue \<open>fifo_accepts\<close>.
\<close>

unbundle bit_operations_syntax

section \<open>Results of a pop\<close>

text \<open>
  The output arguments of \<open>try_pop\<close>: the caller's vector, the type, and the sequence number, whose
  pointer may be null.
\<close>

record pop_out =
  out :: "byte list"
  out_type :: u16
  out_sequence :: "u64 option"

definition vector_resize :: "byte list \<Rightarrow> nat \<Rightarrow> byte list" where
  "vector_resize v n = take n v @ replicate (n - length v) 0"

text \<open>
  Copy the payload out of the ring: the vector grows when it is too small and is never shrunk.
\<close>

definition copy_out :: "memory \<Rightarrow> u64 \<Rightarrow> u32 \<Rightarrow> byte list \<Rightarrow> byte list exec" where
  "copy_out m pos sz v =
     (let n = unat sz; v' = (if length v < n then vector_resize v n else v)
      in if n > 0 then
           bindE (load_bytes m (unat pos + unat sizeof_RecordHeader) n) (\<lambda>bs. store_bytes v' 0 bs)
         else Inr v')"

definition deliver :: "pop_out \<Rightarrow> message \<Rightarrow> pop_out" where
  "deliver p x =
     \<lparr>out = payload x @ drop (length (payload x)) (out p), out_type = msg_type x,
      out_sequence = map_option (\<lambda>_. msg_sequence x) (out_sequence p)\<rparr>"

text \<open>The state with the head counters moved to position \<open>h\<close>.\<close>

definition moved :: "ring_state \<Rightarrow> nat \<Rightarrow> ring_state" where
  "moved st h =
     st\<lparr>control := (control st)\<lparr>head_publish := of_nat h, head_reserve := of_nat h\<rparr>\<rparr>"

lemma moved_simps [simp]:
  "ring (moved st h) = ring st" "capacity (moved st h) = capacity st"
  "tail_publish (control (moved st h)) = tail_publish (control st)"
  "tail_reserve (control (moved st h)) = tail_reserve (control st)"
  "sequence (control (moved st h)) = sequence (control st)"
  "head_publish (control (moved st h)) = of_nat h" "head_reserve (control (moved st h)) = of_nat h"
  "moved (moved st h) h' = moved st h'"
  by (simp_all add: moved_def)

lemma moved_self: "ring_inv st h t ms \<Longrightarrow> moved st h = st"
  by (simp add: moved_def ring_inv_def ring_geometry_def)

lemma moved_inv:
  assumes "ring_inv st h t ms" "h \<le> h'" "ring_seg (ring st) h' t ms'"
  shows "ring_inv (moved st h') h' t ms'"
  using assms seg_le [OF assms(3)] by (auto simp: ring_inv_def ring_geometry_def)

lemma copy_out_ok:
  assumes "rec_at m (unat pos) x" "unat pos + 16 + length (payload x) \<le> length m"
  shows "copy_out m pos (rh_size (header_at m (unat pos))) v =
    Inr (payload x @ drop (length (payload x)) v)"
proof -
  have n: "unat (rh_size (header_at m (unat pos))) = length (payload x)"
    and bs: "mem_read m (unat pos + 16) (length (payload x)) = payload x"
    using assms(1) by (auto simp: rec_at_def)
  show ?thesis
    using assms(2) by (auto simp: copy_out_def Let_def n bs exec_simps vector_resize_def mem_write_def)
qed

text \<open>The facts a consumer's turn needs at a head that is not the tail.\<close>

lemma head_words:
  assumes "ring_inv st h t ms"
  shows "(of_nat h :: u64) mod capacity st = of_nat (h mod length (ring st))"
    and "capacity st - of_nat (h mod length (ring st)) = of_nat (room (length (ring st)) h)"
    and "unat (of_nat (h mod length (ring st)) :: u64) = h mod length (ring st)"
    and "(of_nat (room (length (ring st)) h) :: u64) < 16 \<longleftrightarrow>
      room (length (ring st)) h < 16"
    and "unat (of_nat (room (length (ring st)) h) :: u64) = room (length (ring st)) h"
    and "unat (of_nat t - of_nat h :: u64) = t - h"
    and "(of_nat h :: u64) = of_nat t \<longleftrightarrow> h = t"
proof -
  let ?c = "length (ring st)"
  note G = ring_geometryD [OF ring_invD(1) [OF assms]]
  note P = pos_word [OF G(1,2,3) counter_ok_mono [OF G(8,6)]]
  show "(of_nat h :: u64) mod capacity st = of_nat (h mod ?c)"
    "capacity st - of_nat (h mod ?c) = of_nat (room ?c h)"
    by (rule P)+
  have "?c < 2 ^ 64" using G(2) by simp
  moreover have "h mod ?c < ?c" "room ?c h \<le> ?c" using G(1) room_le by auto
  ultimately have lt: "h mod ?c < 2 ^ 64" "room ?c h < 2 ^ 64" by linarith+
  then show "unat (of_nat (h mod ?c) :: u64) = h mod ?c" "unat (of_nat (room ?c h) :: u64) = room ?c h"
    by (simp_all only: unat_of_nat_small)
  show "(of_nat (room ?c h) :: u64) < 16 \<longleftrightarrow> room ?c h < 16"
    using of_nat_less_word(1) [of "room ?c h" 16] lt by simp
  have "t - h < 2 ^ 64" using G(7) \<open>?c < 2 ^ 64\<close> by linarith
  then show "unat (of_nat t - of_nat h :: u64) = t - h" "(of_nat h :: u64) = of_nat t \<longleftrightarrow> h = t"
    using counter_diff [OF G(6)] counter_eq_iff [OF G(6)] by blast+
qed

text \<open>What a consumer finds at a head that holds a record: the first message, in full.\<close>

definition head_record :: "ring_state \<Rightarrow> nat \<Rightarrow> nat \<Rightarrow> message list \<Rightarrow> message \<Rightarrow> message list \<Rightarrow> bool" where
  "head_record st h t ms x xs \<longleftrightarrow>
     ring_inv st h t ms \<and> ms = x # xs \<and>
     rec_len (length (payload x)) \<le> room (length (ring st)) h \<and>
     rec_at (ring st) (h mod length (ring st)) x \<and>
     ring_seg (ring st) (h + rec_len (length (payload x))) t xs"

lemma record_at_head:
  assumes "ring_inv st h t ms" "h \<noteq> t"
    and "16 \<le> room (length (ring st)) h" "\<not> wrap_at (ring st) (h mod length (ring st))"
  shows "\<exists>x xs. head_record st h t ms x xs"
  using ring_invD(4) [OF assms(1)] assms(2-4)
  by (rule seg_rec_next) (use assms(1) in \<open>auto simp: head_record_def\<close>)

lemma head_recordD:
  assumes "head_record st h t ms x xs"
  defines "c \<equiv> length (ring st)"
  shows "ms = x # xs" "rec_at (ring st) (h mod c) x"
    "h mod c + 16 + length (payload x) \<le> c"
    "rh_flags (header_at (ring st) (h mod c)) AND kWrapFlag = 0"
    "rh_type (header_at (ring st) (h mod c)) = msg_type x"
    "\<not> record_size (rh_size (header_at (ring st) (h mod c))) > of_nat (room c h)"
    "record_size (rh_size (header_at (ring st) (h mod c))) = of_nat (rec_len (length (payload x)))"
    "\<not> of_nat t - of_nat h < record_size (rh_size (header_at (ring st) (h mod c)))"
    "ring_inv (moved st (h + rec_len (length (payload x)))) (h + rec_len (length (payload x))) t xs"
    "h + rec_len (length (payload x)) \<le> t"
proof -
  let ?n = "length (payload x)" and ?sz = "rh_size (header_at (ring st) (h mod c))"
  have x: "ring_inv st h t ms" "ms = x # xs" "rec_len ?n \<le> room c h" "rec_at (ring st) (h mod c) x"
    "ring_seg (ring st) (h + rec_len ?n) t xs"
    using assms(1) by (auto simp: head_record_def c_def)
  note W = head_words [OF x(1), folded c_def]
  note G = ring_geometryD [OF ring_invD(1) [OF x(1)], folded c_def]
  show "ms = x # xs" "rec_at (ring st) (h mod c) x" by fact+
  have n: "unat ?sz = ?n" using x(4) by (auto simp: rec_at_def)
  show "rh_flags (header_at (ring st) (h mod c)) AND kWrapFlag = 0"
    "rh_type (header_at (ring st) (h mod c)) = msg_type x"
    using x(4) by (auto simp: rec_at_def wrap_at_def)
  show "h mod c + 16 + ?n \<le> c"
    using x(3) rec_len_bounds(1) [of ?n] add_le_room [OF G(1), of "rec_len ?n" h] by linarith
  show "\<not> record_size ?sz > of_nat (room c h)"
    using x(3) by (simp add: word_less_nat_alt unat_record_size n W(5))
  show "record_size ?sz = of_nat (rec_len ?n)" by (simp add: record_size_of_nat n)
  show le: "h + rec_len ?n \<le> t" using x(5) by (rule seg_le)
  then show "\<not> of_nat t - of_nat h < record_size ?sz"
    by (simp add: word_less_nat_alt unat_record_size n W(6))
  show "ring_inv (moved st (h + rec_len ?n)) (h + rec_len ?n) t xs"
    using x(1,5) by (intro moved_inv) auto
qed

section \<open>One turn of a consumer\<close>

locale ring_consumer =
  fixes body :: "pop_out \<Rightarrow> 's \<Rightarrow> ('s + (bool \<times> pop_out \<times> ring_state)) exec option"
    and state_of :: "'s \<Rightarrow> ring_state"
    and retries :: "'s \<Rightarrow> nat"
  assumes body_empty:
      "ring_inv (state_of s) h t ms \<Longrightarrow> h = t \<Longrightarrow> body p s = Some (Inr (Inr (False, p, state_of s)))"
    and body_progress:
      "ring_inv (state_of s) h t ms \<Longrightarrow> h \<noteq> t \<Longrightarrow>
         (\<exists>s' h'. body p s = Some (Inr (Inl s')) \<and> state_of s' = moved (state_of s) h' \<and>
            ring_inv (state_of s') h' t ms \<and> retries s' \<le> retries s \<and> h \<le> h' \<and>
            (h < h' \<or> retries s' < retries s)) \<or>
         (\<exists>x xs h'. ms = x # xs \<and> h < h' \<and>
            body p s = Some (Inr (Inr (True, deliver p x, moved (state_of s) h'))) \<and>
            ring_inv (moved (state_of s) h') h' t xs)"
begin

lemma pop_loop:
  assumes "ring_inv (state_of s) h t ms"
  shows "case ms of
      [] \<Rightarrow> run_loopL (body p) s = Some (Inr (False, p, moved (state_of s) t)) \<and>
            ring_inv (moved (state_of s) t) t t []
    | x # xs \<Rightarrow> \<exists>h'. h < h' \<and> h' \<le> t \<and>
        run_loopL (body p) s = Some (Inr (True, deliver p x, moved (state_of s) h')) \<and>
        ring_inv (moved (state_of s) h') h' t xs"
  using assms
proof (induction "t - h + retries s" arbitrary: h s rule: less_induct)
  case less
  note seg = ring_invD(4) [OF less.prems]
  show ?case
  proof (cases "h = t")
    case True
    have "0 < length (ring (state_of s))"
      using less.prems by (simp add: ring_inv_def ring_geometry_def)
    with seg True have "ms = []" by (auto intro: seg_empty_window)
    moreover have "run_loopL (body p) s = Some (Inr (False, p, moved (state_of s) t))"
      using body_empty [OF less.prems True, of p] moved_self [OF less.prems] True
      by (simp add: run_loopL_exit)
    ultimately show ?thesis
      using less.prems moved_self [OF less.prems] True by simp
  next
    case False
    from body_progress [OF less.prems False, of p]
    consider (step) s' h' where "body p s = Some (Inr (Inl s'))" "state_of s' = moved (state_of s) h'"
        "ring_inv (state_of s') h' t ms" "retries s' \<le> retries s" "h \<le> h'"
        "h < h' \<or> retries s' < retries s"
      | (pop) x xs h' where "ms = x # xs" "h < h'"
        "body p s = Some (Inr (Inr (True, deliver p x, moved (state_of s) h')))"
        "ring_inv (moved (state_of s) h') h' t xs"
      by blast
    then show ?thesis
    proof cases
      case step
      have "h' \<le> t" using step(3) by (auto dest: ring_invD seg_le)
      with step have "t - h' + retries s' < t - h + retries s" using False by auto
      from less.hyps [OF this step(3)] show ?thesis
        using run_loopL_continue [where body = "body p", OF step(1)] step(2,5)
        by (auto split: list.splits intro: le_less_trans)
    next
      case pop
      have "h' \<le> t" using ring_invD(4) [OF pop(4)] by (rule seg_le)
      with pop show ?thesis by (auto simp: run_loopL_exit)
    qed
  qed
qed

lemma pop_empty:
  "ring_inv (state_of s) h t [] \<Longrightarrow>
     run_loopL (body p) s = Some (Inr (False, p, moved (state_of s) t)) \<and>
     ring_inv (moved (state_of s) t) t t []"
  using pop_loop [of s h t "[]" p] by simp

lemma pop_first:
  "ring_inv (state_of s) h t (x # xs) \<Longrightarrow>
     \<exists>h'. h < h' \<and> h' \<le> t \<and> run_loopL (body p) s = Some (Inr (True, deliver p x, moved (state_of s) h')) \<and>
       ring_inv (moved (state_of s) h') h' t xs"
  using pop_loop [of s h t "x # xs" p] by simp

end

section \<open>The ring as a FIFO queue\<close>

text \<open>
  The abstract queue: messages in order and a 64-bit counter that numbers them. A push may be
  refused (the ring is bounded) and then changes nothing; a pop returns the oldest message, or
  nothing exactly when the queue is empty. \<open>fifo_accepts\<close> replays a list of operations with their
  observed results and gives the final queue, or \<open>None\<close> when a FIFO queue could not behave so.
\<close>

datatype ring_op = Push "byte list" u16 | Pop
text \<open>Payload sizes that fit the 32-bit size argument.\<close>

fun op_small :: "ring_op \<Rightarrow> bool" where
  "op_small (Push bs ty) = (length bs < 2 ^ 32)"
| "op_small Pop = True"

datatype ring_ret = Pushed bool | Popped "message option"

fun fifo_accepts :: "message list \<Rightarrow> u64 \<Rightarrow> ring_op list \<Rightarrow> ring_ret list \<Rightarrow> (message list \<times> u64) option"
where
  "fifo_accepts q s [] [] = Some (q, s)"
| "fifo_accepts q s (Push bs ty # ops) (Pushed ok # rs) =
     (if ok then fifo_accepts (q @ [\<lparr>payload = bs, msg_type = ty, msg_sequence = s + 1\<rparr>]) (s + 1) ops rs
      else fifo_accepts q s ops rs)"
| "fifo_accepts q s (Pop # ops) (Popped r # rs) =
     (case q of
        [] \<Rightarrow> if r = None then fifo_accepts [] s ops rs else None
      | x # xs \<Rightarrow> if r = Some x then fifo_accepts xs s ops rs else None)"
| "fifo_accepts q s _ _ = None"

text \<open>Running operations on a ring: a push of a span, a pop into fresh outputs.\<close>

definition fresh_out :: pop_out where
  "fresh_out = \<lparr>out = [], out_type = 0, out_sequence = Some 0\<rparr>"

definition popped_message :: "pop_out \<Rightarrow> message" where
  "popped_message p =
     \<lparr>payload = out p, msg_type = out_type p,
      msg_sequence = (case out_sequence p of None \<Rightarrow> 0 | Some s \<Rightarrow> s)\<rparr>"

type_synonym push_fun = "ring_state \<Rightarrow> byte list option \<Rightarrow> u32 \<Rightarrow> u16 \<Rightarrow> (bool \<times> ring_state) exec option"
type_synonym pop_fun = "ring_state \<Rightarrow> pop_out \<Rightarrow> (bool \<times> pop_out \<times> ring_state) exec option"

fun run_op :: "push_fun \<Rightarrow> pop_fun \<Rightarrow> ring_op \<Rightarrow> ring_state \<Rightarrow> (ring_ret \<times> ring_state) exec option" where
  "run_op push pop (Push bs ty) st =
     bindL (push st (Some bs) (of_nat (length bs)) ty) (\<lambda>(ok, st). Some (Inr (Pushed ok, st)))"
| "run_op push pop Pop st =
     bindL (pop st fresh_out) (\<lambda>(ok, p, st).
       Some (Inr (Popped (if ok then Some (popped_message p) else None), st)))"

fun run_ops :: "push_fun \<Rightarrow> pop_fun \<Rightarrow> ring_op list \<Rightarrow> ring_state \<Rightarrow> (ring_ret list \<times> ring_state) exec option"
where
  "run_ops push pop [] st = Some (Inr ([], st))"
| "run_ops push pop (op # ops) st =
     bindL (run_op push pop op st) (\<lambda>(r, st).
     bindL (run_ops push pop ops st) (\<lambda>(rs, st). Some (Inr (r # rs, st))))"

lemma popped_delivered [simp]: "popped_message (deliver fresh_out x) = x"
  by (simp add: popped_message_def deliver_def fresh_out_def)

locale byte_ring =
  fixes push :: push_fun and pop :: pop_fun
  assumes push_law:
      "ring_inv st h t ms \<Longrightarrow> readable data sz \<Longrightarrow> counter_headroom (length (ring st)) t \<Longrightarrow>
       \<exists>st' t'. push st data sz ty = Some (Inr (push_fits st h t (unat sz), st')) \<and>
         ring_inv st' h t' (if push_fits st h t (unat sz)
           then ms @ [next_message st (source_bytes data sz) ty] else ms) \<and>
         sequence (control st') =
           (if push_fits st h t (unat sz) then sequence (control st) + 1 else sequence (control st)) \<and>
         length (ring st') = length (ring st) \<and> t' \<le> t + 2 ^ 34"
    and pop_empty_law:
      "ring_inv st h t [] \<Longrightarrow>
       \<exists>st'. pop st p = Some (Inr (False, p, st')) \<and> ring_inv st' t t [] \<and>
         sequence (control st') = sequence (control st) \<and> length (ring st') = length (ring st)"
    and pop_first_law:
      "ring_inv st h t (x # xs) \<Longrightarrow>
       \<exists>st' h'. pop st p = Some (Inr (True, deliver p x, st')) \<and> ring_inv st' h' t xs \<and>
         sequence (control st') = sequence (control st) \<and> length (ring st') = length (ring st)"
begin

lemma push_op:
  assumes "ring_inv st h t ms" "length bs < 2 ^ 32" "counter_headroom (length (ring st)) t"
  obtains ok st' t' where "run_op push pop (Push bs ty) st = Some (Inr (Pushed ok, st'))"
    "ring_inv st' h t' (if ok then ms @ [next_message st bs ty] else ms)"
    "sequence (control st') = (if ok then sequence (control st) + 1 else sequence (control st))"
    "length (ring st') = length (ring st)" "t' \<le> t + 2 ^ 34"
proof -
  have n: "unat (of_nat (length bs) :: u32) = length bs"
    using assms(2) by (simp add: unat_of_nat)
  have r: "readable (Some bs) (of_nat (length bs))"
    and s: "source_bytes (Some bs) (of_nat (length bs)) = bs"
    by (simp_all add: readable_def source_bytes_def n)
  from push_law [OF assms(1) r assms(3), of ty] obtain st' t' where
    "push st (Some bs) (of_nat (length bs)) ty =
      Some (Inr (push_fits st h t (unat (of_nat (length bs) :: u32)), st'))"
    "ring_inv st' h t' (if push_fits st h t (unat (of_nat (length bs) :: u32))
      then ms @ [next_message st bs ty] else ms)"
    "sequence (control st') = (if push_fits st h t (unat (of_nat (length bs) :: u32))
      then sequence (control st) + 1 else sequence (control st))"
    "length (ring st') = length (ring st)" "t' \<le> t + 2 ^ 34"
    unfolding s by blast
  then show ?thesis
    by (intro that [of "push_fits st h t (unat (of_nat (length bs) :: u32))" st' t']) simp_all
qed

lemma pop_op:
  assumes "ring_inv st h t ms"
  obtains st' h' where
    "run_op push pop Pop st =
       Some (Inr (Popped (case ms of [] \<Rightarrow> None | x # xs \<Rightarrow> Some x), st'))"
    "ring_inv st' h' t (tl ms)"
    "sequence (control st') = sequence (control st)" "length (ring st') = length (ring st)"
proof (cases ms)
  case Nil
  with assms pop_empty_law [of st h t fresh_out] that show ?thesis by auto
next
  case (Cons x xs)
  with assms pop_first_law [of st h t x xs fresh_out] that show ?thesis by auto
qed

text \<open>Every run of operations refines the FIFO queue, and none of them faults or fails to return.\<close>

lemma run_ops_fifo:
  assumes "ring_inv st h t ms"
    and "list_all op_small ops"
    and "length (ring st) dvd 2 ^ 64 \<or> t + length ops * 2 ^ 34 \<le> 2 ^ 64"
  shows "\<exists>rs st' h' t' ms'. run_ops push pop ops st = Some (Inr (rs, st')) \<and>
    ring_inv st' h' t' ms' \<and> length (ring st') = length (ring st) \<and> t' \<le> t + length ops * 2 ^ 34 \<and>
    fifo_accepts ms (sequence (control st)) ops rs = Some (ms', sequence (control st'))"
  using assms
proof (induction ops arbitrary: st h t ms)
  case Nil
  then show ?case by auto
next
  case (Cons op ops)
  have head: "counter_headroom (length (ring st)) t"
    using Cons.prems(3) by (auto simp: counter_headroom_def)
  have small: "list_all op_small ops" using Cons.prems(2) by simp
  show ?case
  proof (cases op)
    case (Push bs ty)
    then have len: "length bs < 2 ^ 32" using Cons.prems(2) by simp
    obtain ok st' t' where s: "run_op push pop op st = Some (Inr (Pushed ok, st'))"
      "ring_inv st' h t' (if ok then ms @ [next_message st bs ty] else ms)"
      "sequence (control st') = (if ok then sequence (control st) + 1 else sequence (control st))"
      "length (ring st') = length (ring st)" "t' \<le> t + 2 ^ 34"
      using push_op [OF Cons.prems(1) len head] Push by blast
    have "length (ring st') dvd 2 ^ 64 \<or> t' + length ops * 2 ^ 34 \<le> 2 ^ 64"
      using Cons.prems(3) s(4,5) by auto
    from Cons.IH [OF s(2) small this]
    obtain rs st'' h'' t'' ms' where "run_ops push pop ops st' = Some (Inr (rs, st''))"
      "ring_inv st'' h'' t'' ms'" "length (ring st'') = length (ring st')"
      "t'' \<le> t' + length ops * 2 ^ 34"
      "fifo_accepts (if ok then ms @ [next_message st bs ty] else ms) (sequence (control st')) ops rs =
        Some (ms', sequence (control st''))"
      by blast
    moreover from this(4) s(5) have "t'' \<le> t + length (op # ops) * 2 ^ 34" by simp
    ultimately show ?thesis
      using s Push
      by - (rule exI [of _ "Pushed ok # rs"], rule exI [of _ st''], rule exI [of _ h''],
        rule exI [of _ t''], rule exI [of _ ms'], cases ok, simp_all add: next_message_def)
  next
    case Pop
    obtain st' h' where s: "run_op push pop op st =
        Some (Inr (Popped (case ms of [] \<Rightarrow> None | x # xs \<Rightarrow> Some x), st'))"
      "ring_inv st' h' t (tl ms)"
      "sequence (control st') = sequence (control st)" "length (ring st') = length (ring st)"
      using pop_op [OF Cons.prems(1)] Pop by metis
    have "length (ring st') dvd 2 ^ 64 \<or> t + length ops * 2 ^ 34 \<le> 2 ^ 64"
      using Cons.prems(3) s(4) by auto
    from Cons.IH [OF s(2) small this]
    obtain rs st'' h'' t'' ms' where "run_ops push pop ops st' = Some (Inr (rs, st''))"
      "ring_inv st'' h'' t'' ms'" "length (ring st'') = length (ring st')"
      "t'' \<le> t + length ops * 2 ^ 34"
      "fifo_accepts (tl ms) (sequence (control st')) ops rs = Some (ms', sequence (control st''))"
      by blast
    moreover from this(4) have "t'' \<le> t + length (op # ops) * 2 ^ 34" by simp
    ultimately show ?thesis
      using s Pop
      by - (rule exI [of _ "Popped (case ms of [] \<Rightarrow> None | x # xs \<Rightarrow> Some x) # rs"],
        rule exI [of _ st''], rule exI [of _ h''], rule exI [of _ t''], rule exI [of _ ms'],
        cases ms, simp_all)
  qed
qed

end

text \<open>Running two lists of operations one after the other is accepted as running the joined list.\<close>

lemma fifo_accepts_append:
  "fifo_accepts q s ops rs = Some (q', s') \<Longrightarrow>
     fifo_accepts q s (ops @ ops') (rs @ rs') = fifo_accepts q' s' ops' rs'"
  by (induction q s ops rs rule: fifo_accepts.induct) (auto split: list.splits if_splits)

text \<open>A ring as \<open>create_mapping\<close> leaves it: zeroed bytes, all counters zero.\<close>

definition empty_ring :: "nat \<Rightarrow> ring_state" where
  "empty_ring c =
     \<lparr>control = \<lparr>head_reserve = 0, head_publish = 0, tail_reserve = 0, tail_publish = 0, sequence = 0\<rparr>,
      ring = replicate c 0, capacity = of_nat c\<rparr>"

lemma empty_ring_inv: "0 < c \<Longrightarrow> c < 2 ^ 63 \<Longrightarrow> ring_inv (empty_ring c) 0 0 []"
  by (simp add: empty_ring_def ring_inv_def ring_geometry_def counter_ok_def seg_nil)

end
