(* ===== verification/Ring_Writer.thy ===== *)
theory Ring_Writer
  imports Ring_Interface
begin

text \<open>
  The producer of the MPSC and MPMC rings, \<open>detail::try_push\<close> of
  \<open>include/lf_ring/ring_writer.hpp\<close>, run by one thread with nobody else touching the ring: the
  reservation loop, the copy of the record, the wait for earlier producers and the publication.
  (The interleaving of several producers is the subject of the concurrent model.)

  \<open>compare_exchange_weak\<close> may fail spuriously; the number of such failures is a parameter of the
  operation. A pointer argument is \<open>None\<close> when it is null and otherwise the readable bytes behind it.

  The theorems: on a ring that holds the messages \<open>ms\<close> the call never faults, always returns, and
  either refuses and changes nothing, exactly when the record with its padding does not fit, or
  appends one message with the next sequence number.
\<close>

section \<open>The operation\<close>

text \<open>One turn of the reservation loop; \<open>fails\<close> counts the spurious failures still to come.\<close>

definition reserve_body ::
  "u64 \<Rightarrow> nat \<times> ring_state \<Rightarrow> ((nat \<times> ring_state) + ((u64 \<times> u64 \<times> bool) option \<times> ring_state)) exec"
where
  "reserve_body record_sz = (\<lambda>(fails, st).
     let head = head_publish (control st);
         tail = tail_reserve (control st);
         used = tail - head
     in if used > capacity st then Inr (Inr (None, st))
        else if capacity st = 0 then Inl DivideByZero
        else let pos = tail mod capacity st;
                 remaining = capacity st - pos;
                 (padding, needs_wrap_record) =
                   (if remaining < sizeof_RecordHeader then (remaining, False)
                    else if remaining < record_sz then (remaining, True)
                    else (0, False));
                 total = padding + record_sz
             in if used + total > capacity st then Inr (Inr (None, st))
                else case fails of
                    Suc n \<Rightarrow> Inr (Inl (n, st))
                  | 0 \<Rightarrow> Inr (Inr (Some (tail, padding, needs_wrap_record),
                           st\<lparr>control := (control st)\<lparr>tail_reserve := tail + total\<rparr>\<rparr>)))"

text \<open>The wrap record, the record header and the payload; returns the record's offset too.\<close>

definition write_record ::
  "memory \<Rightarrow> u64 \<Rightarrow> u64 \<Rightarrow> u64 \<Rightarrow> bool \<Rightarrow> byte list option \<Rightarrow> u32 \<Rightarrow> u16 \<Rightarrow> (u64 \<times> memory) exec"
where
  "write_record m cap start padding needs_wrap_record data sz ty =
     (if cap = 0 then Inl DivideByZero
      else let pos = start mod cap
      in bindE (if padding > 0 then
                  bindE (if needs_wrap_record \<and> padding \<ge> sizeof_RecordHeader
                         then store_RecordHeader m pos wrap_header else Inr m) (\<lambda>m. Inr (0, m))
                else Inr (pos, m)) (\<lambda>(pos, m).
         bindE (store_RecordHeader m pos
                  \<lparr>rh_size = sz, rh_type = ty, rh_flags = 0, rh_sequence = 0\<rparr>) (\<lambda>m.
         bindE (copy_payload m pos data sz) (\<lambda>m. Inr (pos, m)))))"

text \<open>Wait for earlier producers, number the record, publish it.\<close>

definition publish_record :: "ring_state \<Rightarrow> u64 \<Rightarrow> u64 \<Rightarrow> u64 \<Rightarrow> (bool \<times> ring_state) exec option" where
  "publish_record st pos publish_at publish_to =
     bindL (spin_until (tail_publish (control st) = publish_at)) (\<lambda>_.
       let seq = sequence (control st);
           c = (control st)\<lparr>sequence := seq + 1\<rparr>
       in Some (bindE (store_rh_sequence (ring st) pos (seq + 1)) (\<lambda>m.
            Inr (True, st\<lparr>ring := m, control := c\<lparr>tail_publish := publish_to\<rparr>\<rparr>))))"

definition try_push ::
  "nat \<Rightarrow> ring_state \<Rightarrow> byte list option \<Rightarrow> u32 \<Rightarrow> u16 \<Rightarrow> (bool \<times> ring_state) exec option"
where
  "try_push fails st data sz ty =
     (if data = None \<and> sz \<noteq> 0 then Some (Inr (False, st))
      else let record_sz = record_size sz
      in if record_sz > capacity st then Some (Inr (False, st))
      else bindL (run_loop (reserve_body record_sz) (fails, st)) (\<lambda>(r, st).
        case r of
          None \<Rightarrow> Some (Inr (False, st))
        | Some (start, padding, needs_wrap_record) \<Rightarrow>
            (case write_record (ring st) (capacity st) start padding needs_wrap_record data sz ty of
               Inl f \<Rightarrow> Some (Inl f)
             | Inr (pos, m) \<Rightarrow>
                 publish_record (st\<lparr>ring := m\<rparr>) pos start (start + padding + record_sz))))"

section \<open>Correctness\<close>

lemma reserve_body_inv:
  assumes geo: "ring_geometry st h t" and fit: "rec_len (unat sz) \<le> length (ring st)"
  shows "reserve_body (record_size sz) (fails, st) =
    (if push_fits st h t (unat sz) then
       (case fails of
          Suc k \<Rightarrow> Inr (Inl (k, st))
        | 0 \<Rightarrow> Inr (Inr (Some (of_nat t, of_nat (pad_len (length (ring st)) t (unat sz)),
              16 \<le> room (length (ring st)) t \<and> room (length (ring st)) t < rec_len (unat sz)),
            st\<lparr>control := (control st)\<lparr>tail_reserve := of_nat (t + push_len (length (ring st)) t (unat sz))\<rparr>\<rparr>)))
     else Inr (Inr (None, st)))"
proof -
  let ?C = "length (ring st)" and ?n = "unat sz"
  note G = ring_geometryD [OF geo]
  note W = tail_words [OF geo]
  have r: "room ?C t \<le> ?C" "rec_len ?n < 2 ^ 33" "16 \<le> rec_len ?n"
    using room_le rec_len_lt by auto
  then have "room ?C t < 16 \<Longrightarrow> room ?C t < rec_len ?n" by linarith
  then have pad: "(if (of_nat (room ?C t) :: u64) < sizeof_RecordHeader then (of_nat (room ?C t), False)
        else if of_nat (room ?C t) < record_size sz then (of_nat (room ?C t), True) else (0, False)) =
      (of_nat (pad_len ?C t ?n) :: u64, 16 \<le> room ?C t \<and> room ?C t < rec_len ?n)"
    unfolding sizeof_values W(4,5) pad_len_def by auto
  have gt: "capacity st < of_nat (t - h) + of_nat (push_len ?C t ?n) \<longleftrightarrow>
      \<not> t - h + push_len ?C t ?n \<le> ?C"
    using W(8) [of "t - h + push_len ?C t ?n"] G(2,7) r
    by (simp add: push_len_def pad_len_def not_le)
  have tot: "(of_nat (pad_len ?C t ?n) + record_size sz :: u64) = of_nat (push_len ?C t ?n)"
    by (simp add: record_size_of_nat push_len_def)
  show ?thesis
    unfolding reserve_body_def Let_def case_prod_conv G(4,5) W(1-3) pad tot gt
    using W(7) capacity_nonzero [OF geo] fit by (simp add: push_fits_def split: nat.split)
qed

lemma reserve_loop_inv:
  assumes "ring_geometry st h t" "rec_len (unat sz) \<le> length (ring st)"
  shows "run_loop (reserve_body (record_size sz)) (fails, st) = Some (Inr
    (if push_fits st h t (unat sz) then
       (Some (of_nat t, of_nat (pad_len (length (ring st)) t (unat sz)),
          16 \<le> room (length (ring st)) t \<and> room (length (ring st)) t < rec_len (unat sz)),
        st\<lparr>control := (control st)\<lparr>tail_reserve := of_nat (t + push_len (length (ring st)) t (unat sz))\<rparr>\<rparr>)
     else (None, st)))"
proof (induction fails)
  case 0
  show ?case
    by (rule run_loop_exit) (simp add: reserve_body_inv [OF assms])
next
  case (Suc k)
  show ?case
  proof (cases "push_fits st h t (unat sz)")
    case True
    then have "reserve_body (record_size sz) (Suc k, st) = Inr (Inl (k, st))"
      by (simp add: reserve_body_inv [OF assms])
    with Suc.IH show ?thesis
      by (simp add: run_loop_continue [where body = "reserve_body (record_size sz)" and s = "(Suc k, st)"])
  next
    case False
    then show ?thesis
      by (intro run_loop_exit) (simp add: reserve_body_inv [OF assms])
  qed
qed

lemma write_body_ok:
  assumes "readable data sz" "unat pos + 16 + unat sz \<le> length m"
  shows "bindE (store_RecordHeader m pos h) (\<lambda>m. bindE (copy_payload m pos data sz) (\<lambda>m. Inr (pos, m))) =
    Inr (pos, mem_write m (unat pos) (header_bytes h @ source_bytes data sz))"
  using assms length_source_bytes [OF assms(1)]
    mem_write_append [of "unat pos" "header_bytes h" "source_bytes data sz" m]
  by (simp add: exec_simps copy_payload_ok)

lemma write_record_inv:
  assumes geo: "ring_geometry st h t" and fits: "push_fits st h t (unat sz)" and "readable data sz"
  defines "c \<equiv> length (ring st)" and "pad \<equiv> pad_len (length (ring st)) t (unat sz)"
  shows "write_record (ring st) (capacity st) (of_nat t) (of_nat pad)
      (16 \<le> room c t \<and> room c t < rec_len (unat sz)) data sz ty =
    Inr (of_nat ((t + pad) mod c),
      pushed_memory (ring st) t \<lparr>payload = source_bytes data sz, msg_type = ty, msg_sequence = 0\<rparr>)"
proof -
  let ?n = "unat sz"
  note G = ring_geometryD [OF geo]
  note P = pos_word [OF G(1,2,3,8)]
  have c: "0 < c" "c < 2 ^ 64" using G by (simp_all add: c_def)
  have c0: "capacity st \<noteq> 0" using geo by (rule capacity_nonzero)
  have rl: "rec_len ?n \<le> c" using fits by (simp add: push_fits_def c_def)
  have place: "(t + pad) mod c + 16 + ?n \<le> c"
    using pushed_place [OF c(1) rl, of t] rec_len_bounds(1) [of ?n] add_le_room [OF c(1)]
    by (simp add: pad_def c_def add.assoc)
  have unat_q: "unat (of_nat ((t + pad) mod c) :: u64) = (t + pad) mod c"
    using c mod_less_divisor [OF c(1), of "t + pad"] by (intro unat_of_nat_small) linarith
  have unat_t: "unat (of_nat (t mod c) :: u64) = t mod c"
    using c mod_less_divisor [OF c(1), of t] by (intro unat_of_nat_small) linarith
  have body: "bindE (store_RecordHeader m (of_nat ((t + pad) mod c)) hd) (\<lambda>m.
      bindE (copy_payload m (of_nat ((t + pad) mod c)) data sz) (\<lambda>m. Inr (of_nat ((t + pad) mod c) :: u64, m))) =
    Inr (of_nat ((t + pad) mod c), mem_write m ((t + pad) mod c) (header_bytes hd @ source_bytes data sz))"
    if "length m = c" for m hd
    using write_body_ok [OF assms(3), of "of_nat ((t + pad) mod c)" m hd] place that by (simp add: unat_q)
  have pm: "pushed_memory (ring st) t \<lparr>payload = source_bytes data sz, msg_type = ty, msg_sequence = 0\<rparr> =
      mem_write (if 16 \<le> room c t \<and> room c t < rec_len ?n
        then mem_write (ring st) (t mod c) (header_bytes wrap_header) else ring st)
        ((t + pad) mod c) (header_bytes \<lparr>rh_size = sz, rh_type = ty, rh_flags = 0, rh_sequence = 0\<rparr> @
          source_bytes data sz)"
    using length_source_bytes [OF assms(3)] by (simp add: pushed_memory_def Let_def c_def pad_def)
  have pos0: "(of_nat pad :: u64) > 0 \<longleftrightarrow> 0 < pad"
    using of_nat_less_word(1) [of 0 pad] room_le [of c t] c by (simp add: pad_def pad_len_def c_def)
  have le16: "16 \<le> room c t \<Longrightarrow> (16 :: u64) \<le> of_nat (room c t)"
    using of_nat_less_word(2) [of 16 "room c t"] room_le [of c t] c by simp
  show ?thesis
    using c(1) rl
  proof (cases rule: pad_cases [where t = t])
    case fits
    then show ?thesis
      using c0 body [of "ring st"] P(1)
      by (simp add: write_record_def pm pad_def c_def)
  next
    case short
    then show ?thesis
      using c0 body [of "ring st"] P(1) room_pos [OF c(1), of t] pos0
      by (simp add: write_record_def pm pad_def c_def)
  next
    case wrap
    moreover have "t mod c + 16 \<le> c" using wrap(2) add_le_room [OF c(1)] by simp
    ultimately show ?thesis
      using c0 body [of "mem_write (ring st) (t mod c) (header_bytes wrap_header)"] P(1)
        room_pos [OF c(1), of t] pos0 le16 unat_t
      by (simp add: write_record_def pm pad_def c_def exec_simps)
  qed
qed

lemma try_push_eq:
  assumes inv: "ring_inv st h t ms" and rd: "readable data sz"
  shows "try_push fails st data sz ty =
    Some (Inr (if push_fits st h t (unat sz)
      then (True, pushed_state st t (next_message st (source_bytes data sz) ty)) else (False, st)))"
proof -
  let ?C = "length (ring st)" and ?n = "unat sz"
  note geo = ring_invD(1) [OF inv]
  note G = ring_geometryD [OF geo]
  have nn: "\<not> (data = None \<and> sz \<noteq> 0)" using rd by (auto simp: readable_def split: option.splits)
  have big: "record_size sz > capacity st \<longleftrightarrow> \<not> rec_len ?n \<le> ?C"
    using unat_capacity [OF geo] by (simp add: word_less_nat_alt unat_record_size not_le)
  show ?thesis
  proof (cases "push_fits st h t ?n")
    case False
    show ?thesis
    proof (cases "rec_len ?n \<le> ?C")
      case True
      with False nn big reserve_loop_inv [OF geo True, of fails] show ?thesis
        by (simp add: try_push_def Let_def)
    qed (use False nn big in \<open>simp add: try_push_def Let_def\<close>)
  next
    case True
    then have r: "rec_len ?n \<le> ?C" by (simp add: push_fits_def)
    have len: "length (source_bytes data sz) = ?n" using rd by (rule length_source_bytes)
    note W = write_record_inv [OF geo True rd, of ty]
    note S = store_sequence_pushed [OF G(1,2), of "\<lparr>payload = source_bytes data sz, msg_type = ty, msg_sequence = 0\<rparr>" t
        "sequence (control st) + 1"]
    have total: "(of_nat t + of_nat (pad_len ?C t ?n) + record_size sz :: u64) = of_nat (t + push_len ?C t ?n)"
      by (simp add: record_size_of_nat push_len_def add.assoc)
    show ?thesis
      using nn big r True reserve_loop_inv [OF geo r, of fails] W S len ring_invD(3) [OF inv] total
      by (simp add: try_push_def Let_def publish_record_def pushed_state_def next_message_def)
  qed
qed
text \<open>
  C6. On a ring at rest holding the messages \<open>ms\<close>, \<open>try_push\<close> with a readable source returns without a
  memory fault, whatever the spurious failures of its compare-and-swap. It accepts exactly when
  the record with its padding fits into the free bytes. An accepted push leaves a ring holding
  \<open>ms\<close> and then the payload with its type and the next sequence number; a refused push leaves the
  ring as it was.
\<close>

theorem try_push_appends_or_refuses:
  assumes "ring_inv st h t ms" "readable data sz" "counter_headroom (length (ring st)) t"
  shows "\<exists>st'. try_push fails st data sz ty = Some (Inr (push_fits st h t (unat sz), st')) \<and>
    (if push_fits st h t (unat sz)
     then ring_inv st' h (t + push_len (length (ring st)) t (unat sz))
            (ms @ [\<lparr>payload = source_bytes data sz, msg_type = ty,
                     msg_sequence = sequence (control st) + 1\<rparr>]) \<and>
          sequence (control st') = sequence (control st) + 1
     else st' = st)"
proof -
  let ?x = "next_message st (source_bytes data sz) ty"
  have "length (payload ?x) = unat sz"
    using length_source_bytes [OF assms(2)] by (simp add: next_message_def)
  from pushed_state_inv [OF assms(1) this _ assms(3)] show ?thesis
    using try_push_eq [OF assms(1,2), of fails ty]
    by (auto simp: next_message_def pushed_state_def Let_def)
qed

theorem try_push_appends_or_refuses_witness:
  "\<exists>st'. try_push 1 (empty_ring 64) (Some [7, 8, 9]) 3 5 = Some (Inr (True, st')) \<and>
     ring_inv st' 0 24 [\<lparr>payload = [7, 8, 9], msg_type = 5, msg_sequence = 1\<rparr>]"
proof -
  have inv: "ring_inv (empty_ring 64) 0 0 []" by (rule empty_ring_inv) simp_all
  have rd: "readable (Some [7, 8, 9]) 3" by (simp add: readable_def)
  have hr: "counter_headroom (length (ring (empty_ring 64))) 0"
    by (simp add: counter_headroom_def)
  have "push_fits (empty_ring 64) 0 0 3"
    "push_len (length (ring (empty_ring 64))) 0 3 = 24"
    by (simp_all add: push_fits_def push_len_def pad_len_def rec_len_def room_def empty_ring_def)
  moreover have "sequence (control (empty_ring 64)) = 0" by (simp add: empty_ring_def)
  ultimately show ?thesis
    using try_push_appends_or_refuses [OF inv rd hr, of 1 5] by (auto simp: source_bytes_def)
qed

text \<open>
  A null data pointer with a non-zero size is refused before the ring is touched.
\<close>

theorem try_push_null_refused:
  "sz \<noteq> 0 \<Longrightarrow> try_push fails st None sz ty = Some (Inr (False, st))"
  by (simp add: try_push_def)

theorem try_push_null_refused_witness:
  "(4 :: u32) \<noteq> 0 \<and> try_push 0 (empty_ring 64) None 4 1 = Some (Inr (False, empty_ring 64))"
  using try_push_null_refused [of 4 0 "empty_ring 64" 1] by simp

text \<open>
  On an empty ring every record of at most half the capacity is accepted, wherever the
  positions stand.
\<close>

theorem try_push_empty_accepts_half:
  assumes "ring_inv st t t []" "readable data sz" "2 * rec_len (unat sz) \<le> length (ring st)"
  shows "\<exists>st'. try_push fails st data sz ty = Some (Inr (True, st'))"
proof -
  have "pad_len (length (ring st)) t (unat sz) \<le> rec_len (unat sz)"
    by (simp add: pad_len_def)
  then have "push_fits st t t (unat sz)"
    using assms(3) by (simp add: push_fits_def push_len_def)
  then show ?thesis
    using try_push_eq [OF assms(1,2)] by simp
qed

theorem try_push_empty_accepts_half_witness:
  "\<exists>st'. try_push 0 (empty_ring 64) (Some [1]) 1 2 = Some (Inr (True, st'))"
proof (rule try_push_empty_accepts_half)
  show "ring_inv (empty_ring 64) 0 0 []" by (rule empty_ring_inv) simp_all
qed (simp_all add: readable_def rec_len_def empty_ring_def)

text \<open>
  C34. A record that fits the capacity can still be refused by an empty ring, and then by every
  later attempt, since the refusal changes nothing: when the bytes up to the end of the ring are
  too few for it and, added to it, exceed the capacity.
\<close>

theorem try_push_empty_can_refuse:
  assumes "ring_inv st t t []" "readable data sz"
    and "room (length (ring st)) t < rec_len (unat sz)"
    and "length (ring st) < room (length (ring st)) t + rec_len (unat sz)"
  shows "try_push fails st data sz ty = Some (Inr (False, st))"
proof -
  have "\<not> push_fits st t t (unat sz)"
    using assms(3,4) by (simp add: push_fits_def push_len_def pad_len_def)
  then show ?thesis
    using try_push_eq [OF assms(1,2)] by simp
qed

text \<open>An empty ring of 64 bytes whose positions have reached 40.\<close>

definition ring_at_40 :: ring_state where
  "ring_at_40 = (empty_ring 64)\<lparr>control := \<lparr>head_reserve = 40, head_publish = 40, tail_reserve = 40,
     tail_publish = 40, sequence = 1\<rparr>\<rparr>"

theorem try_push_empty_can_refuse_witness:
  "rec_len 40 \<le> length (ring ring_at_40) \<and>
   try_push 0 ring_at_40 (Some (replicate 40 1)) 40 2 = Some (Inr (False, ring_at_40))"
proof
  show "rec_len 40 \<le> length (ring ring_at_40)"
    by (simp add: rec_len_def ring_at_40_def empty_ring_def)
  show "try_push 0 ring_at_40 (Some (replicate 40 1)) 40 2 = Some (Inr (False, ring_at_40))"
  proof (rule try_push_empty_can_refuse)
    show "ring_inv ring_at_40 40 40 []"
      by (simp add: ring_inv_def ring_geometry_def ring_at_40_def empty_ring_def counter_ok_def seg_nil)
  qed (simp_all add: readable_def rec_len_def room_def ring_at_40_def empty_ring_def)
qed

text \<open>
  C35. A producer that reserved space and never published it (its process died) blocks every later
  push that finds room: the wait for \<open>tail_publish\<close> never ends.
\<close>

theorem try_push_blocked_by_dead_producer:
  assumes "ring_geometry st h t" "readable data sz" "push_fits st h t (unat sz)"
    and "tail_publish (control st) \<noteq> of_nat t"
  shows "try_push fails st data sz ty = None"
proof -
  have r: "rec_len (unat sz) \<le> length (ring st)" using assms(3) by (simp add: push_fits_def)
  have nn: "\<not> (data = None \<and> sz \<noteq> 0)" using assms(2) by (auto simp: readable_def split: option.splits)
  have "\<not> record_size sz > capacity st"
    using r unat_capacity [OF assms(1)] by (simp add: word_less_nat_alt unat_record_size)
  with nn r assms(3,4) reserve_loop_inv [OF assms(1) r, of fails] write_record_inv [OF assms(1,3,2), of ty]
  show ?thesis
    by (simp add: try_push_def Let_def publish_record_def)
qed

text \<open>A ring of 64 bytes in which the first 24 bytes are reserved and not published.\<close>

definition ring_with_dead_producer :: ring_state where
  "ring_with_dead_producer = (empty_ring 64)\<lparr>control := \<lparr>head_reserve = 0, head_publish = 0,
     tail_reserve = 24, tail_publish = 0, sequence = 0\<rparr>\<rparr>"

theorem try_push_blocked_by_dead_producer_witness:
  "try_push 0 ring_with_dead_producer (Some [1, 2]) 2 3 = None"
proof (rule try_push_blocked_by_dead_producer)
  show "ring_geometry ring_with_dead_producer 0 24"
    by (simp add: ring_geometry_def ring_with_dead_producer_def empty_ring_def counter_ok_def)
qed (simp_all add: readable_def push_fits_def push_len_def pad_len_def rec_len_def room_def
    ring_with_dead_producer_def empty_ring_def)

end
