(* ===== verification/Shared_Ring_Buffer.thy ===== *)
theory Shared_Ring_Buffer
  imports Ring_Writer Ring_Interface
begin

text \<open>
  \<open>SharedRingBuffer\<close>, the multi-producer single-consumer ring of
  \<open>src/shared_ring_buffer.cpp\<close>: its producer side is \<open>detail::try_push\<close>, its consumer side the
  loop of \<open>try_pop_internal\<close>.
\<close>

unbundle bit_operations_syntax

section \<open>Operations\<close>

text \<open>The stores of \<open>head_publish\<close> and then \<open>head_reserve\<close> that end a turn of the consumer.\<close>

definition store_head :: "ring_state \<Rightarrow> u64 \<Rightarrow> ring_state" where
  "store_head st head =
     (let st1 = st\<lparr>control := (control st)\<lparr>head_publish := head\<rparr>\<rparr>
      in st1\<lparr>control := (control st1)\<lparr>head_reserve := head\<rparr>\<rparr>)"

definition try_pop_body ::
  "pop_out \<Rightarrow> ring_state \<Rightarrow> (ring_state + (bool \<times> pop_out \<times> ring_state)) exec"
where
  "try_pop_body p st =
     (let tail = tail_publish (control st);
          head = head_publish (control st)
      in if head = tail then Inr (Inr (False, p, st))
         else if capacity st = 0 then Inl DivideByZero
         else let pos = head mod capacity st;
                  remaining = capacity st - pos
              in if remaining < sizeof_RecordHeader then
                   Inr (Inl (store_head st (head + remaining)))
                 else bindE (load_rh_flags (ring st) pos) (\<lambda>flags.
                   if flags AND kWrapFlag \<noteq> 0 then Inr (Inl (store_head st (head + remaining)))
                   else bindE (load_rh_size (ring st) pos) (\<lambda>payload_size.
                     let record_sz = record_size payload_size
                     in if record_sz > remaining then Inr (Inr (False, p, st))
                        else if tail - head < record_sz then Inr (Inr (False, p, st))
                        else bindE (copy_out (ring st) pos payload_size (out p)) (\<lambda>v.
                          bindE (load_rh_type (ring st) pos) (\<lambda>ty.
                          bindE (case out_sequence p of
                                   None \<Rightarrow> Inr None
                                 | Some _ \<Rightarrow> bindE (load_rh_sequence (ring st) pos) (\<lambda>s. Inr (Some s))) (\<lambda>s.
                          Inr (Inr (True, \<lparr>out = v, out_type = ty, out_sequence = s\<rparr>,
                            store_head st (head + record_sz)))))))))"

definition SharedRingBuffer_try_push ::
  "nat \<Rightarrow> ring_state \<Rightarrow> byte list option \<Rightarrow> u32 \<Rightarrow> u16 \<Rightarrow> (bool \<times> ring_state) exec option" where
  "SharedRingBuffer_try_push fails st data sz ty = try_push fails st data sz ty"

definition try_pop_internal :: "ring_state \<Rightarrow> pop_out \<Rightarrow> (bool \<times> pop_out \<times> ring_state) exec option" where
  "try_pop_internal st p = run_loop (try_pop_body p) st"

definition approx_size :: "ring_state \<Rightarrow> u64" where
  "approx_size st =
     (let head = head_publish (control st);
          tail = tail_publish (control st);
          used = tail - head
      in if used > capacity st then capacity st else used)"

section \<open>The consumer meets its contract\<close>

lemma store_head_moved: "store_head st (of_nat h) = moved st h"
  by (simp add: store_head_def moved_def)

lemma load_sequence_delivered:
  assumes "unat pos + 16 \<le> length m" "rec_at m (unat pos) x"
  shows "(case out_sequence p of None \<Rightarrow> Inr None
      | Some _ \<Rightarrow> bindE (load_rh_sequence m pos) (\<lambda>s. Inr (Some s))) =
    Inr (map_option (\<lambda>_. msg_sequence x) (out_sequence p))"
  using assms by (auto simp: exec_simps rec_at_def split: option.splits)

lemma try_pop_body_skip:
  assumes inv: "ring_inv st h t ms" and ne: "h \<noteq> t"
    and skip: "room (length (ring st)) h < 16 \<or> wrap_at (ring st) (h mod length (ring st))"
  shows "try_pop_body p st = Inr (Inl (moved st (h + room (length (ring st)) h))) \<and>
    ring_inv (moved st (h + room (length (ring st)) h)) (h + room (length (ring st)) h) t ms"
proof -
  let ?c = "length (ring st)"
  note W = head_words [OF inv]
  note G = ring_geometryD [OF ring_invD(1) [OF inv]]
  have c0: "capacity st \<noteq> 0" by (rule capacity_nonzero [OF ring_invD(1) [OF inv]])
  have pub: "head_publish (control st) = of_nat h" "tail_publish (control st) = of_nat t"
    using G(4) ring_invD(3) [OF inv] by auto
  have mv: "store_head st (of_nat h + of_nat (room ?c h)) = moved st (h + room ?c h)"
    using store_head_moved [of st "h + room ?c h"] by simp
  show ?thesis
  proof (cases "room ?c h < 16")
    case True
    have "ring_seg (ring st) (h + room ?c h) t ms"
      using ring_invD(4) [OF inv] ne True by (rule seg_short_next)
    then have "ring_inv (moved st (h + room ?c h)) (h + room ?c h) t ms"
      using inv by (intro moved_inv) auto
    then show ?thesis
      using ne c0 True by (simp add: try_pop_body_def Let_def pub W mv)
  next
    case False
    then have w: "wrap_at (ring st) (h mod ?c)" and r: "16 \<le> room ?c h" using skip by auto
    have "ring_seg (ring st) (h + room ?c h) t ms"
      using ring_invD(4) [OF inv] ne r w by (rule seg_wrap_next)
    then have "ring_inv (moved st (h + room ?c h)) (h + room ?c h) t ms"
      using inv by (intro moved_inv) auto
    moreover have "h mod ?c + 16 \<le> ?c" using r add_le_room [OF G(1)] by simp
    ultimately show ?thesis
      using ne c0 False w by (simp add: try_pop_body_def Let_def pub W mv exec_simps wrap_at_def)
  qed
qed

lemma try_pop_body_deliver:
  assumes inv: "ring_inv st h t ms" and ne: "h \<noteq> t"
    and rec: "16 \<le> room (length (ring st)) h" "\<not> wrap_at (ring st) (h mod length (ring st))"
  obtains x xs where "ms = x # xs"
    "try_pop_body p st =
       Inr (Inr (True, deliver p x, moved st (h + rec_len (length (payload x)))))"
    "ring_inv (moved st (h + rec_len (length (payload x)))) (h + rec_len (length (payload x))) t xs"
proof -
  let ?c = "length (ring st)"
  note W = head_words [OF inv]
  note G = ring_geometryD [OF ring_invD(1) [OF inv]]
  have c0: "capacity st \<noteq> 0" by (rule capacity_nonzero [OF ring_invD(1) [OF inv]])
  have pub: "head_publish (control st) = of_nat h" "tail_publish (control st) = of_nat t"
    using G(4) ring_invD(3) [OF inv] by auto
  obtain x xs where x: "head_record st h t ms x xs" using record_at_head [OF inv ne rec] by blast
  let ?n = "length (payload x)" and ?p = "of_nat (h mod ?c) :: u64"
  define sz where "sz = rh_size (header_at (ring st) (h mod ?c))"
  note R = head_recordD [OF x, folded sz_def]
  have mv: "store_head st (of_nat h + record_size sz) = moved st (h + rec_len ?n)"
    using store_head_moved [of st "h + rec_len ?n"] by (simp add: R(7))
  have co: "copy_out (ring st) ?p sz (out p) = Inr (payload x @ drop ?n (out p))"
    using copy_out_ok [of "ring st" ?p x "out p"] R(2,3) by (simp add: W(3) sz_def)
  have se: "(case out_sequence p of None \<Rightarrow> Inr None
      | Some _ \<Rightarrow> bindE (load_rh_sequence (ring st) ?p) (\<lambda>s. Inr (Some s))) =
    Inr (map_option (\<lambda>_. msg_sequence x) (out_sequence p))"
    using load_sequence_delivered [of ?p "ring st" x p] R(2,3) by (simp add: W(3))
  have "try_pop_body p st = Inr (Inr (True, deliver p x, moved st (h + rec_len ?n)))"
    using ne c0 rec(1) R(3,4,5,6,8)
    by (simp add: try_pop_body_def Let_def pub W load_rh_ok mv co se deliver_def sz_def [symmetric])
  moreover have "ring_inv (moved st (h + rec_len ?n)) (h + rec_len ?n) t xs"
    by (rule R(9))
  ultimately show ?thesis using that R(1) by blast
qed

interpretation mpsc: ring_consumer "\<lambda>p st. Some (try_pop_body p st)" "\<lambda>st. st" "\<lambda>_. 0"
proof
  fix st h t ms p
  assume inv: "ring_inv st h t ms"
  show "h = t \<Longrightarrow> Some (try_pop_body p st) = Some (Inr (Inr (False, p, st)))"
    using inv by (simp add: try_pop_body_def Let_def ring_inv_def ring_geometry_def)
  assume ne: "h \<noteq> t"
  let ?c = "length (ring st)"
  have pos: "0 < room ?c h" using inv by (simp add: ring_inv_def ring_geometry_def)
  consider "room ?c h < 16 \<or> wrap_at (ring st) (h mod ?c)"
    | "16 \<le> room ?c h" "\<not> wrap_at (ring st) (h mod ?c)" by linarith
  then show "(\<exists>s' h'. Some (try_pop_body p st) = Some (Inr (Inl s')) \<and> s' = moved st h' \<and>
        ring_inv s' h' t ms \<and> (0::nat) \<le> 0 \<and> h \<le> h' \<and> (h < h' \<or> (0::nat) < 0)) \<or>
      (\<exists>x xs h'. ms = x # xs \<and> h < h' \<and>
        Some (try_pop_body p st) = Some (Inr (Inr (True, deliver p x, moved st h'))) \<and>
        ring_inv (moved st h') h' t xs)"
  proof cases
    case 1
    with try_pop_body_skip [OF inv ne 1, of p] pos show ?thesis by auto
  next
    case 2
    obtain x xs where "ms = x # xs"
      "try_pop_body p st = Inr (Inr (True, deliver p x, moved st (h + rec_len (length (payload x)))))"
      "ring_inv (moved st (h + rec_len (length (payload x)))) (h + rec_len (length (payload x))) t xs"
      by (rule try_pop_body_deliver [OF inv ne 2])
    moreover have "h < h + rec_len (length (payload x))"
      using rec_len_ge [of "length (payload x)"] by linarith
    ultimately show ?thesis
      by (intro disjI2 exI [of _ x] exI [of _ xs] exI [of _ "h + rec_len (length (payload x))"]) auto
  qed
qed

section \<open>The ring is a FIFO queue\<close>

interpretation mpsc: byte_ring "SharedRingBuffer_try_push fails" try_pop_internal
proof
  fix st h t ms data sz ty
  assume inv: "ring_inv st h t ms" and rd: "readable data sz"
    and hr: "counter_headroom (length (ring st)) t"
  let ?x = "next_message st (source_bytes data sz) ty"
  note E = try_push_eq [OF inv rd, of fails ty]
  show "\<exists>st' t'. SharedRingBuffer_try_push fails st data sz ty =
        Some (Inr (push_fits st h t (unat sz), st')) \<and>
      ring_inv st' h t' (if push_fits st h t (unat sz) then ms @ [?x] else ms) \<and>
      sequence (control st') =
        (if push_fits st h t (unat sz) then sequence (control st) + 1 else sequence (control st)) \<and>
      length (ring st') = length (ring st) \<and> t' \<le> t + 2 ^ 34"
  proof (cases "push_fits st h t (unat sz)")
    case True
    with E push_accepted [OF inv rd True hr, of ty] show ?thesis
      by (auto simp: SharedRingBuffer_try_push_def)
  next
    case False
    with E inv show ?thesis by (auto simp: SharedRingBuffer_try_push_def)
  qed
next
  fix st h t p
  assume "ring_inv st h t []"
  from mpsc.pop_empty [OF this, of p]
  show "\<exists>st'. try_pop_internal st p = Some (Inr (False, p, st')) \<and> ring_inv st' t t [] \<and>
      sequence (control st') = sequence (control st) \<and> length (ring st') = length (ring st)"
    by (auto simp: try_pop_internal_def run_loop_def)
next
  fix st h t x xs p
  assume "ring_inv st h t (x # xs)"
  from mpsc.pop_first [OF this, of p]
  show "\<exists>st' h'. try_pop_internal st p = Some (Inr (True, deliver p x, st')) \<and> ring_inv st' h' t xs \<and>
      sequence (control st') = sequence (control st) \<and> length (ring st') = length (ring st)"
    by (auto simp: try_pop_internal_def run_loop_def)
qed

section \<open>Properties\<close>

text \<open>
  C5. Every sequence of pushes and pops on a fresh multi-producer ring of any capacity returns,
  without a fault, and its results are those of a FIFO queue that numbers its messages from one:
  accepted messages come out once, in order, with payload, type and sequence number intact, and a
  pop finds nothing only when the queue is empty. The number of operations is bounded only where
  the capacity does not divide the range of the counters.
\<close>

theorem mpsc_refines_fifo:
  assumes "0 < c" "c < 2 ^ 63" "list_all op_small ops"
    and "c dvd 2 ^ 64 \<or> length ops * 2 ^ 34 \<le> 2 ^ 64"
  shows "\<exists>rs st ms. run_ops (SharedRingBuffer_try_push fails) try_pop_internal ops (empty_ring c) = Some (Inr (rs, st)) \<and>
    fifo_accepts [] 0 ops rs = Some (ms, sequence (control st))"
proof -
  have "length (ring (empty_ring c)) = c" "sequence (control (empty_ring c)) = 0"
    by (simp_all add: empty_ring_def)
  with mpsc.run_ops_fifo [OF empty_ring_inv [OF assms(1,2)] assms(3), of fails] assms(4)
  show ?thesis by auto
qed

theorem mpsc_refines_fifo_witness:
  "\<exists>rs st ms. run_ops (SharedRingBuffer_try_push 2) try_pop_internal [Push [7, 8, 9] 5, Pop, Pop] (empty_ring 40) = Some (Inr (rs, st)) \<and>
    fifo_accepts [] 0 [Push [7, 8, 9] 5, Pop, Pop] rs = Some (ms, sequence (control st))"
  by (rule mpsc_refines_fifo) simp_all

text \<open>
  A pop from a ring that holds messages delivers the first one: its type, its sequence number
  if the caller asks for it, and its payload at the front of the caller's vector. The vector keeps
  whatever a longer earlier content has behind the payload: its length does not tell the length of
  the message.
\<close>

theorem try_pop_delivers_first:
  assumes "ring_inv st h t (x # xs)"
  shows "\<exists>st' h'. try_pop_internal st p =
      Some (Inr (True,
        \<lparr>out = payload x @ drop (length (payload x)) (out p), out_type = msg_type x,
         out_sequence = map_option (\<lambda>_. msg_sequence x) (out_sequence p)\<rparr>, st')) \<and>
    ring_inv st' h' t xs"
  using mpsc.pop_first_law [OF assms, of p] by (auto simp: deliver_def)

lemma pushed_message_inv:
  "\<exists>st t. try_push 0 (empty_ring 64) (Some [7]) 1 5 = Some (Inr (True, st)) \<and>
     ring_inv st 0 t [\<lparr>payload = [7], msg_type = 5, msg_sequence = 1\<rparr>]"
proof -
  have inv: "ring_inv (empty_ring 64) 0 0 []" by (rule empty_ring_inv) simp_all
  have rd: "readable (Some [7]) 1" by (simp add: readable_def)
  have hr: "counter_headroom (length (ring (empty_ring 64))) 0" by (simp add: counter_headroom_def)
  have fits: "push_fits (empty_ring 64) 0 0 (unat (1 :: u32))"
    by (simp add: push_fits_def push_len_def pad_len_def rec_len_def room_def empty_ring_def)
  have "next_message (empty_ring 64) (source_bytes (Some [7]) 1) 5 =
      \<lparr>payload = [7], msg_type = 5, msg_sequence = 1\<rparr>"
    by (simp add: next_message_def source_bytes_def empty_ring_def)
  with push_accepted [OF inv rd fits hr, of 5] try_push_eq [OF inv rd, of 0 5] fits show ?thesis
    by auto
qed

theorem try_pop_delivers_first_witness:
  "\<exists>st st'. try_push 0 (empty_ring 64) (Some [7]) 1 5 = Some (Inr (True, st)) \<and>
     try_pop_internal st \<lparr>out = [1, 2, 3], out_type = 0, out_sequence = None\<rparr> =
       Some (Inr (True, \<lparr>out = [7, 2, 3], out_type = 5, out_sequence = None\<rparr>, st'))"
proof -
  obtain st t where "try_push 0 (empty_ring 64) (Some [7]) 1 5 = Some (Inr (True, st))"
    and inv: "ring_inv st 0 t [\<lparr>payload = [7], msg_type = 5, msg_sequence = 1\<rparr>]"
    using pushed_message_inv by blast
  then show ?thesis
    using try_pop_delivers_first [OF inv, of "\<lparr>out = [1, 2, 3], out_type = 0, out_sequence = None\<rparr>"]
    by auto
qed

text \<open>
  \<open>approx_size\<close> never exceeds the capacity, in any state, and in a quiescent ring it is the
  number of bytes between the head and the tail.
\<close>

theorem approx_size_bounds:
  "approx_size st \<le> capacity st \<and> (ring_inv st h t ms \<longrightarrow> unat (approx_size st) = t - h)"
proof (intro conjI impI)
  show "approx_size st \<le> capacity st" by (auto simp: approx_size_def Let_def not_less)
  assume inv: "ring_inv st h t ms"
  note G = ring_geometryD [OF ring_invD(1) [OF inv]]
  have "unat (of_nat t - of_nat h :: u64) \<le> unat (capacity st)"
    using G(7) by (simp add: head_words(6) [OF inv] unat_capacity [OF ring_invD(1) [OF inv]])
  then show "unat (approx_size st) = t - h"
    using G ring_invD(3) [OF inv] head_words(6) [OF inv]
    by (simp add: approx_size_def Let_def word_less_nat_alt)
qed

theorem approx_size_bounds_witness:
  "unat (approx_size (empty_ring 64)) = 0 \<and> approx_size (empty_ring 64) \<le> 64"
proof -
  have "ring_inv (empty_ring 64) 0 0 []" by (rule empty_ring_inv) simp_all
  with approx_size_bounds [of "empty_ring 64" 0 0 "[]"] show ?thesis by (simp add: empty_ring_def)
qed

end
