(* ===== verification/Shared_Ring_Buffer_SPSC.thy ===== *)
theory Shared_Ring_Buffer_SPSC
  imports Shared_Ring_Buffer
begin

text \<open>
  \<open>SharedRingBufferSPSC\<close> of \<open>src/shared_ring_buffer_spsc.cpp\<close>: the byte ring with one producer and
  one consumer. Its producer publishes padding as a step of its own and then retries, so a refused
  push may still have moved the tail over the last bytes of the ring.
\<close>

unbundle bit_operations_syntax

section \<open>Operations\<close>

text \<open>The stores of \<open>tail_reserve\<close> and then \<open>tail_publish\<close>.\<close>

definition spsc_store_tail :: "ring_state \<Rightarrow> u64 \<Rightarrow> ring_state" where
  "spsc_store_tail st tail =
     (let st1 = st\<lparr>control := (control st)\<lparr>tail_reserve := tail\<rparr>\<rparr>
      in st1\<lparr>control := (control st1)\<lparr>tail_publish := tail\<rparr>\<rparr>)"

definition spsc_push_body ::
  "byte list option \<Rightarrow> u32 \<Rightarrow> u16 \<Rightarrow> ring_state \<Rightarrow> (ring_state + (bool \<times> ring_state)) exec"
where
  "spsc_push_body data sz ty st =
     (let record_sz = record_size sz;
          head = head_publish (control st);
          tail = tail_publish (control st);
          used = tail - head
      in if used > capacity st then Inr (Inr (False, st))
         else if capacity st = 0 then Inl DivideByZero
         else let pos = tail mod capacity st;
                  remaining = capacity st - pos
              in if remaining < sizeof_RecordHeader then
                   (if used + remaining > capacity st then Inr (Inr (False, st))
                    else Inr (Inl (spsc_store_tail st (tail + remaining))))
                 else if remaining < record_sz then
                   (let padding = remaining
                    in if used + padding + record_sz > capacity st then Inr (Inr (False, st))
                       else bindE (if padding \<ge> sizeof_RecordHeader
                                   then store_RecordHeader (ring st) pos wrap_header
                                   else Inr (ring st)) (\<lambda>m.
                         Inr (Inl (spsc_store_tail (st\<lparr>ring := m\<rparr>) (tail + padding)))))
                 else if used + record_sz > capacity st then Inr (Inr (False, st))
                 else bindE (store_RecordHeader (ring st) pos
                        \<lparr>rh_size = sz, rh_type = ty, rh_flags = 0, rh_sequence = 0\<rparr>) (\<lambda>m.
                      bindE (copy_payload m pos data sz) (\<lambda>m.
                      let seq = sequence (control st);
                          st1 = st\<lparr>control := (control st)\<lparr>sequence := seq + 1\<rparr>\<rparr>
                      in bindE (store_rh_sequence m pos (seq + 1)) (\<lambda>m.
                         Inr (Inr (True, spsc_store_tail (st1\<lparr>ring := m\<rparr>) (tail + record_sz)))))))"

definition spsc_try_push ::
  "ring_state \<Rightarrow> byte list option \<Rightarrow> u32 \<Rightarrow> u16 \<Rightarrow> (bool \<times> ring_state) exec option"
where
  "spsc_try_push st data sz ty =
     (if data = None \<and> sz \<noteq> 0 then Some (Inr (False, st))
      else let record_sz = record_size sz
      in if record_sz > capacity st then Some (Inr (False, st))
      else run_loop (spsc_push_body data sz ty) st)"

text \<open>The stores of \<open>head_reserve\<close> and then \<open>head_publish\<close>.\<close>

definition spsc_store_head :: "ring_state \<Rightarrow> u64 \<Rightarrow> ring_state" where
  "spsc_store_head st head =
     (let st1 = st\<lparr>control := (control st)\<lparr>head_reserve := head\<rparr>\<rparr>
      in st1\<lparr>control := (control st1)\<lparr>head_publish := head\<rparr>\<rparr>)"

definition spsc_try_pop_body ::
  "pop_out \<Rightarrow> ring_state \<Rightarrow> (ring_state + (bool \<times> pop_out \<times> ring_state)) exec"
where
  "spsc_try_pop_body p st =
     (let tail = tail_publish (control st);
          head = head_publish (control st)
      in if head = tail then Inr (Inr (False, p, st))
         else if capacity st = 0 then Inl DivideByZero
         else let pos = head mod capacity st;
                  remaining = capacity st - pos
              in if remaining < sizeof_RecordHeader then
                   Inr (Inl (spsc_store_head st (head + remaining)))
                 else bindE (load_rh_flags (ring st) pos) (\<lambda>flags.
                   if flags AND kWrapFlag \<noteq> 0 then Inr (Inl (spsc_store_head st (head + remaining)))
                   else bindE (load_rh_size (ring st) pos) (\<lambda>payload_size.
                     let record_sz = record_size payload_size
                     in if record_sz > remaining then Inr (Inr (False, p, st))
                        else if tail - head < record_sz then Inr (Inr (False, p, st))
                        else bindE (copy_out (ring st) pos payload_size (out p)) (\<lambda>v.
                          bindE (load_rh_type (ring st) pos) (\<lambda>ty.
                          bindE (case out_sequence p of
                                   None \<Rightarrow> Inr None
                                 | Some _ \<Rightarrow> bindE (load_rh_sequence (ring st) pos) (\<lambda>s. Inr (Some s))) (\<lambda>s.
                          Inr (Inr (True, \<lparr>out = v, out_type = ty, out_sequence = s\<rparr>,
                            spsc_store_head st (head + record_sz)))))))))"

definition spsc_try_pop_internal ::
  "ring_state \<Rightarrow> pop_out \<Rightarrow> (bool \<times> pop_out \<times> ring_state) exec option" where
  "spsc_try_pop_internal st p = run_loop (spsc_try_pop_body p) st"

definition spsc_approx_size :: "ring_state \<Rightarrow> u64" where
  "spsc_approx_size st =
     (let head = head_publish (control st);
          tail = tail_publish (control st);
          used = tail - head
      in if used > capacity st then capacity st else used)"

section \<open>The consumer\<close>

text \<open>With nobody in between, the order of the two stores does not matter.\<close>

lemma spsc_store_head_eq: "spsc_store_head = store_head"
  by (simp add: fun_eq_iff spsc_store_head_def store_head_def)

lemma spsc_try_pop_body_eq: "spsc_try_pop_body = try_pop_body"
  by (rule ext)+ (simp only: spsc_try_pop_body_def try_pop_body_def spsc_store_head_eq)

interpretation spsc: ring_consumer "\<lambda>p st. Some (spsc_try_pop_body p st)" "\<lambda>st. st" "\<lambda>_. 0"
  unfolding spsc_try_pop_body_eq by (rule mpsc.ring_consumer_axioms)

section \<open>The producer\<close>

definition tail_moved :: "ring_state \<Rightarrow> nat \<Rightarrow> ring_state" where
  "tail_moved st t =
     st\<lparr>control := (control st)\<lparr>tail_reserve := of_nat t, tail_publish := of_nat t\<rparr>\<rparr>"

lemma spsc_store_tail_moved: "spsc_store_tail st (of_nat t) = tail_moved st t"
  by (simp add: spsc_store_tail_def tail_moved_def)

lemma tail_moved_simps [simp]:
  "ring (tail_moved st t) = ring st" "capacity (tail_moved st t) = capacity st"
  "sequence (control (tail_moved st t)) = sequence (control st)"
  "tail_moved (st\<lparr>ring := m\<rparr>) t = (tail_moved st t)\<lparr>ring := m\<rparr>"
  by (simp_all add: tail_moved_def)

lemma tail_moved_inv:
  assumes "ring_inv st h t ms" "room (length (ring st)) t < 16"
    and "t - h + room (length (ring st)) t \<le> length (ring st)"
    and "counter_headroom (length (ring st)) t"
  shows "ring_inv (tail_moved st (t + room (length (ring st)) t)) h (t + room (length (ring st)) t) ms"
proof -
  let ?t = "t + room (length (ring st)) t"
  have "ring_seg (ring st) t ?t []"
    using assms(2) by (rule seg_short) (rule seg_nil)
  from seg_append [OF ring_invD(4) [OF assms(1)] this] have "ring_seg (ring st) h ?t ms" by simp
  moreover have "counter_ok (length (ring st)) ?t"
    using assms(2,4) by (auto simp: counter_headroom_def counter_ok_def)
  ultimately show ?thesis
    using assms(1,3) by (auto simp: ring_inv_def ring_geometry_def tail_moved_def)
qed

lemma wrap_published_inv:
  assumes "ring_inv st h t ms"
    and "16 \<le> room (length (ring st)) t" "room (length (ring st)) t < rec_len (unat (sz :: u32))"
    and "t - h + (room (length (ring st)) t + rec_len (unat sz)) \<le> length (ring st)"
    and "counter_headroom (length (ring st)) t"
  shows "ring_inv ((tail_moved st (t + room (length (ring st)) t))
      \<lparr>ring := mem_write (ring st) (t mod length (ring st)) (header_bytes wrap_header)\<rparr>)
    h (t + room (length (ring st)) t) ms"
proof -
  let ?c = "length (ring st)" and ?t = "t + room (length (ring st)) t"
  let ?m = "mem_write (ring st) (t mod length (ring st)) (header_bytes wrap_header)"
  note G = ring_geometryD [OF ring_invD(1) [OF assms(1)]]
  have b: "t mod ?c + 16 \<le> ?c" using assms(2) add_le_room [OF G(1)] by simp
  then have len: "length ?m = ?c" by simp
  have "wrap_at ?m (t mod ?c)"
    using b wrap_header_flags by (simp add: wrap_at_def)
  then have "ring_seg ?m t ?t []"
    using seg_wrap [of ?m t ?t "[]"] assms(2) seg_nil by (simp add: len)
  moreover have "ring_seg ?m h t ms"
    by (rule seg_write [OF ring_invD(4) [OF assms(1)]]) (use b assms(2,4) G in auto)
  ultimately have "ring_seg ?m h ?t ms"
    using seg_append by fastforce
  moreover have "counter_ok ?c ?t"
    using assms(3,5) rec_len_lt [of sz] by (auto simp: counter_headroom_def counter_ok_def)
  ultimately show ?thesis
    using assms(1,4) len by (auto simp: ring_inv_def ring_geometry_def tail_moved_def)
qed

text \<open>The three shapes of a turn of the producer loop.\<close>

lemma spsc_push_body_fits:
  assumes inv: "ring_inv st h t ms" and rd: "readable data sz"
    and fit: "rec_len (unat sz) \<le> room (length (ring st)) t"
  shows "spsc_push_body data sz ty st = Inr (Inr
    (if t - h + rec_len (unat sz) \<le> length (ring st)
     then (True, pushed_state st t (next_message st (source_bytes data sz) ty)) else (False, st)))"
proof -
  let ?c = "length (ring st)" and ?n = "unat sz" and ?p = "of_nat (t mod length (ring st)) :: u64"
  let ?x = "\<lparr>payload = source_bytes data sz, msg_type = ty, msg_sequence = 0\<rparr>"
  note geo = ring_invD(1) [OF inv]
  note G = ring_geometryD [OF geo]
  note W = tail_words [OF geo]
  have c0: "capacity st \<noteq> 0" by (rule capacity_nonzero [OF geo])
  have len: "length (source_bytes data sz) = ?n" using rd by (rule length_source_bytes)
  have place: "t mod ?c + 16 + ?n \<le> ?c"
    using fit rec_len_bounds(1) [of ?n] add_le_room [OF G(1), of "rec_len ?n" t] by linarith
  have pad: "pad_len ?c t ?n = 0" using fit by (simp add: pad_len_def)
  have r: "rec_len ?n \<le> ?c" using fit room_le [of ?c t] by linarith
  have no: "\<not> room ?c t < 16" "\<not> room ?c t < rec_len ?n"
    using fit rec_len_ge [of ?n] by linarith+
  have body: "bindE (store_RecordHeader (ring st) ?p \<lparr>rh_size = sz, rh_type = ty, rh_flags = 0, rh_sequence = 0\<rparr>)
      (\<lambda>m. bindE (copy_payload m ?p data sz) f) = f (pushed_memory (ring st) t ?x)" for f :: "memory \<Rightarrow> 'z exec"
    using place rd len no pad
      mem_write_append [of "t mod ?c" "header_bytes \<lparr>rh_size = sz, rh_type = ty, rh_flags = 0, rh_sequence = 0\<rparr>"
        "source_bytes data sz" "ring st"]
    by (simp add: exec_simps W(6) copy_payload_ok pushed_memory_def Let_def)
  have sq: "store_rh_sequence (pushed_memory (ring st) t ?x) ?p (sequence (control st) + 1) =
      Inr (pushed_memory (ring st) t (next_message st (source_bytes data sz) ty))"
    using store_sequence_pushed [OF G(1,2), of ?x t "sequence (control st) + 1"] r
    by (simp add: len pad next_message_def)
  have tl: "(of_nat t + record_size sz :: u64) = of_nat (t + rec_len ?n)"
    by (simp add: record_size_of_nat)
  have gt: "capacity st < of_nat (t - h) + record_size sz \<longleftrightarrow> \<not> t - h + rec_len ?n \<le> ?c"
    using W(8) [of "t - h + rec_len ?n"] G(2,7) rec_len_lt [of sz] by (simp add: record_size_of_nat not_le)
  show ?thesis
    using c0 no W(7)
    by (simp add: spsc_push_body_def Let_def G(4) ring_invD(3) [OF inv] W(1-5) gt body sq tl
        spsc_store_tail_def pushed_state_def push_len_def pad len next_message_def)
qed

lemma spsc_push_body_short:
  assumes inv: "ring_inv st h t ms" and short: "room (length (ring st)) t < 16"
  shows "spsc_push_body data sz ty st = Inr
    (if t - h + room (length (ring st)) t \<le> length (ring st)
     then Inl (tail_moved st (t + room (length (ring st)) t)) else Inr (False, st))"
proof -
  let ?c = "length (ring st)"
  note geo = ring_invD(1) [OF inv]
  note G = ring_geometryD [OF geo] and W = tail_words [OF geo]
  have gt: "capacity st < of_nat (t - h) + of_nat (room ?c t) \<longleftrightarrow> \<not> t - h + room ?c t \<le> ?c"
    using W(8) [of "t - h + room ?c t"] G(2,7) short by (simp add: not_le)
  show ?thesis
    using short W(7) capacity_nonzero [OF geo] spsc_store_tail_moved [of st "t + room ?c t"]
    by (simp add: spsc_push_body_def Let_def G(4) ring_invD(3) [OF inv] W(1-5) gt)
qed

lemma spsc_push_body_wrap:
  assumes inv: "ring_inv st h t ms"
    and wrap: "16 \<le> room (length (ring st)) t" "room (length (ring st)) t < rec_len (unat sz)"
  shows "spsc_push_body data sz ty st = Inr
    (if t - h + (room (length (ring st)) t + rec_len (unat sz)) \<le> length (ring st)
     then Inl ((tail_moved st (t + room (length (ring st)) t))
       \<lparr>ring := mem_write (ring st) (t mod length (ring st)) (header_bytes wrap_header)\<rparr>)
     else Inr (False, st))"
proof -
  let ?c = "length (ring st)"
  note geo = ring_invD(1) [OF inv]
  note G = ring_geometryD [OF geo] and W = tail_words [OF geo]
  have gt: "capacity st < of_nat (t - h) + of_nat (room ?c t) + record_size sz \<longleftrightarrow>
      \<not> t - h + (room ?c t + rec_len (unat sz)) \<le> ?c"
    using W(8) [of "t - h + (room ?c t + rec_len (unat sz))"] G(2,7) wrap(2) rec_len_lt [of sz]
    by (simp add: record_size_of_nat not_le add.assoc)
  have "t mod ?c + 16 \<le> ?c" using wrap(1) add_le_room [OF G(1)] by simp
  then have hd: "store_RecordHeader (ring st) (of_nat (t mod ?c)) wrap_header =
      Inr (mem_write (ring st) (t mod ?c) (header_bytes wrap_header))"
    by (simp add: store_RecordHeader_ok W(6))
  have le: "\<not> of_nat (room ?c t) < (16 :: u64)" "(16 :: u64) \<le> of_nat (room ?c t)"
    using wrap(1) W(4) by (simp_all add: not_less [symmetric])
  have mv: "spsc_store_tail (st\<lparr>ring := m\<rparr>) (of_nat t + of_nat (room ?c t)) =
      (tail_moved st (t + room ?c t))\<lparr>ring := m\<rparr>" for m
    using spsc_store_tail_moved [of "st\<lparr>ring := m\<rparr>" "t + room ?c t"] by simp
  show ?thesis
    unfolding spsc_push_body_def Let_def G(4) ring_invD(3) [OF inv] W(1-3,5) sizeof_values gt
    using wrap W(7) capacity_nonzero [OF geo] le by (simp add: hd mv)
qed

text \<open>Pushing after the padding has been published is pushing with the padding.\<close>

lemma push_after_padding:
  assumes "0 < length (ring st)" "rec_len (length (payload x)) \<le> length (ring st)"
    and "room (length (ring st)) t < rec_len (length (payload x))"
    and "m = (if 16 \<le> room (length (ring st)) t
      then mem_write (ring st) (t mod length (ring st)) (header_bytes wrap_header) else ring st)"
  shows "pushed_state ((tail_moved st (t + room (length (ring st)) t))\<lparr>ring := m\<rparr>)
      (t + room (length (ring st)) t) x = pushed_state st t x"
proof -
  let ?c = "length (ring st)" and ?n = "length (payload x)"
  have len: "length m = ?c"
    using add_le_room [OF assms(1), of 16 t] by (simp add: assms(4))
  have pads: "pad_len ?c t ?n = room ?c t" "pad_len ?c (t + room ?c t) ?n = 0"
    using assms(1,2,3) by (simp_all add: pad_len_def)
  let ?bs = "header_bytes \<lparr>rh_size = of_nat ?n, rh_type = msg_type x, rh_flags = 0,
    rh_sequence = msg_sequence x\<rparr> @ payload x"
  have "pushed_memory m (t + room ?c t) x = mem_write m 0 ?bs"
    using assms(1,2) pads(2) by (simp add: pushed_memory_def Let_def len)
  moreover have "pushed_memory (ring st) t x = mem_write m 0 ?bs"
    using assms(1,3) pads(1) by (simp add: pushed_memory_def Let_def assms(4))
  ultimately have pm: "pushed_memory m (t + room ?c t) x = pushed_memory (ring st) t x" by simp
  have pl: "t + room ?c t + push_len ?c (t + room ?c t) ?n = t + push_len ?c t ?n"
    unfolding push_len_def pads by simp
  show ?thesis
    unfolding pushed_state_def Let_def tail_moved_def by (simp add: len pm pl del: of_nat_add)
qed

text \<open>What the producer leaves behind when it refuses: padding it had room for.\<close>

definition spsc_refused :: "ring_state \<Rightarrow> nat \<Rightarrow> nat \<Rightarrow> nat \<Rightarrow> ring_state" where
  "spsc_refused st h t n =
     (if rec_len n \<le> length (ring st) \<and> room (length (ring st)) t < 16 \<and>
         t - h + room (length (ring st)) t \<le> length (ring st)
      then tail_moved st (t + room (length (ring st)) t) else st)"

lemma spsc_try_push_eq:
  assumes inv: "ring_inv st h t ms" and rd: "readable data sz"
    and hr: "counter_headroom (length (ring st)) t"
  shows "spsc_try_push st data sz ty =
    Some (Inr (if push_fits st h t (unat sz)
      then (True, pushed_state st t (next_message st (source_bytes data sz) ty))
      else (False, spsc_refused st h t (unat sz))))"
proof -
  let ?c = "length (ring st)" and ?n = "unat sz"
  let ?x = "next_message st (source_bytes data sz) ty"
  note geo = ring_invD(1) [OF inv]
  note G = ring_geometryD [OF geo]
  have nn: "\<not> (data = None \<and> sz \<noteq> 0)" using rd by (auto simp: readable_def split: option.splits)
  have n: "length (payload ?x) = ?n"
    using length_source_bytes [OF rd] by (simp add: next_message_def)
  have big: "record_size sz > capacity st \<longleftrightarrow> \<not> rec_len ?n \<le> ?c"
    using unat_capacity [OF geo] by (simp add: word_less_nat_alt unat_record_size not_le)
  have start: "spsc_try_push st data sz ty = run_loop (spsc_push_body data sz ty) st" if "rec_len ?n \<le> ?c"
    using nn big that by (auto simp: spsc_try_push_def Let_def)
  show ?thesis
  proof (cases "rec_len ?n \<le> ?c")
    case False
    then show ?thesis
      using nn big by (simp add: spsc_try_push_def Let_def push_fits_def spsc_refused_def)
  next
    case r: True
    then have pf: "push_fits st h t ?n \<longleftrightarrow> t - h + (pad_len ?c t ?n + rec_len ?n) \<le> ?c"
      by (simp add: push_fits_def push_len_def)
    show ?thesis
      using G(1) r
    proof (cases rule: pad_cases [where t = t])
      case fits
      then have no: "\<not> room ?c t < 16" using rec_len_ge [of ?n] by linarith
      show ?thesis
        using start [OF r] spsc_push_body_fits [OF inv rd fits(2), of ty] pf fits(1) no
        by (simp add: run_loop_exit spsc_refused_def)
    next
      case short
      note B = spsc_push_body_short [OF inv short(2), of data sz ty]
      have lt: "room ?c t < rec_len ?n" using short(2) rec_len_ge [of ?n] by linarith
      show ?thesis
      proof (cases "t - h + room ?c t \<le> ?c")
        case False
        then show ?thesis
          using start [OF r] B pf short(1) by (simp add: run_loop_exit spsc_refused_def)
      next
        case True
        let ?st = "tail_moved st (t + room ?c t)"
        have inv': "ring_inv ?st h (t + room ?c t) ms"
          using inv short(2) True hr by (rule tail_moved_inv)
        have "rec_len ?n \<le> room (length (ring ?st)) (t + room ?c t)" using r G(1) by simp
        note F = spsc_push_body_fits [OF inv' rd this, of ty]
        have "pushed_state (?st\<lparr>ring := ring st\<rparr>) (t + room ?c t) ?x = pushed_state st t ?x"
          using r lt short(2) G(1) by (intro push_after_padding) (simp_all add: n)
        then have P: "pushed_state ?st (t + room ?c t) (next_message ?st (source_bytes data sz) ty) =
            pushed_state st t ?x"
          by (simp add: next_message_def tail_moved_def)
        have "run_loop (spsc_push_body data sz ty) st = run_loop (spsc_push_body data sz ty) ?st"
          using B True by (simp add: run_loop_continue)
        also have "\<dots> = Some (Inr (if t + room ?c t - h + rec_len ?n \<le> ?c
            then (True, pushed_state st t ?x) else (False, ?st)))"
          using F P by (simp add: run_loop_exit)
        finally show ?thesis
          using start [OF r] pf short(1,2) True r G(6)
          by (simp add: spsc_refused_def add.assoc)
      qed
    next
      case wrap
      note B = spsc_push_body_wrap [OF inv wrap(2,3), of data ty]
      show ?thesis
      proof (cases "push_fits st h t ?n")
        case False
        then show ?thesis
          using start [OF r] B pf wrap by (simp add: run_loop_exit spsc_refused_def)
      next
        case True
        let ?m = "mem_write (ring st) (t mod ?c) (header_bytes wrap_header)"
        let ?st = "(tail_moved st (t + room ?c t))\<lparr>ring := ?m\<rparr>"
        have le: "t - h + (room ?c t + rec_len ?n) \<le> ?c" using pf True wrap(1) by simp
        have inv': "ring_inv ?st h (t + room ?c t) ms"
          using inv wrap(2,3) le hr by (rule wrap_published_inv)
        have m: "length ?m = ?c" using wrap(2) add_le_room [OF G(1), of 16 t] by simp
        then have "rec_len ?n \<le> room (length (ring ?st)) (t + room ?c t)" using r G(1) by simp
        note F = spsc_push_body_fits [OF inv' rd this, of ty]
        have "pushed_state ?st (t + room ?c t) ?x = pushed_state st t ?x"
          using r wrap G(1) by (intro push_after_padding) (simp_all add: n)
        then have P: "pushed_state ?st (t + room ?c t) (next_message ?st (source_bytes data sz) ty) =
            pushed_state st t ?x"
          by (simp add: next_message_def)
        have "run_loop (spsc_push_body data sz ty) st = run_loop (spsc_push_body data sz ty) ?st"
          using B le by (simp add: run_loop_continue)
        also have "\<dots> = Some (Inr (True, pushed_state st t ?x))"
          using F P le m G(6) by (simp add: run_loop_exit)
        finally show ?thesis
          using start [OF r] True by simp
      qed
    qed
  qed
qed

lemma spsc_refused_inv:
  assumes "ring_inv st h t ms" "counter_headroom (length (ring st)) t"
  shows "\<exists>t'. ring_inv (spsc_refused st h t n) h t' ms \<and> t' \<le> t + 2 ^ 34"
proof (cases "spsc_refused st h t n = st")
  case True
  with assms(1) show ?thesis by (intro exI [of _ t]) simp
next
  case False
  then have c: "room (length (ring st)) t < 16" "t - h + room (length (ring st)) t \<le> length (ring st)"
    and e: "spsc_refused st h t n = tail_moved st (t + room (length (ring st)) t)"
    by (auto simp: spsc_refused_def split: if_splits)
  from tail_moved_inv [OF assms(1) c assms(2)] c(1) show ?thesis
    unfolding e by (intro exI [of _ "t + room (length (ring st)) t"]) simp
qed

interpretation spsc: byte_ring spsc_try_push spsc_try_pop_internal
proof
  fix st h t ms data sz ty
  assume inv: "ring_inv st h t ms" and rd: "readable data sz"
    and hr: "counter_headroom (length (ring st)) t"
  let ?x = "next_message st (source_bytes data sz) ty"
  note E = spsc_try_push_eq [OF inv rd hr, of ty]
  show "\<exists>st' t'. spsc_try_push st data sz ty = Some (Inr (push_fits st h t (unat sz), st')) \<and>
      ring_inv st' h t' (if push_fits st h t (unat sz) then ms @ [?x] else ms) \<and>
      sequence (control st') =
        (if push_fits st h t (unat sz) then sequence (control st) + 1 else sequence (control st)) \<and>
      length (ring st') = length (ring st) \<and> t' \<le> t + 2 ^ 34"
  proof (cases "push_fits st h t (unat sz)")
    case True
    with E push_accepted [OF inv rd True hr, of ty] show ?thesis by auto
  next
    case False
    with E spsc_refused_inv [OF inv hr, of "unat sz"] show ?thesis
      by (auto simp: spsc_refused_def split: if_splits)
  qed
next
  fix st h t p
  assume "ring_inv st h t []"
  from spsc.pop_empty [OF this, of p]
  show "\<exists>st'. spsc_try_pop_internal st p = Some (Inr (False, p, st')) \<and> ring_inv st' t t [] \<and>
      sequence (control st') = sequence (control st) \<and> length (ring st') = length (ring st)"
    by (auto simp: spsc_try_pop_internal_def run_loop_def)
next
  fix st h t x xs p
  assume "ring_inv st h t (x # xs)"
  from spsc.pop_first [OF this, of p]
  show "\<exists>st' h'. spsc_try_pop_internal st p = Some (Inr (True, deliver p x, st')) \<and> ring_inv st' h' t xs \<and>
      sequence (control st') = sequence (control st) \<and> length (ring st') = length (ring st)"
    by (auto simp: spsc_try_pop_internal_def run_loop_def)
qed

section \<open>Properties\<close>

text \<open>
  C7. Every sequence of pushes and pops on a fresh single-producer ring of any capacity returns,
  without a fault, and its results are those of a FIFO queue that numbers its messages from one:
  accepted messages come out once, in order, with payload, type and sequence number intact, and a
  pop finds nothing only when the queue is empty. The number of operations is bounded only where
  the capacity does not divide the range of the counters.
\<close>

theorem spsc_refines_fifo:
  assumes "0 < c" "c < 2 ^ 63" "list_all op_small ops"
    and "c dvd 2 ^ 64 \<or> length ops * 2 ^ 34 \<le> 2 ^ 64"
  shows "\<exists>rs st ms. run_ops spsc_try_push spsc_try_pop_internal ops (empty_ring c) = Some (Inr (rs, st)) \<and>
    fifo_accepts [] 0 ops rs = Some (ms, sequence (control st))"
proof -
  have "length (ring (empty_ring c)) = c" "sequence (control (empty_ring c)) = 0"
    by (simp_all add: empty_ring_def)
  with spsc.run_ops_fifo [OF empty_ring_inv [OF assms(1,2)] assms(3)] assms(4)
  show ?thesis by auto
qed

theorem spsc_refines_fifo_witness:
  "\<exists>rs st ms. run_ops spsc_try_push spsc_try_pop_internal [Push [7, 8, 9] 5, Pop, Pop] (empty_ring 40) = Some (Inr (rs, st)) \<and>
    fifo_accepts [] 0 [Push [7, 8, 9] 5, Pop, Pop] rs = Some (ms, sequence (control st))"
  by (rule spsc_refines_fifo) simp_all

text \<open>
  C15. The single-producer push accepts exactly what the multi-producer push accepts and then leaves
  the same ring, although it publishes padding in a turn of its own. When both refuse, the
  multi-producer push has changed nothing, and the single-producer push either nothing or the two tail
  counters alone: they have then passed a remainder of fewer than 16 bytes at the end of the ring, too
  short for a record header, and the ring holds the same messages.
\<close>

theorem spsc_try_push_agrees:
  assumes "ring_inv st h t ms" "readable data sz" "counter_headroom (length (ring st)) t"
  shows "\<exists>ok st1 st2. try_push fails st data sz ty = Some (Inr (ok, st1)) \<and>
    spsc_try_push st data sz ty = Some (Inr (ok, st2)) \<and>
    (if ok then st1 = st2
     else st1 = st \<and> (st2 = st \<or>
       (\<exists>t'. t' = t + (length (ring st) - t mod length (ring st)) \<and> t' < t + 16 \<and> t' - h \<le> length (ring st) \<and>
         st2 = st\<lparr>control := (control st)\<lparr>tail_reserve := of_nat t', tail_publish := of_nat t'\<rparr>\<rparr> \<and>
         ring_inv st2 h t' ms)))"
proof (cases "push_fits st h t (unat sz)")
  case True
  then show ?thesis
    using try_push_eq [OF assms(1,2), of fails ty] spsc_try_push_eq [OF assms, of ty] by auto
next
  case no: False
  show ?thesis
  proof (cases "spsc_refused st h t (unat sz) = st")
    case True
    then show ?thesis
      using no try_push_eq [OF assms(1,2), of fails ty] spsc_try_push_eq [OF assms, of ty] by auto
  next
    case False
    let ?t = "t + room (length (ring st)) t"
    from False have c: "room (length (ring st)) t < 16" "t - h + room (length (ring st)) t \<le> length (ring st)"
      and e: "spsc_refused st h t (unat sz) = tail_moved st ?t"
      by (auto simp: spsc_refused_def split: if_splits)
    have "h \<le> t" using ring_geometryD(6) [OF ring_invD(1) [OF assms(1)]] .
    with c(2) have "?t - h \<le> length (ring st)" by simp
    with tail_moved_inv [OF assms(1) c assms(3)] c(1) show ?thesis
      using no e try_push_eq [OF assms(1,2), of fails ty] spsc_try_push_eq [OF assms, of ty]
      by (auto simp: room_def tail_moved_def)
  qed
qed

text \<open>A ring of 32 bytes takes a message of two bytes; the eight bytes left take no second one.\<close>

theorem spsc_try_push_agrees_witness:
  "\<exists>st st2. try_push 0 (empty_ring 32) (Some [1, 2]) 2 3 = Some (Inr (True, st)) \<and>
     spsc_try_push (empty_ring 32) (Some [1, 2]) 2 3 = Some (Inr (True, st)) \<and>
     try_push 0 st (Some [4, 5]) 2 6 = Some (Inr (False, st)) \<and>
     spsc_try_push st (Some [4, 5]) 2 6 = Some (Inr (False, st2)) \<and>
     tail_publish (control st) = 24 \<and> tail_publish (control st2) = 32"
proof -
  have inv: "ring_inv (empty_ring 32) 0 0 []" by (rule empty_ring_inv) simp_all
  have hr: "counter_headroom 32 t" for t by (simp add: counter_headroom_def)
  have rd: "readable (Some [a, b]) 2" for a b by (simp add: readable_def)
  have l: "length (ring (empty_ring 32)) = 32" by (simp add: empty_ring_def)
  note lens = push_fits_def push_len_def pad_len_def rec_len_def room_def
  have "counter_headroom (length (ring (empty_ring 32))) 0" unfolding l by (rule hr)
  from spsc_try_push_agrees [OF inv rd [of 1 2] this, of 0 3] obtain ok st1 st2 where
    1: "try_push 0 (empty_ring 32) (Some [1, 2]) 2 3 = Some (Inr (ok, st1))"
    "spsc_try_push (empty_ring 32) (Some [1, 2]) 2 3 = Some (Inr (ok, st2))" "ok \<Longrightarrow> st1 = st2"
    by auto
  let ?x = "next_message (empty_ring 32) [1, 2] 3"
  let ?st = "pushed_state (empty_ring 32) 0 ?x"
  have fits: "push_fits (empty_ring 32) 0 0 (unat (2 :: u32))" by (simp add: lens l)
  then have ok: "ok" "st1 = ?st"
    using 1(1) try_push_eq [OF inv rd [of 1 2], of 0 3] by (simp_all add: source_bytes_def)
  have p: "length (payload ?x) = unat (2 :: u32)" by (simp add: next_message_def)
  have "ring_inv ?st 0 24 ([] @ [?x])"
    using pushed_state_inv [OF inv p fits] by (simp add: lens l hr)
  then have inv': "ring_inv ?st 0 24 [?x]" by simp
  have l': "length (ring ?st) = 32" "tail_publish (control ?st) = 24"
    by (simp_all add: pushed_state_def pushed_memory_def Let_def lens l next_message_def)
  have "counter_headroom (length (ring ?st)) 24" unfolding l' by (rule hr)
  note A = spsc_try_push_agrees [OF inv' rd [of 4 5] this, of 0 6]
    and E = spsc_try_push_eq [OF inv' rd [of 4 5] this, of 6]
  have "\<not> push_fits ?st 0 24 (unat (2 :: u32))" "spsc_refused ?st 0 24 (unat (2 :: u32)) = tail_moved ?st 32"
    by (simp_all add: spsc_refused_def lens l')
  with E have "spsc_try_push ?st (Some [4, 5]) 2 6 = Some (Inr (False, tail_moved ?st 32))" by simp
  with A have "try_push 0 ?st (Some [4, 5]) 2 6 = Some (Inr (False, ?st))"
    "spsc_try_push ?st (Some [4, 5]) 2 6 = Some (Inr (False, tail_moved ?st 32))" by auto
  with 1 ok l' show ?thesis by (intro exI [of _ ?st] exI [of _ "tail_moved ?st 32"]) (simp add: tail_moved_def)
qed

end
