(* ===== verification/Shared_Ring_Buffer_MPMC.thy ===== *)
theory Shared_Ring_Buffer_MPMC
  imports Shared_Ring_Buffer
begin

text \<open>
  \<open>SharedRingBufferMPMC\<close> of \<open>src/shared_ring_buffer_mpmc.cpp\<close>: the byte ring whose consumers claim
  a record by a compare-and-swap on \<open>head_reserve\<close>, copy it, and publish the new head in order. This
  theory runs one operation at a time; the number \<open>fails\<close> says how often the weak
  compare-and-swap fails spuriously before it succeeds.
\<close>

unbundle bit_operations_syntax

section \<open>Operations\<close>

text \<open>The spin on \<open>head_publish\<close> and the store that follows it.\<close>

definition mpmc_publish_head :: "ring_state \<Rightarrow> u64 \<Rightarrow> u64 \<Rightarrow> ring_state exec option" where
  "mpmc_publish_head st head new_head =
     bindL (spin_until (head_publish (control st) = head)) (\<lambda>_.
       Some (Inr (st\<lparr>control := (control st)\<lparr>head_publish := new_head\<rparr>\<rparr>)))"

text \<open>
  The weak compare-and-swap of \<open>head_reserve\<close> from the value just loaded: \<open>None\<close> for a spurious
  failure.
\<close>

definition mpmc_cas_head :: "nat \<times> ring_state \<Rightarrow> u64 \<Rightarrow> ring_state option" where
  "mpmc_cas_head s new_head =
     (if fst s > 0 then None
      else Some ((snd s)\<lparr>control := (control (snd s))\<lparr>head_reserve := new_head\<rparr>\<rparr>))"

text \<open>Skip to the start of the ring: the code of both padding branches.\<close>

definition mpmc_skip ::
  "nat \<times> ring_state \<Rightarrow> u64 \<Rightarrow> u64 \<Rightarrow> ((nat \<times> ring_state) + 'r) exec option"
where
  "mpmc_skip s head new_head =
     (case mpmc_cas_head s new_head of
        None \<Rightarrow> Some (Inr (Inl (fst s - 1, snd s)))
      | Some st \<Rightarrow> bindL (mpmc_publish_head st head new_head) (\<lambda>st. Some (Inr (Inl (0, st)))))"

text \<open>
  One turn of \<open>try_pop\<close>. The overload without a sequence number passes a local variable that is
  thrown away: \<open>out_sequence = None\<close>.
\<close>

definition mpmc_try_pop_body ::
  "pop_out \<Rightarrow> nat \<times> ring_state \<Rightarrow>
     ((nat \<times> ring_state) + (bool \<times> pop_out \<times> ring_state)) exec option"
where
  "mpmc_try_pop_body p s =
     (let st = snd s;
          tail = tail_publish (control st);
          head = head_reserve (control st)
      in if head = tail then Some (Inr (Inr (False, p, st)))
         else if capacity st = 0 then Some (Inl DivideByZero)
         else let pos = head mod capacity st;
                  remaining = capacity st - pos;
                  available = tail - head
              in if remaining < sizeof_RecordHeader then
                   (if available < remaining then Some (Inr (Inr (False, p, st)))
                    else mpmc_skip s head (head + remaining))
                 else if available < sizeof_RecordHeader then Some (Inr (Inr (False, p, st)))
                 else bindL (Some (load_rh_flags (ring st) pos)) (\<lambda>flags.
                   if flags AND kWrapFlag \<noteq> 0 then
                     (if available < remaining then Some (Inr (Inr (False, p, st)))
                      else mpmc_skip s head (head + remaining))
                   else bindL (Some (load_rh_size (ring st) pos)) (\<lambda>payload_size.
                     let record_sz = record_size payload_size
                     in if record_sz > remaining then Some (Inr (Inr (False, p, st)))
                        else if available < record_sz then Some (Inr (Inr (False, p, st)))
                        else case mpmc_cas_head s (head + record_sz) of
                               None \<Rightarrow> Some (Inr (Inl (fst s - 1, st)))
                             | Some st1 \<Rightarrow>
                                 bindL (Some (copy_out (ring st1) pos payload_size (out p))) (\<lambda>v.
                                 bindL (Some (load_rh_type (ring st1) pos)) (\<lambda>ty.
                                 bindL (Some (load_rh_sequence (ring st1) pos)) (\<lambda>sq.
                                 bindL (mpmc_publish_head st1 head (head + record_sz)) (\<lambda>st2.
                                 Some (Inr (Inr (True,
                                   \<lparr>out = v, out_type = ty,
                                    out_sequence = map_option (\<lambda>_. sq) (out_sequence p)\<rparr>,
                                   st2))))))))))"

definition mpmc_try_pop ::
  "nat \<Rightarrow> ring_state \<Rightarrow> pop_out \<Rightarrow> (bool \<times> pop_out \<times> ring_state) exec option" where
  "mpmc_try_pop fails st p = run_loopL (mpmc_try_pop_body p) (fails, st)"

definition mpmc_try_push ::
  "nat \<Rightarrow> ring_state \<Rightarrow> byte list option \<Rightarrow> u32 \<Rightarrow> u16 \<Rightarrow> (bool \<times> ring_state) exec option" where
  "mpmc_try_push fails st data sz ty = try_push fails st data sz ty"

definition mpmc_approx_size :: "ring_state \<Rightarrow> u64" where
  "mpmc_approx_size st =
     (let head = head_publish (control st);
          tail = tail_publish (control st);
          used = tail - head
      in if used > capacity st then capacity st else used)"

section \<open>The consumer meets its contract\<close>

lemma mpmc_skip_retry: "0 < n \<Longrightarrow> mpmc_skip (n, st) head new_head = Some (Inr (Inl (n - 1, st)))"
  by (simp add: mpmc_skip_def mpmc_cas_head_def)

lemma mpmc_skip_moved:
  assumes "ring_inv st h t ms"
  shows "mpmc_skip (0, st) (of_nat h) (of_nat h') = Some (Inr (Inl (0, moved st h')))"
  using assms
  by (simp add: mpmc_skip_def mpmc_cas_head_def mpmc_publish_head_def ring_inv_def ring_geometry_def
      moved_def)

lemma mpmc_skip_step:
  assumes "ring_inv st h t ms" "ring_inv (moved st h') h' t ms" "h < h'"
  shows "\<exists>s' k. mpmc_skip (n, st) (of_nat h) (of_nat h') = Some (Inr (Inl s')) \<and>
    snd s' = moved st k \<and> ring_inv (snd s') k t ms \<and> fst s' \<le> n \<and> h \<le> k \<and> (h < k \<or> fst s' < n)"
proof (cases "n = 0")
  case True
  with mpmc_skip_moved [OF assms(1), of h'] assms(2,3) show ?thesis
    by (intro exI [of _ "(0, moved st h')"] exI [of _ h']) simp
next
  case False
  with assms(1) moved_self [OF assms(1)] show ?thesis
    by (intro exI [of _ "(n - 1, st)"] exI [of _ h]) (simp add: mpmc_skip_retry)
qed

lemma mpmc_body_skip:
  assumes inv: "ring_inv st h t ms" and ne: "h \<noteq> t"
    and skip: "room (length (ring st)) h < 16 \<or> wrap_at (ring st) (h mod length (ring st))"
  shows "mpmc_try_pop_body p (n, st) = mpmc_skip (n, st) (of_nat h) (of_nat (h + room (length (ring st)) h))"
proof -
  let ?c = "length (ring st)"
  note W = head_words [OF inv]
  note G = ring_geometryD [OF ring_invD(1) [OF inv]]
  have c0: "capacity st \<noteq> 0" by (rule capacity_nonzero [OF ring_invD(1) [OF inv]])
  have pub: "head_reserve (control st) = of_nat h" "tail_publish (control st) = of_nat t"
    using G ring_invD(2,3) [OF inv] by auto
  have "ring_inv (moved st (h + room ?c h)) (h + room ?c h) t ms"
    using try_pop_body_skip [OF inv ne skip] by blast
  then have "h + room ?c h \<le> t" by (auto dest: ring_invD(4) seg_le)
  then have le: "room ?c h \<le> t - h" by linarith
  then have av: "\<not> (of_nat t - of_nat h :: u64) < of_nat (room ?c h)"
    by (simp add: word_less_nat_alt W)
  show ?thesis
  proof (cases "room ?c h < 16")
    case True
    then show ?thesis
      using ne c0 av by (simp add: mpmc_try_pop_body_def Let_def pub W)
  next
    case False
    then have w: "wrap_at (ring st) (h mod ?c)" using skip by auto
    have b: "h mod ?c + 16 \<le> ?c" using False add_le_room [OF G(1), of 16 h] by simp
    have "\<not> (of_nat t - of_nat h :: u64) < 16"
      using le False by (simp add: word_less_nat_alt W)
    then show ?thesis
      using ne c0 False w b av
      by (simp add: mpmc_try_pop_body_def Let_def pub W exec_simps wrap_at_def)
  qed
qed

lemma mpmc_body_deliver:
  assumes inv: "ring_inv st h t ms" and ne: "h \<noteq> t"
    and rec: "16 \<le> room (length (ring st)) h" "\<not> wrap_at (ring st) (h mod length (ring st))"
    and x: "head_record st h t ms x xs"
  shows "mpmc_try_pop_body p (n, st) =
    (if n > 0 then Some (Inr (Inl (n - 1, st)))
     else Some (Inr (Inr (True, deliver p x, moved st (h + rec_len (length (payload x)))))))"
proof -
  let ?c = "length (ring st)"
  let ?n = "length (payload x)" and ?p = "of_nat (h mod ?c) :: u64"
  note W = head_words [OF inv]
  note G = ring_geometryD [OF ring_invD(1) [OF inv]]
  have c0: "capacity st \<noteq> 0" by (rule capacity_nonzero [OF ring_invD(1) [OF inv]])
  have pub: "head_reserve (control st) = of_nat h" "head_publish (control st) = of_nat h"
    "tail_publish (control st) = of_nat t"
    using G ring_invD(2,3) [OF inv] by auto
  define sz where "sz = rh_size (header_at (ring st) (h mod ?c))"
  note R = head_recordD [OF x, folded sz_def]
  have "16 \<le> t - h" using R(10) rec_len_ge [of ?n] by linarith
  then have av: "\<not> (of_nat t - of_nat h :: u64) < 16" by (simp add: word_less_nat_alt W)
  have co: "copy_out (ring st) ?p sz (out p) = Inr (payload x @ drop ?n (out p))"
    using copy_out_ok [of "ring st" ?p x "out p"] R(2,3) by (simp add: W(3) sz_def)
  have sq: "rh_sequence (header_at (ring st) (h mod ?c)) = msg_sequence x"
    using R(2) by (simp add: rec_at_def)
  show ?thesis
    using ne c0 rec(1) R(3,4,5,6,8) av
    by (simp add: mpmc_try_pop_body_def Let_def pub W load_rh_ok co sq deliver_def
        sz_def [symmetric] mpmc_cas_head_def mpmc_publish_head_def moved_def R(7))
qed

interpretation mpmc: ring_consumer mpmc_try_pop_body snd fst
proof
  fix s :: "nat \<times> ring_state" and h t ms p
  assume inv: "ring_inv (snd s) h t ms"
  show "h = t \<Longrightarrow> mpmc_try_pop_body p s = Some (Inr (Inr (False, p, snd s)))"
    using inv by (simp add: mpmc_try_pop_body_def Let_def ring_inv_def ring_geometry_def)
  assume ne: "h \<noteq> t"
  obtain n st where s: "s = (n, st)" by (cases s)
  let ?c = "length (ring st)"
  have inv': "ring_inv st h t ms" using inv s by simp
  have pos: "0 < room ?c h" using inv' by (simp add: ring_inv_def ring_geometry_def)
  let ?step = "\<exists>s' h'. mpmc_try_pop_body p s = Some (Inr (Inl s')) \<and> snd s' = moved (snd s) h' \<and>
        ring_inv (snd s') h' t ms \<and> fst s' \<le> fst s \<and> h \<le> h' \<and> (h < h' \<or> fst s' < fst s)"
  consider "room ?c h < 16 \<or> wrap_at (ring st) (h mod ?c)"
    | "16 \<le> room ?c h" "\<not> wrap_at (ring st) (h mod ?c)" by linarith
  then show "?step \<or> (\<exists>x xs h'. ms = x # xs \<and> h < h' \<and>
        mpmc_try_pop_body p s = Some (Inr (Inr (True, deliver p x, moved (snd s) h'))) \<and>
        ring_inv (moved (snd s) h') h' t xs)"
  proof cases
    case 1
    have "ring_inv (moved st (h + room ?c h)) (h + room ?c h) t ms"
      using try_pop_body_skip [OF inv' ne 1] by blast
    from mpmc_skip_step [OF inv' this, of n] pos show ?thesis
      by (simp only: s mpmc_body_skip [OF inv' ne 1] fst_conv snd_conv) auto
  next
    case 2
    obtain x xs where x: "head_record st h t ms x xs"
      using record_at_head [OF inv' ne 2] by blast
    note B = mpmc_body_deliver [OF inv' ne 2 x, of p n]
    show ?thesis
    proof (cases "n = 0")
      case True
      moreover have "h < h + rec_len (length (payload x))"
        using rec_len_ge [of "length (payload x)"] by linarith
      ultimately show ?thesis
        using B head_recordD(1,9) [OF x] s
        by (intro disjI2 exI [of _ x] exI [of _ xs] exI [of _ "h + rec_len (length (payload x))"]) simp
    next
      case False
      then have ?step
        using B s inv' moved_self [OF inv'] by (intro exI [of _ "(n - 1, st)"] exI [of _ h]) simp
      then show ?thesis ..
    qed
  qed
qed

section \<open>The ring is a FIFO queue\<close>

interpretation mpmc: byte_ring "mpmc_try_push fails" "mpmc_try_pop pop_fails"
proof
  fix st h t ms data sz ty
  assume "ring_inv st h t ms" "readable data sz" "counter_headroom (length (ring st)) t"
  from mpsc.push_law [OF this, of fails ty]
  show "\<exists>st' t'. mpmc_try_push fails st data sz ty =
        Some (Inr (push_fits st h t (unat sz), st')) \<and>
      ring_inv st' h t' (if push_fits st h t (unat sz)
        then ms @ [next_message st (source_bytes data sz) ty] else ms) \<and>
      sequence (control st') =
        (if push_fits st h t (unat sz) then sequence (control st) + 1 else sequence (control st)) \<and>
      length (ring st') = length (ring st) \<and> t' \<le> t + 2 ^ 34"
    by (simp add: mpmc_try_push_def SharedRingBuffer_try_push_def)
next
  fix st h t p
  assume "ring_inv st h t []"
  with mpmc.pop_empty [of "(pop_fails, st)" h t p]
  show "\<exists>st'. mpmc_try_pop pop_fails st p = Some (Inr (False, p, st')) \<and> ring_inv st' t t [] \<and>
      sequence (control st') = sequence (control st) \<and> length (ring st') = length (ring st)"
    by (auto simp: mpmc_try_pop_def)
next
  fix st h t x xs p
  assume "ring_inv st h t (x # xs)"
  with mpmc.pop_first [of "(pop_fails, st)" h t x xs p]
  show "\<exists>st' h'. mpmc_try_pop pop_fails st p = Some (Inr (True, deliver p x, st')) \<and>
      ring_inv st' h' t xs \<and>
      sequence (control st') = sequence (control st) \<and> length (ring st') = length (ring st)"
    by (auto simp: mpmc_try_pop_def)
qed

section \<open>Properties\<close>

text \<open>
  C9. Every sequence of pushes and pops on a fresh multi-consumer ring of any capacity returns,
  without a fault, and its results are those of a FIFO queue that numbers its messages from one:
  accepted messages come out once, in order, with payload, type and sequence number intact, and a
  pop finds nothing only when the queue is empty. The number of operations is bounded only where
  the capacity does not divide the range of the counters. Operations run one at a time.
\<close>

theorem mpmc_refines_fifo:
  assumes "0 < c" "c < 2 ^ 63" "list_all op_small ops"
    and "c dvd 2 ^ 64 \<or> length ops * 2 ^ 34 \<le> 2 ^ 64"
  shows "\<exists>rs st ms. run_ops (mpmc_try_push fails) (mpmc_try_pop pop_fails) ops (empty_ring c) = Some (Inr (rs, st)) \<and>
    fifo_accepts [] 0 ops rs = Some (ms, sequence (control st))"
proof -
  have "length (ring (empty_ring c)) = c" "sequence (control (empty_ring c)) = 0"
    by (simp_all add: empty_ring_def)
  with mpmc.run_ops_fifo [OF empty_ring_inv [OF assms(1,2)] assms(3), of fails pop_fails] assms(4)
  show ?thesis by auto
qed

theorem mpmc_refines_fifo_witness:
  "\<exists>rs st ms. run_ops (mpmc_try_push 2) (mpmc_try_pop 1) [Push [7, 8, 9] 5, Pop, Pop] (empty_ring 40) = Some (Inr (rs, st)) \<and>
    fifo_accepts [] 0 [Push [7, 8, 9] 5, Pop, Pop] rs = Some (ms, sequence (control st))"
  by (rule mpmc_refines_fifo) simp_all

end
