(* ===== verification/Typed_Message.thy ===== *)
theory Typed_Message
  imports Shared_Ring_Buffer Shared_Ring_Buffer_SPSC Shared_Ring_Buffer_MPMC
begin

text \<open>
  \<open>include/lf_ring/typed_message.hpp\<close>: codecs between C++ values and bytes, and the typed writer and
  reader over any of the byte rings. The template argument \<open>Ring\<close> is a pair of operations \<open>push\<close>
  and \<open>pop\<close>; a value of a trivially copyable type of \<open>n\<close> bytes is its bytes, a \<open>std::string\<close> is
  the list of its characters as bytes.
\<close>

section \<open>Codecs\<close>

text \<open>
  An encoder is given the old contents of the output vector, a decoder the old value of its output;
  both say whether they succeed.
\<close>

type_synonym 'a encoder = "'a \<Rightarrow> byte list \<Rightarrow> bool \<times> byte list"
type_synonym 'a decoder = "byte list \<Rightarrow> 'a \<Rightarrow> bool \<times> 'a"

definition trivial_encode :: "nat \<Rightarrow> byte list encoder" where
  "trivial_encode n value v = (True, mem_write (vector_resize v n) 0 (take n value))"

definition trivial_decode :: "nat \<Rightarrow> byte list decoder" where
  "trivial_decode n bs dst =
     (if length bs \<noteq> n then (False, dst) else (True, mem_read bs 0 n))"

definition string_encode :: "byte list encoder" where
  "string_encode value v =
     (let v' = vector_resize v (length value)
      in (True, if value \<noteq> [] then mem_write v' 0 value else v'))"

definition string_decode :: "byte list decoder" where
  "string_decode bs dst = (True, bs)"

text \<open>The elements of a vector, cut out of its bytes.\<close>

function chunks :: "nat \<Rightarrow> byte list \<Rightarrow> byte list list" where
  "chunks n bs = (if n = 0 \<or> length bs < n then [] else take n bs # chunks n (drop n bs))"
  by pat_completeness auto
termination by (relation "measure (\<lambda>(n, bs). length bs)") auto

declare chunks.simps [simp del]

definition vector_encode :: "nat \<Rightarrow> byte list list encoder" where
  "vector_encode n value v =
     (let nbytes = length value * n;
          v' = vector_resize v nbytes
      in (True, if nbytes > 0 then mem_write v' 0 (concat value) else v'))"

definition vector_decode :: "nat \<Rightarrow> byte list list decoder" where
  "vector_decode n bs dst =
     (if length bs mod n \<noteq> 0 then (False, dst)
      else (True, chunks n bs))"

section \<open>Writer and reader\<close>

record MessageView =
  view_type :: u16
  view_sequence :: u64
  view_payload :: "byte list"

record TypedMessageReader =
  buffer :: "byte list"
  last_type :: u16
  last_sequence :: u64

definition new_reader :: TypedMessageReader where
  "new_reader = \<lparr>buffer = [], last_type = 0, last_sequence = 0\<rparr>"

text \<open>\<open>Ring::try_push\<close> of a span: the size is cast to 32 bits.\<close>

definition push_span :: "push_fun \<Rightarrow> ring_state \<Rightarrow> byte list \<Rightarrow> u16 \<Rightarrow> (bool \<times> ring_state) exec option" where
  "push_span push st bs ty = push st (Some bs) (ucast (of_nat (length bs) :: u64)) ty"

definition try_push_bytes ::
  "push_fun \<Rightarrow> ring_state \<Rightarrow> u16 \<Rightarrow> byte list \<Rightarrow> (bool \<times> ring_state) exec option" where
  "try_push_bytes push st ty bs = push_span push st bs ty"

text \<open>\<open>try_push_typed\<close>: trivially copyable values go straight to the ring, others through the codec.\<close>

definition try_push_trivial ::
  "push_fun \<Rightarrow> nat \<Rightarrow> ring_state \<Rightarrow> byte list \<Rightarrow> u16 \<Rightarrow> (bool \<times> ring_state) exec option" where
  "try_push_trivial push n st value ty = push st (Some value) (ucast (of_nat n :: u64)) ty"

definition try_push_typed ::
  "push_fun \<Rightarrow> 'a encoder \<Rightarrow> byte list \<Rightarrow> ring_state \<Rightarrow> 'a \<Rightarrow> u16 \<Rightarrow>
     (bool \<times> byte list \<times> ring_state) exec option"
where
  "try_push_typed push encode scratch st value ty =
     (let (ok, scratch') = encode value []
      in if \<not> ok then Some (Inr (False, scratch', st))
         else bindL (push_span push st scratch' ty) (\<lambda>(r, st). Some (Inr (r, scratch', st))))"

definition reader_try_pop ::
  "pop_fun \<Rightarrow> TypedMessageReader \<Rightarrow> MessageView \<Rightarrow> ring_state \<Rightarrow>
     (bool \<times> MessageView \<times> TypedMessageReader \<times> ring_state) exec option"
where
  "reader_try_pop pop rd view st =
     bindL (pop st \<lparr>out = buffer rd, out_type = last_type rd, out_sequence = Some (last_sequence rd)\<rparr>)
       (\<lambda>(ok, p, st).
         let rd' = \<lparr>buffer = out p, last_type = out_type p,
                    last_sequence = (case out_sequence p of None \<Rightarrow> last_sequence rd | Some s \<Rightarrow> s)\<rparr>
         in if \<not> ok then Some (Inr (False, view, rd', st))
            else Some (Inr (True,
              \<lparr>view_type = last_type rd', view_sequence = last_sequence rd', view_payload = buffer rd'\<rparr>,
              rd', st)))"

definition try_pop_typed ::
  "pop_fun \<Rightarrow> 'a decoder \<Rightarrow> TypedMessageReader \<Rightarrow> u16 \<Rightarrow> 'a \<Rightarrow> ring_state \<Rightarrow>
     (bool \<times> 'a \<times> TypedMessageReader \<times> ring_state) exec option"
where
  "try_pop_typed pop decode rd expected_type dst st =
     bindL (reader_try_pop pop rd \<lparr>view_type = 0, view_sequence = 0, view_payload = []\<rparr> st)
       (\<lambda>(ok, view, rd', st).
         if \<not> ok then Some (Inr (False, dst, rd', st))
         else if view_type view \<noteq> expected_type then Some (Inr (False, dst, rd', st))
         else let (r, v) = decode (view_payload view) dst in Some (Inr (r, v, rd', st)))"

text \<open>The overloads that take the type number from \<open>MessageType<T>::value\<close>, here \<open>mtype\<close>.\<close>

definition writer_try_push ::
  "push_fun \<Rightarrow> 'a encoder \<Rightarrow> u16 \<Rightarrow> byte list \<Rightarrow> ring_state \<Rightarrow> 'a \<Rightarrow> (bool \<times> byte list \<times> ring_state) exec option"
where
  "writer_try_push push encode mtype scratch st value = try_push_typed push encode scratch st value mtype"

definition reader_try_pop_value ::
  "pop_fun \<Rightarrow> 'a decoder \<Rightarrow> u16 \<Rightarrow> TypedMessageReader \<Rightarrow> 'a \<Rightarrow> ring_state \<Rightarrow>
     (bool \<times> 'a \<times> TypedMessageReader \<times> ring_state) exec option"
where
  "reader_try_pop_value pop decode mtype rd dst st = try_pop_typed pop decode rd mtype dst st"

section \<open>Codecs round trip\<close>

locale message_codec =
  fixes encode :: "'a encoder" and decode :: "'a decoder" and ok :: "'a \<Rightarrow> bool"
  assumes encode_ok: "ok v \<Longrightarrow> fst (encode v scratch)"
    and decode_encode: "ok v \<Longrightarrow> decode (snd (encode v scratch)) dst = (True, v)"
begin

lemma encode_pair: "ok v \<Longrightarrow> encode v scratch = (True, snd (encode v scratch))"
  using encode_ok [of v scratch] by (metis prod.collapse)

end

lemma length_vector_resize [simp]: "length (vector_resize v n) = n"
  by (simp add: vector_resize_def)

lemma mem_write_all: "length m = length bs \<Longrightarrow> mem_write m 0 bs = bs"
  by (simp add: mem_write_def)

lemma chunks_concat:
  assumes "0 < n" "\<forall>x \<in> set xs. length x = n"
  shows "chunks n (concat xs) = xs"
  using assms(2)
proof (induction xs)
  case Nil
  then show ?case using assms(1) by (simp add: chunks.simps)
next
  case (Cons x xs)
  with assms(1) show ?case by (simp add: chunks.simps [of n "x @ concat xs"])
qed

lemma length_concat_same: "\<forall>x \<in> set xs. length x = n \<Longrightarrow> length (concat xs) = length xs * n"
  by (induction xs) auto

interpretation trivial: message_codec "trivial_encode n" "trivial_decode n" "\<lambda>v. length v = n"
  by unfold_locales (auto simp: trivial_encode_def trivial_decode_def mem_write_all mem_read_def)

interpretation str: message_codec string_encode string_decode "\<lambda>_. True"
  by unfold_locales (auto simp: string_encode_def string_decode_def mem_write_all vector_resize_def Let_def)

interpretation vec: message_codec "vector_encode n" "vector_decode n"
    "\<lambda>v. 0 < n \<and> (\<forall>x \<in> set v. length x = n)"
proof
  fix v :: "byte list list" and scratch dst
  assume v: "0 < n \<and> (\<forall>x \<in> set v. length x = n)"
  then have l: "length (concat v) = length v * n" by (simp add: length_concat_same)
  show "fst (vector_encode n v scratch)" by (simp add: vector_encode_def Let_def)
  have "snd (vector_encode n v scratch) = concat v"
    using v l by (auto simp: vector_encode_def Let_def mem_write_all vector_resize_def)
  then show "vector_decode n (snd (vector_encode n v scratch)) dst = (True, v)"
    using v l by (simp add: vector_decode_def chunks_concat)
qed

section \<open>A typed channel over a ring\<close>

text \<open>What a reader gets from a ring that holds \<open>x\<close> first, given what its buffer held before.\<close>

context byte_ring
begin

lemma reader_pops_first:
  assumes "ring_inv st h t (x # xs)"
  shows "\<exists>st' h'. reader_try_pop pop rd view st =
      Some (Inr (True,
        \<lparr>view_type = msg_type x, view_sequence = msg_sequence x,
         view_payload = payload x @ drop (length (payload x)) (buffer rd)\<rparr>,
        \<lparr>buffer = payload x @ drop (length (payload x)) (buffer rd), last_type = msg_type x,
         last_sequence = msg_sequence x\<rparr>, st')) \<and>
    ring_inv st' h' t xs"
  using pop_first_law [OF assms,
      of "\<lparr>out = buffer rd, out_type = last_type rd, out_sequence = Some (last_sequence rd)\<rparr>"]
  by (auto simp: reader_try_pop_def deliver_def Let_def)

lemma push_span_accepted:
  assumes "ring_inv st h t ms" "length bs < 2 ^ 32" "counter_headroom (length (ring st)) t"
    and "push_span push st bs ty = Some (Inr (True, st'))"
  shows "\<exists>t'. ring_inv st' h t' (ms @ [next_message st bs ty])"
proof -
  have l: "unat (ucast (of_nat (length bs) :: u64) :: u32) = length bs"
    using assms(2) by (simp add: unsigned_ucast_eq unsigned_of_nat take_bit_nat_eq_self)
  have "readable (Some bs) (ucast (of_nat (length bs) :: u64))"
    "source_bytes (Some bs) (ucast (of_nat (length bs) :: u64)) = bs"
    by (simp_all add: readable_def source_bytes_def l)
  with push_law [OF assms(1) _ assms(3), of "Some bs" "ucast (of_nat (length bs) :: u64)" ty] assms(4)
  show ?thesis by (auto simp: push_span_def split: if_splits)
qed

end

locale typed_channel = byte_ring push pop + message_codec encode decode ok
  for push pop and encode :: "'a encoder" and decode ok
begin

text \<open>A value pushed through the codec comes out again, if nothing longer was read before.\<close>

lemma typed_round_trip:
  assumes inv: "ring_inv st h t []" and v: "ok v" "length (snd (encode v [])) < 2 ^ 32"
    and hr: "counter_headroom (length (ring st)) t"
    and push: "try_push_typed push encode scratch st v ty = Some (Inr (True, scratch', st1))"
    and buf: "length (buffer rd) \<le> length (snd (encode v []))"
  shows "\<exists>rd' st2. try_pop_typed pop decode rd ty dst st1 = Some (Inr (True, v, rd', st2))"
proof -
  let ?bs = "snd (encode v [])"
  obtain st' where p: "push_span push st ?bs ty = Some (Inr (True, st'))" "st' = st1"
    using push encode_pair [OF v(1), of "[]"]
    by (auto simp: try_push_typed_def bindL_def Let_def split: option.splits sum.splits prod.splits)
  obtain t' where inv1: "ring_inv st1 h t' [next_message st ?bs ty]"
    using push_span_accepted [OF inv v(2) hr p(1)] p(2) by auto
  have m: "payload (next_message st ?bs ty) = ?bs" "msg_type (next_message st ?bs ty) = ty"
    by (simp_all add: next_message_def)
  show ?thesis
    using reader_pops_first [OF inv1, of rd "\<lparr>view_type = 0, view_sequence = 0, view_payload = []\<rparr>"]
      decode_encode [OF v(1), of "[]" dst] buf
    by (auto simp: try_pop_typed_def m)
qed

end

interpretation mpsc_trivial: typed_channel "SharedRingBuffer_try_push fails" try_pop_internal
    "trivial_encode n" "trivial_decode n" "\<lambda>v. length v = n"
  by unfold_locales

interpretation mpsc_string: typed_channel "SharedRingBuffer_try_push fails" try_pop_internal
    string_encode string_decode "\<lambda>_. True"
  by unfold_locales

interpretation mpsc_vector: typed_channel "SharedRingBuffer_try_push fails" try_pop_internal
    "vector_encode n" "vector_decode n" "\<lambda>v. 0 < n \<and> (\<forall>x \<in> set v. length x = n)"
  by unfold_locales

section \<open>Properties\<close>

text \<open>
  C24. Each of the three codecs decodes what it encoded, whatever the output buffers held before:
  trivially copyable values, strings, and vectors of trivially copyable elements.
\<close>

theorem codecs_round_trip:
  "(length a = n \<longrightarrow> trivial_decode n (snd (trivial_encode n a scratch)) d1 = (True, a)) \<and>
   string_decode (snd (string_encode s scratch)) d2 = (True, s) \<and>
   (0 < k \<and> (\<forall>x \<in> set xs. length x = k) \<longrightarrow>
     vector_decode k (snd (vector_encode k xs scratch)) d3 = (True, xs))"
  using trivial.decode_encode [of a n scratch d1] str.decode_encode [of s scratch d2]
    vec.decode_encode [of k xs scratch d3] by blast

theorem codecs_round_trip_witness:
  "trivial_decode 2 (snd (trivial_encode 2 [1, 2] [9, 9, 9])) [] = (True, [1, 2]) \<and>
   vector_decode 2 (snd (vector_encode 2 [[1, 2], [3, 4]] [])) [] = (True, [[1, 2], [3, 4]])"
  using codecs_round_trip [of "[1, 2]" 2 "[9, 9, 9]" "[]" "[]" "[]" 2 "[]" "[]"]
    codecs_round_trip [of "[]" 0 "[]" "[]" "[]" "[]" 2 "[[1, 2], [3, 4]]" "[]"] by simp

text \<open>
  A vector pushed by \<open>TypedMessageWriter\<close> into an empty ring is what \<open>TypedMessageReader\<close> gets out
  of it, element by element, as long as the reader has not read anything longer before.
\<close>

theorem typed_vector_round_trip:
  assumes "ring_inv st h t []" "counter_headroom (length (ring st)) t"
    and "0 < n" "\<forall>x \<in> set v. length x = n" "length v * n < 2 ^ 32"
    and "try_push_typed (SharedRingBuffer_try_push fails) (vector_encode n) scratch st v ty =
      Some (Inr (True, scratch', st1))"
    and "length (buffer rd) \<le> length v * n"
  shows "\<exists>rd' st2. try_pop_typed try_pop_internal (vector_decode n) rd ty dst st1 =
    Some (Inr (True, v, rd', st2))"
proof -
  have "length (concat v) = length v * n" using assms(4) by (rule length_concat_same)
  then have l: "length (snd (vector_encode n v [])) = length v * n"
    by (simp add: vector_encode_def Let_def)
  have ok: "0 < n \<and> (\<forall>x \<in> set v. length x = n)" using assms(3,4) by simp
  have "length (snd (vector_encode n v [])) < 2 ^ 32" using l assms(5) by simp
  from mpsc_vector.typed_round_trip [OF assms(1) ok this assms(2,6)] assms(7) l show ?thesis by simp
qed

lemma example_span_push:
  "\<exists>st1. push_span (SharedRingBuffer_try_push 0) (empty_ring 64) [1, 2, 3, 4] 9 = Some (Inr (True, st1))"
proof -
  have inv: "ring_inv (empty_ring 64) 0 0 []" by (rule empty_ring_inv) simp_all
  have "readable (Some [1, 2, 3, 4]) 4" by (simp add: readable_def)
  moreover have "push_fits (empty_ring 64) 0 0 (unat (4 :: u32))"
    by (simp add: push_fits_def push_len_def pad_len_def rec_len_def room_def empty_ring_def)
  ultimately show ?thesis
    using try_push_eq [OF inv, of "Some [1, 2, 3, 4]" 4 0 9]
    by (simp add: push_span_def SharedRingBuffer_try_push_def)
qed

lemma example_vector_push:
  "\<exists>st1. try_push_typed (SharedRingBuffer_try_push 0) (vector_encode 2) [] (empty_ring 64) [[1, 2], [3, 4]] 9 =
     Some (Inr (True, [1, 2, 3, 4], st1))"
proof -
  have "vector_encode 2 [[1, 2], [3, 4]] [] = (True, [1, 2, 3, 4])"
    by (simp add: vector_encode_def Let_def mem_write_def)
  with example_span_push show ?thesis by (auto simp: try_push_typed_def)
qed

theorem typed_vector_round_trip_witness:
  "\<exists>scratch st1 rd st2.
     try_push_typed (SharedRingBuffer_try_push 0) (vector_encode 2) [] (empty_ring 64) [[1, 2], [3, 4]] 9 =
       Some (Inr (True, scratch, st1)) \<and>
     try_pop_typed try_pop_internal (vector_decode 2) new_reader 9 [] st1 =
       Some (Inr (True, [[1, 2], [3, 4]], rd, st2))"
proof -
  have inv: "ring_inv (empty_ring 64) 0 0 []" by (rule empty_ring_inv) simp_all
  have hr: "counter_headroom (length (ring (empty_ring 64))) 0" by (simp add: counter_headroom_def)
  obtain st1 where p: "try_push_typed (SharedRingBuffer_try_push 0) (vector_encode 2) [] (empty_ring 64)
      [[1, 2], [3, 4]] 9 = Some (Inr (True, [1, 2, 3, 4], st1))"
    using example_vector_push by blast
  have "\<exists>rd' st2. try_pop_typed try_pop_internal (vector_decode 2) new_reader 9 [] st1 =
      Some (Inr (True, [[1, 2], [3, 4]], rd', st2))"
    by (rule typed_vector_round_trip [OF inv hr _ _ _ p]) (simp_all add: new_reader_def)
  with p show ?thesis by blast
qed

text \<open>
  C40. The reader reuses a buffer that never shrinks and takes its whole length for the message:
  after a longer message, a shorter one is delivered with the tail of the longer one appended. A
  fixed-size type then fails to decode and its message is lost; a string comes out wrong.
\<close>

theorem reader_appends_stale_bytes:
  assumes "ring_inv st h t (x # y # zs)" "length (payload y) < length (payload x)"
  shows "\<exists>v1 rd1 st1 v2 rd2 st2.
    reader_try_pop try_pop_internal new_reader view st = Some (Inr (True, v1, rd1, st1)) \<and>
    view_payload v1 = payload x \<and>
    reader_try_pop try_pop_internal rd1 view st1 = Some (Inr (True, v2, rd2, st2)) \<and>
    view_payload v2 = payload y @ drop (length (payload y)) (payload x) \<and>
    view_payload v2 \<noteq> payload y \<and>
    (length (payload y) = n \<longrightarrow> \<not> fst (trivial_decode n (view_payload v2) d))"
proof -
  from mpsc.reader_pops_first [OF assms(1), of new_reader view] obtain v1 rd1 st1 h1 where
    "reader_try_pop try_pop_internal new_reader view st = Some (Inr (True, v1, rd1, st1))"
    "view_payload v1 = payload x" "buffer rd1 = payload x" and inv: "ring_inv st1 h1 t (y # zs)"
    by (auto simp: new_reader_def)
  moreover from mpsc.reader_pops_first [OF inv, of rd1 view] obtain v2 rd2 st2 where
    "reader_try_pop try_pop_internal rd1 view st1 = Some (Inr (True, v2, rd2, st2))"
    "view_payload v2 = payload y @ drop (length (payload y)) (buffer rd1)"
    by auto
  ultimately show ?thesis
    using assms(2) by (auto simp: trivial_decode_def)
qed

lemma two_strings_inv:
  "\<exists>st t x y. ring_inv st 0 t [x, y] \<and> payload x = [104, 101, 108, 108, 111] \<and> payload y = [104, 105]"
proof -
  define x where "x = \<lparr>payload = [104, 101, 108, 108, 111], msg_type = 0, msg_sequence = 1\<rparr>"
  define y where "y = \<lparr>payload = [104, 105], msg_type = 0, msg_sequence = 2\<rparr>"
  define s1 where "s1 = pushed_state (empty_ring 64) 0 x"
  have inv: "ring_inv (empty_ring 64) 0 0 []" by (rule empty_ring_inv) simp_all
  have l: "length (ring (empty_ring 64)) = 64" by (simp add: empty_ring_def)
  have hr: "counter_headroom 64 t" for t by (simp add: counter_headroom_def)
  have "ring_inv s1 0 (0 + push_len (length (ring (empty_ring 64))) 0 (unat (5 :: u32))) ([] @ [x])"
    unfolding s1_def
    by (rule pushed_state_inv [OF inv])
      (simp_all add: x_def push_fits_def push_len_def pad_len_def rec_len_def room_def l hr)
  then have i1: "ring_inv s1 0 24 [x]" by (simp add: push_len_def pad_len_def rec_len_def room_def l)
  have l1: "length (ring s1) = 64"
    by (simp add: s1_def pushed_state_def pushed_memory_def Let_def l x_def pad_len_def rec_len_def room_def)
  have "ring_inv (pushed_state s1 24 y) 0 (24 + push_len (length (ring s1)) 24 (unat (2 :: u32))) ([x] @ [y])"
    by (rule pushed_state_inv [OF i1])
      (simp_all add: y_def push_fits_def push_len_def pad_len_def rec_len_def room_def l1 hr)
  then show ?thesis
    by (intro exI conjI, simp) (simp_all add: x_def y_def)
qed

theorem reader_appends_stale_bytes_witness:
  "\<exists>st v1 rd1 st1 v2 rd2 st2.
    reader_try_pop try_pop_internal new_reader \<lparr>view_type = 0, view_sequence = 0, view_payload = []\<rparr> st =
      Some (Inr (True, v1, rd1, st1)) \<and> view_payload v1 = [104, 101, 108, 108, 111] \<and>
    reader_try_pop try_pop_internal rd1 \<lparr>view_type = 0, view_sequence = 0, view_payload = []\<rparr> st1 =
      Some (Inr (True, v2, rd2, st2)) \<and> view_payload v2 = [104, 105, 108, 108, 111]"
proof -
  obtain st t x y where inv: "ring_inv st 0 t [x, y]"
    and p: "payload x = [104, 101, 108, 108, 111]" "payload y = [104, 105]"
    using two_strings_inv by blast
  from reader_appends_stale_bytes [OF inv, of "\<lparr>view_type = 0, view_sequence = 0, view_payload = []\<rparr>" 2 "[]"] p
  show ?thesis by fastforce
qed

text \<open>
  The span overload of \<open>try_push\<close> casts the length to 32 bits: of a span of \<open>2^32\<close> bytes or more
  only the first length-modulo-\<open>2^32\<close> bytes are pushed, and the call still reports success.
\<close>

theorem push_span_truncates:
  assumes "ring_inv st h t ms" "counter_headroom (length (ring st)) t"
    and "push_span (SharedRingBuffer_try_push fails) st bs ty = Some (Inr (True, st'))"
  shows "\<exists>t'. ring_inv st' h t' (ms @ [\<lparr>payload = take (length bs mod 2 ^ 32) bs, msg_type = ty,
    msg_sequence = sequence (control st) + 1\<rparr>])"
proof -
  let ?n = "ucast (of_nat (length bs) :: u64) :: u32"
  have l: "unat ?n = length bs mod 2 ^ 32"
    by (simp add: unsigned_ucast_eq unsigned_of_nat take_bit_eq_mod mod_mod_cancel)
  have "readable (Some bs) ?n" "source_bytes (Some bs) ?n = take (length bs mod 2 ^ 32) bs"
    by (simp_all add: readable_def source_bytes_def l)
  with mpsc.push_law [OF assms(1) _ assms(2), of "Some bs" ?n fails ty] assms(3)
  show ?thesis by (auto simp: push_span_def next_message_def split: if_splits)
qed

theorem push_span_truncates_witness:
  "\<exists>st' t'. push_span (SharedRingBuffer_try_push 0) (empty_ring 64) [1, 2, 3, 4] 9 = Some (Inr (True, st')) \<and>
     ring_inv st' 0 t' [\<lparr>payload = [1, 2, 3, 4], msg_type = 9, msg_sequence = 1\<rparr>]"
proof -
  have inv: "ring_inv (empty_ring 64) 0 0 []" by (rule empty_ring_inv) simp_all
  have hr: "counter_headroom (length (ring (empty_ring 64))) 0" by (simp add: counter_headroom_def)
  have q: "sequence (control (empty_ring 64)) = 0" by (simp add: empty_ring_def)
  obtain st' where p: "push_span (SharedRingBuffer_try_push 0) (empty_ring 64) [1, 2, 3, 4] 9 =
      Some (Inr (True, st'))" using example_span_push by blast
  from push_span_truncates [OF inv hr p] p show ?thesis by (auto simp: q)
qed

end
