(* ===== verification/Shared_Memory_Mapping.thy ===== *)
theory Shared_Memory_Mapping
  imports Ring_Interface
begin

text \<open>
  \<open>src/shared_memory_mapping.cpp\<close>: creating, opening, moving and releasing the mapped file behind
  every primitive.

  The state is the part of the system the code touches: the files by path, the open descriptors and
  the live mappings. All mappings of a file share its bytes (\<open>MAP_SHARED\<close>). The system calls are
  modelled by their documented effect; whether one fails, and which fresh descriptor or address
  it yields, is decided by an argument \<open>env\<close>. Pointers into a mapping are offsets from its base.
\<close>

section \<open>Files, descriptors and mappings\<close>

record world =
  files :: "string \<rightharpoonup> memory"
  fds :: "int \<rightharpoonup> string"
  maps :: "u64 \<rightharpoonup> string \<times> u64"

record os_env =
  open_fails :: bool
  ftruncate_fails :: bool
  fstat_fails :: bool
  mmap_fails :: bool
  new_fd :: int
  new_addr :: u64

text \<open>A fresh descriptor is not negative; descriptors and addresses are not in use.\<close>

definition os_ok :: "os_env \<Rightarrow> world \<Rightarrow> bool" where
  "os_ok env w \<longleftrightarrow>
     0 \<le> new_fd env \<and> fds w (new_fd env) = None \<and> maps w (new_addr env) = None"

definition can_create :: "os_env \<Rightarrow> bool" where
  "can_create env \<longleftrightarrow> \<not> open_fails env \<and> \<not> ftruncate_fails env \<and> \<not> mmap_fails env"

definition can_open :: "os_env \<Rightarrow> bool" where
  "can_open env \<longleftrightarrow> \<not> open_fails env \<and> \<not> fstat_fails env \<and> \<not> mmap_fails env"

definition sys_open_create :: "os_env \<Rightarrow> string \<Rightarrow> world \<Rightarrow> (int \<times> world) option" where
  "sys_open_create env path w =
     (if open_fails env \<or> files w path \<noteq> None then None
      else Some (new_fd env,
        w\<lparr>files := (files w)(path \<mapsto> []), fds := (fds w)(new_fd env \<mapsto> path)\<rparr>))"

definition sys_open :: "os_env \<Rightarrow> string \<Rightarrow> world \<Rightarrow> (int \<times> world) option" where
  "sys_open env path w =
     (if open_fails env \<or> files w path = None then None
      else Some (new_fd env, w\<lparr>fds := (fds w)(new_fd env \<mapsto> path)\<rparr>))"

definition sys_close :: "int \<Rightarrow> world \<Rightarrow> world" where
  "sys_close fd w = w\<lparr>fds := (fds w)(fd := None)\<rparr>"

text \<open>The length argument is an \<open>off_t\<close>: from \<open>2^63\<close> on it is negative and refused.\<close>

definition sys_ftruncate :: "os_env \<Rightarrow> int \<Rightarrow> u64 \<Rightarrow> world \<Rightarrow> world option" where
  "sys_ftruncate env fd n w =
     (if ftruncate_fails env \<or> n \<ge> 2 ^ 63 then None
      else case fds w fd of
             None \<Rightarrow> None
           | Some path \<Rightarrow>
               (case files w path of
                  None \<Rightarrow> None
                | Some bs \<Rightarrow> Some (w\<lparr>files := (files w)(path \<mapsto> vector_resize bs (unat n))\<rparr>)))"

definition sys_fstat :: "os_env \<Rightarrow> int \<Rightarrow> world \<Rightarrow> nat option" where
  "sys_fstat env fd w =
     (if fstat_fails env then None
      else case fds w fd of None \<Rightarrow> None | Some path \<Rightarrow> map_option length (files w path))"

definition sys_mmap :: "os_env \<Rightarrow> int \<Rightarrow> u64 \<Rightarrow> world \<Rightarrow> (u64 \<times> world) option" where
  "sys_mmap env fd n w =
     (if mmap_fails env \<or> n = 0 then None
      else case fds w fd of
             None \<Rightarrow> None
           | Some path \<Rightarrow> Some (new_addr env, w\<lparr>maps := (maps w)(new_addr env \<mapsto> (path, n))\<rparr>))"

definition sys_munmap :: "u64 \<Rightarrow> world \<Rightarrow> world" where
  "sys_munmap addr w = w\<lparr>maps := (maps w)(addr := None)\<rparr>"

text \<open>The bytes seen through a mapping, and a change of them.\<close>

definition mapped_bytes :: "world \<Rightarrow> u64 \<Rightarrow> memory exec" where
  "mapped_bytes w addr =
     (case maps w addr of
        None \<Rightarrow> Inl NullDereference
      | Some (path, n) \<Rightarrow>
          (case files w path of None \<Rightarrow> Inl NullDereference | Some bs \<Rightarrow> Inr bs))"

definition set_mapped_bytes :: "u64 \<Rightarrow> memory \<Rightarrow> world \<Rightarrow> world" where
  "set_mapped_bytes addr bs w =
     (case maps w addr of None \<Rightarrow> w | Some (path, n) \<Rightarrow> w\<lparr>files := (files w)(path \<mapsto> bs)\<rparr>)"

text \<open>Exceptions: those with an \<open>errno\<close> text after the message, and the plain ones.\<close>

datatype exn = errno_error string | runtime_error string

section \<open>Stores of typed fields\<close>

datatype store_op = Store16 nat u16 | Store32 nat u32 | Store64 nat u64

fun run_store :: "store_op \<Rightarrow> memory \<Rightarrow> memory exec" where
  "run_store (Store16 a v) m = store_u16 m a v"
| "run_store (Store32 a v) m = store_u32 m a v"
| "run_store (Store64 a v) m = store_u64 m a v"

fun run_stores :: "store_op list \<Rightarrow> memory \<Rightarrow> memory exec" where
  "run_stores [] m = Inr m"
| "run_stores (s # ss) m = bindE (run_store s m) (run_stores ss)"

text \<open>
  Offsets of the members of \<open>Header\<close>: 0 \<open>magic\<close>, 4 \<open>version\<close>, 6 \<open>header_size\<close>,
  8 \<open>capacity_bytes\<close>, 16 \<open>control_offset\<close>, 24 \<open>ring_offset\<close>, 32 \<open>alignment\<close>, 40 \<open>flags\<close>; the
  members of \<open>ControlBlock\<close> are a cache line apart.
\<close>

definition create_header_stores :: "u64 \<Rightarrow> u64 \<Rightarrow> store_op list" where
  "create_header_stores cap flags =
     [Store32 0 kMagic, Store16 4 kVersion, Store16 6 (ucast sizeof_Header), Store64 8 cap,
      Store64 16 header_region_size, Store64 24 (header_region_size + control_region_size),
      Store64 32 kAlignment, Store64 40 flags]"

definition create_control_stores :: "nat \<Rightarrow> store_op list" where
  "create_control_stores off =
     [Store64 off 0, Store64 (off + 64) 0, Store64 (off + 128) 0, Store64 (off + 192) 0,
      Store64 (off + 256) 0]"

section \<open>Mappings\<close>

record Mapping =
  m_fd :: int
  m_mapping :: "u64 option"
  m_size :: u64
  m_header :: "u64 option"
  m_control :: "u64 option"
  m_ring :: "u64 option"
  m_capacity :: u64

definition null_mapping :: Mapping where
  "null_mapping =
     \<lparr>m_fd = -1, m_mapping = None, m_size = 0, m_header = None, m_control = None, m_ring = None,
      m_capacity = 0\<rparr>"

definition reset :: "Mapping \<Rightarrow> world \<Rightarrow> Mapping \<times> world" where
  "reset mp w =
     (let w1 = (case m_mapping mp of
                  Some addr \<Rightarrow> if m_size mp > 0 then sys_munmap addr w else w
                | None \<Rightarrow> w);
          w2 = (if m_fd mp \<ge> 0 then sys_close (m_fd mp) w1 else w1)
      in (null_mapping, w2))"

text \<open>
  Move assignment of a mapping to another object: the target releases what it owns, takes over the
  source's members and leaves the source empty. The result is (target, source, world). The code
  returns at once when both are the same object.
\<close>

definition move_assign :: "Mapping \<Rightarrow> Mapping \<Rightarrow> world \<Rightarrow> Mapping \<times> Mapping \<times> world" where
  "move_assign target other w =
     (let w1 = snd (reset target w) in (other, null_mapping, w1))"

definition create_mapping ::
  "os_env \<Rightarrow> string \<Rightarrow> u64 \<Rightarrow> u64 \<Rightarrow> world \<Rightarrow> ((exn + Mapping) \<times> world) exec"
where
  "create_mapping env path bytes flags w =
     (if bytes = 0 then Inr (Inl (runtime_error ''capacity_bytes must be > 0''), w)
      else
        let cap = align_up bytes kAlignment;
            header_sz = header_region_size;
            control_sz = control_region_size;
            ring_off = header_sz + control_sz;
            mapping_sz = ring_off + cap
        in case sys_open_create env path w of
             None \<Rightarrow> Inr (Inl (errno_error ''open (create) failed''), w)
           | Some (fd, w1) \<Rightarrow>
        (case sys_ftruncate env fd mapping_sz w1 of
             None \<Rightarrow> Inr (Inl (errno_error ''ftruncate failed''), sys_close fd w1)
           | Some w2 \<Rightarrow>
        (case sys_mmap env fd mapping_sz w2 of
             None \<Rightarrow> Inr (Inl (errno_error ''mmap failed''), sys_close fd w2)
           | Some (addr, w3) \<Rightarrow>
               bindE (run_stores (create_header_stores cap flags) (replicate (unat mapping_sz) 0)) (\<lambda>m1.
               bindE (load_u64 m1 16) (\<lambda>control_off.
               bindE (run_stores (create_control_stores (unat control_off)) m1) (\<lambda>m2.
               bindE (load_u64 m2 24) (\<lambda>ring_off'.
               Inr (Inr \<lparr>m_fd = fd, m_mapping = Some addr, m_size = mapping_sz, m_header = Some 0,
                         m_control = Some control_off, m_ring = Some ring_off', m_capacity = cap\<rparr>,
                    set_mapped_bytes addr m2 w3))))))))"

definition open_mapping ::
  "os_env \<Rightarrow> string \<Rightarrow> u64 \<Rightarrow> world \<Rightarrow> ((exn + Mapping) \<times> world) exec"
where
  "open_mapping env path expected_flags w =
     (case sys_open env path w of
        None \<Rightarrow> Inr (Inl (errno_error ''open failed''), w)
      | Some (fd, w1) \<Rightarrow>
     (case sys_fstat env fd w1 of
        None \<Rightarrow> Inr (Inl (errno_error ''fstat failed''), sys_close fd w1)
      | Some st_size \<Rightarrow>
          if st_size < unat sizeof_Header
          then Inr (Inl (runtime_error ''shared memory file too small''), sys_close fd w1)
          else
     (let mapping_sz = of_nat st_size in
      case sys_mmap env fd mapping_sz w1 of
        None \<Rightarrow> Inr (Inl (errno_error ''mmap failed''), sys_close fd w1)
      | Some (addr, w2) \<Rightarrow>
          let fail = (\<lambda>msg. Inr (Inl (runtime_error msg), sys_close fd (sys_munmap addr w2)))
          in bindE (mapped_bytes w2 addr) (\<lambda>m.
             bindE (load_u32 m 0) (\<lambda>mag.
             if mag \<noteq> kMagic then fail ''invalid ring buffer magic''
             else bindE (load_u16 m 4) (\<lambda>ver.
             if ver \<noteq> kVersion then fail ''unsupported ring buffer version''
             else bindE (load_u64 m 40) (\<lambda>flags.
             if flags \<noteq> expected_flags then fail ''ring buffer mode mismatch''
             else bindE (load_u64 m 8) (\<lambda>cap.
             bindE (load_u64 m 24) (\<lambda>ring_off.
             bindE (load_u64 m 16) (\<lambda>control_off.
             if ring_off + cap > mapping_sz then fail ''ring buffer mapping size mismatch''
             else if control_off + sizeof_ControlBlock > mapping_sz
             then fail ''ring buffer control block out of range''
             else Inr (Inr \<lparr>m_fd = fd, m_mapping = Some addr, m_size = mapping_sz,
                            m_header = Some 0, m_control = Some control_off,
                            m_ring = Some ring_off, m_capacity = cap\<rparr>, w2)))))))))))"

section \<open>The ring inside a mapping\<close>

text \<open>
  The primitives reach the control block and the ring bytes through the pointers of a mapping:
  \<open>load_ring\<close> is what they see there, \<open>store_ring\<close> what they leave. Both fault outside the file.
\<close>

definition control_of :: "memory \<Rightarrow> nat \<Rightarrow> ControlBlock" where
  "control_of m off =
     \<lparr>head_reserve = dec64 (mem_read m off 8), head_publish = dec64 (mem_read m (off + 64) 8),
      tail_reserve = dec64 (mem_read m (off + 128) 8), tail_publish = dec64 (mem_read m (off + 192) 8),
      sequence = dec64 (mem_read m (off + 256) 8)\<rparr>"

definition load_ring :: "memory \<Rightarrow> Mapping \<Rightarrow> ring_state exec" where
  "load_ring m mp =
     (case (m_control mp, m_ring mp) of
        (Some c, Some r) \<Rightarrow>
          if unat c + 320 \<le> length m \<and> unat r + unat (m_capacity mp) \<le> length m
          then Inr \<lparr>control = control_of m (unat c), ring = mem_read m (unat r) (unat (m_capacity mp)),
                    capacity = m_capacity mp\<rparr>
          else Inl OutOfBounds
      | _ \<Rightarrow> Inl NullDereference)"

definition control_stores :: "nat \<Rightarrow> ControlBlock \<Rightarrow> store_op list" where
  "control_stores off cb =
     [Store64 off (head_reserve cb), Store64 (off + 64) (head_publish cb),
      Store64 (off + 128) (tail_reserve cb), Store64 (off + 192) (tail_publish cb),
      Store64 (off + 256) (sequence cb)]"

definition store_ring :: "memory \<Rightarrow> Mapping \<Rightarrow> ring_state \<Rightarrow> memory exec" where
  "store_ring m mp st =
     (case (m_control mp, m_ring mp) of
        (Some c, Some r) \<Rightarrow>
          bindE (run_stores (control_stores (unat c) (control st)) m) (\<lambda>m1.
            store_bytes m1 (unat r) (ring st))
      | _ \<Rightarrow> Inl NullDereference)"

definition on_ring ::
  "Mapping \<Rightarrow> (ring_state \<Rightarrow> ('r \<times> ring_state) exec option) \<Rightarrow> world \<Rightarrow> ('r \<times> world) exec option"
where
  "on_ring mp f w =
     (case m_mapping mp of
        None \<Rightarrow> Some (Inl NullDereference)
      | Some addr \<Rightarrow>
          bindL (Some (mapped_bytes w addr)) (\<lambda>m.
          bindL (Some (load_ring m mp)) (\<lambda>st.
          bindL (f st) (\<lambda>(r, st').
          bindL (Some (store_ring m mp st')) (\<lambda>m'.
          Some (Inr (r, set_mapped_bytes addr m' w)))))))"

section \<open>File images\<close>

definition header_image :: "Header \<Rightarrow> byte list" where
  "header_image h =
     enc32 (magic h) @ enc16 (version h) @ enc16 (header_size h) @ enc64 (capacity_bytes h) @
     enc64 (control_offset h) @ enc64 (ring_offset h) @ enc64 (alignment h) @ enc64 (header_flags h)"

lemma length_header_image [simp]: "length (header_image h) = 48"
  by (simp add: header_image_def)

text \<open>Every 48 bytes are the image of some header.\<close>

lemma enc_dec:
  "length bs = 2 \<Longrightarrow> enc16 (dec16 bs) = bs" "length bs = 4 \<Longrightarrow> enc32 (dec32 bs) = bs"
  "length bs = 8 \<Longrightarrow> enc64 (dec64 bs) = bs"
  using le_val_bound [of bs] le_bytes_le_val [of bs]
  by (simp_all add: enc16_def enc32_def enc64_def dec16_def dec32_def dec64_def unat_of_nat)

lemma header_image_surj:
  assumes "length bs = 48"
  shows "\<exists>h. bs = header_image h"
proof
  let ?r = "mem_read bs"
  have "bs = ?r 0 4 @ ?r 4 2 @ ?r 6 2 @ ?r 8 8 @ ?r 16 8 @ ?r 24 8 @ ?r 32 8 @ ?r 40 8"
    using assms mem_read_all [of bs] mem_read_split [of bs 0 4 44] mem_read_split [of bs 4 2 42]
      mem_read_split [of bs 6 2 40] mem_read_split [of bs 8 8 32] mem_read_split [of bs 16 8 24]
      mem_read_split [of bs 24 8 16] mem_read_split [of bs 32 8 8]
    by simp
  then show "bs = header_image \<lparr>magic = dec32 (?r 0 4), version = dec16 (?r 4 2),
      header_size = dec16 (?r 6 2), capacity_bytes = dec64 (?r 8 8), control_offset = dec64 (?r 16 8),
      ring_offset = dec64 (?r 24 8), alignment = dec64 (?r 32 8), header_flags = dec64 (?r 40 8)\<rparr>"
    using assms by (simp add: header_image_def enc_dec)
qed

lemma store_header_image:
  "run_store (Store32 0 a) (header_image h @ r) = Inr (header_image (h\<lparr>magic := a\<rparr>) @ r)"
  "run_store (Store16 4 b) (header_image h @ r) = Inr (header_image (h\<lparr>version := b\<rparr>) @ r)"
  "run_store (Store16 6 b) (header_image h @ r) = Inr (header_image (h\<lparr>header_size := b\<rparr>) @ r)"
  "run_store (Store64 8 c) (header_image h @ r) = Inr (header_image (h\<lparr>capacity_bytes := c\<rparr>) @ r)"
  "run_store (Store64 16 c) (header_image h @ r) = Inr (header_image (h\<lparr>control_offset := c\<rparr>) @ r)"
  "run_store (Store64 24 c) (header_image h @ r) = Inr (header_image (h\<lparr>ring_offset := c\<rparr>) @ r)"
  "run_store (Store64 32 c) (header_image h @ r) = Inr (header_image (h\<lparr>alignment := c\<rparr>) @ r)"
  "run_store (Store64 40 c) (header_image h @ r) = Inr (header_image (h\<lparr>header_flags := c\<rparr>) @ r)"
  by (simp_all add: typed_access_defs exec_simps mem_write_def header_image_def)

lemma load_header_image:
  "load_u32 (header_image h @ r) 0 = Inr (magic h)"
  "load_u16 (header_image h @ r) 4 = Inr (version h)"
  "load_u64 (header_image h @ r) 8 = Inr (capacity_bytes h)"
  "load_u64 (header_image h @ r) 16 = Inr (control_offset h)"
  "load_u64 (header_image h @ r) 24 = Inr (ring_offset h)"
  "load_u64 (header_image h @ r) 40 = Inr (header_flags h)"
  by (simp_all add: typed_access_defs exec_simps mem_read_def header_image_def)

definition zero_header :: Header where
  "zero_header =
     \<lparr>magic = 0, version = 0, header_size = 0, capacity_bytes = 0, control_offset = 0,
      ring_offset = 0, alignment = 0, header_flags = 0\<rparr>"

definition created_header :: "u64 \<Rightarrow> u64 \<Rightarrow> Header" where
  "created_header cap flags =
     \<lparr>magic = kMagic, version = kVersion, header_size = 48, capacity_bytes = cap,
      control_offset = 64, ring_offset = 384, alignment = kAlignment, header_flags = flags\<rparr>"

lemma le_bytes_zero: "le_bytes n 0 = replicate n 0"
  by (induction n) auto

lemma enc_zero: "enc16 0 = replicate 2 0" "enc32 0 = replicate 4 0" "enc64 0 = replicate 8 0"
  by (simp_all add: enc16_def enc32_def enc64_def le_bytes_zero)

lemma header_image_zero: "header_image zero_header = replicate 48 0"
  by (simp add: header_image_def zero_header_def enc_zero flip: replicate_add)

lemma zero_image: "48 \<le> n \<Longrightarrow> replicate n 0 = header_image zero_header @ replicate (n - 48) 0"
  unfolding header_image_zero by (metis le_add_diff_inverse replicate_add)

lemma created_header_image:
  "run_stores (create_header_stores cap flags) (header_image h @ r) =
     Inr (header_image (created_header cap flags) @ r)"
  by (cases h) (simp add: create_header_stores_def store_header_image created_header_def
      del: run_store.simps)

text \<open>A store of zero among zeros changes nothing.\<close>

lemma store_zero_tail:
  assumes "48 \<le> a" "a + 8 \<le> 48 + n"
  shows "run_store (Store64 a 0) (header_image h @ replicate n 0) = Inr (header_image h @ replicate n 0)"
proof -
  have "mem_write (header_image h @ replicate n 0) a (enc64 0) = header_image h @ replicate n 0"
    by (rule nth_equalityI) (use assms in \<open>auto simp: nth_mem_write enc_zero nth_append\<close>)
  then show ?thesis
    using assms by (simp add: typed_access_defs exec_simps)
qed

lemma create_control_image:
  assumes "280 \<le> n"
  shows "run_stores (create_control_stores 64) (header_image h @ replicate n 0) =
    Inr (header_image h @ replicate n 0)"
  using assms by (simp add: create_control_stores_def store_zero_tail del: run_store.simps)

text \<open>
  The bytes of a file that \<open>create_mapping\<close> made and the primitives worked on: its header, and the
  ring it holds.
\<close>

definition ring_file :: "u64 \<Rightarrow> u64 \<Rightarrow> ring_state \<Rightarrow> memory \<Rightarrow> bool" where
  "ring_file cap flags st m \<longleftrightarrow>
     take 48 m = header_image (created_header cap flags) \<and> length m = 384 + unat cap \<and>
     length m < 2 ^ 63 \<and> control_of m 64 = control st \<and> mem_read m 384 (unat cap) = ring st \<and>
     capacity st = cap"

definition file_mapping :: "int \<Rightarrow> u64 \<Rightarrow> u64 \<Rightarrow> Mapping" where
  "file_mapping fd addr cap =
     \<lparr>m_fd = fd, m_mapping = Some addr, m_size = 384 + cap, m_header = Some 0,
      m_control = Some 64, m_ring = Some 384, m_capacity = cap\<rparr>"

lemma ring_file_header:
  assumes "ring_file cap flags st m"
  shows "m = header_image (created_header cap flags) @ drop 48 m"
  using assms by (metis append_take_drop_id ring_file_def)

lemma ring_file_load:
  "ring_file cap flags st m \<Longrightarrow> load_ring m (file_mapping fd addr cap) = Inr st"
  by (simp add: ring_file_def load_ring_def file_mapping_def)

lemma ring_file_sizes: "ring_file cap flags st m \<Longrightarrow> length (ring st) = unat cap \<and> capacity st = cap"
  by (metis add.commute le_refl length_mem_read ring_file_def)

lemma run_stores_ok:
  assumes "\<forall>s \<in> set ss. case s of Store64 a v \<Rightarrow> a + 8 \<le> length m | _ \<Rightarrow> False"
  shows "run_stores ss m =
    Inr (fold (\<lambda>s m. case s of Store64 a v \<Rightarrow> mem_write m a (enc64 v) | _ \<Rightarrow> m) ss m)"
  using assms
proof (induction ss arbitrary: m)
  case Nil
  then show ?case by simp
next
  case (Cons s ss)
  then obtain a v where s: "s = Store64 a v" "a + 8 \<le> length m" by (cases s) auto
  then have "\<forall>s \<in> set ss. case s of Store64 b u \<Rightarrow> b + 8 \<le> length (mem_write m a (enc64 v)) | _ \<Rightarrow> False"
    using Cons.prems by (simp cong: store_op.case_cong)
  with Cons.IH [OF this] s show ?case by (simp add: typed_access_defs exec_simps)
qed

text \<open>Writing a ring back keeps the header, and the file then holds that ring.\<close>

lemma store_ring_file:
  assumes "ring_file cap flags st m" "length (ring st') = unat cap" "capacity st' = cap"
  shows "\<exists>m'. store_ring m (file_mapping fd addr cap) st' = Inr m' \<and> ring_file cap flags st' m'"
proof -
  have len: "length m = 384 + unat cap" "length m < 2 ^ 63" using assms(1) by (auto simp: ring_file_def)
  define m1 where "m1 = fold (\<lambda>s m. case s of Store64 a v \<Rightarrow> mem_write m a (enc64 v) | _ \<Rightarrow> m)
    (control_stores 64 (control st')) m"
  have r: "run_stores (control_stores 64 (control st')) m = Inr m1"
    unfolding m1_def by (rule run_stores_ok) (simp add: control_stores_def len)
  have l1: "length m1 = length m" by (simp add: m1_def control_stores_def len)
  have h1: "mem_read m1 0 48 = mem_read m 0 48"
    by (simp add: m1_def control_stores_def len mem_read_write_disj)
  have c1: "control_of m1 64 = control st'"
    by (simp add: m1_def control_stores_def control_of_def len mem_read_write_disj
        mem_read_write_same [of _ "enc64 _", simplified])
  let ?m = "mem_write m1 384 (ring st')"
  have "store_ring m (file_mapping fd addr cap) st' = Inr ?m"
    using assms(2) by (simp add: store_ring_def file_mapping_def r store_bytes_ok l1 len)
  moreover have "mem_read ?m 0 48 = mem_read m 0 48" "control_of ?m 64 = control st'"
    using assms(2) h1 c1 by (simp_all add: control_of_def mem_read_write_disj l1 len)
  moreover have "mem_read ?m 384 (unat cap) = ring st'"
    using mem_read_write_same [of 384 "ring st'" m1] assms(2) l1 len by simp
  ultimately show ?thesis
    using assms l1 len by (simp add: ring_file_def mem_read_def)
qed

section \<open>Creating and opening\<close>

text \<open>Requested sizes whose file does not exceed what \<open>off_t\<close> can express.\<close>

definition size_ok :: "u64 \<Rightarrow> bool" where
  "size_ok bytes \<longleftrightarrow> 0 < unat bytes \<and> unat bytes + 400 \<le> 2 ^ 63"

lemma size_okD:
  assumes "size_ok bytes"
  defines "cap \<equiv> align_up bytes kAlignment"
  shows "bytes \<noteq> 0" "unat bytes \<le> unat cap" "unat cap < unat bytes + 8" "8 dvd unat cap"
    "unat (384 + cap) = 384 + unat cap" "\<not> 384 + cap \<ge> 2 ^ 63" "384 + cap \<noteq> 0"
    "0 < unat cap" "384 + unat cap < 2 ^ 63"
proof -
  have b: "0 < unat bytes" "unat bytes + 400 \<le> 2 ^ 63" using assms(1) by (auto simp: size_ok_def)
  then show "bytes \<noteq> 0" by auto
  have "unat bytes + 8 \<le> 2 ^ 64" using b(2) by simp
  note A = unat_align_up_8_bounds [OF this, folded cap_def]
  show "unat bytes \<le> unat cap" "unat cap < unat bytes + 8" "8 dvd unat cap" by (rule A)+
  show "0 < unat cap" using A b by linarith
  show lt: "384 + unat cap < 2 ^ 63" using A(3) b(2) by linarith
  then show u: "unat (384 + cap) = 384 + unat cap" by (simp add: unat_plus_if')
  show "\<not> 384 + cap \<ge> 2 ^ 63" using lt by (simp add: word_le_nat_alt u)
  show "384 + cap \<noteq> 0" using u by (metis add_is_0 unat_0 zero_neq_numeral)
qed

text \<open>The zeroed ring of \<open>n\<close> bytes in a new file.\<close>

lemma created_file:
  assumes "384 + unat cap < 2 ^ 63"
  shows "ring_file cap flags (empty_ring (unat cap))
    (header_image (created_header cap flags) @ replicate (336 + unat cap) 0)"
proof -
  have z: "mem_read (header_image h @ replicate (336 + unat cap) 0) a n = replicate n 0"
    if "48 \<le> a" "a + n \<le> 384 + unat cap" for h a n
    using that by (simp add: mem_read_def)
  have d: "dec64 (replicate 8 0) = 0"
    using dec_enc(3) [of 0] by (simp only: enc_zero)
  show ?thesis
    using assms by (simp add: ring_file_def control_of_def z d empty_ring_def)
qed

lemma create_mapping_ok:
  fixes flags :: u64
  assumes "can_create env" "files w path = None" "size_ok bytes"
  defines "cap \<equiv> align_up bytes kAlignment"
  defines "m \<equiv> header_image (created_header cap flags) @ replicate (336 + unat cap) 0"
  shows "create_mapping env path bytes flags w =
    Inr (Inr (file_mapping (new_fd env) (new_addr env) cap),
      w\<lparr>files := (files w)(path \<mapsto> m), fds := (fds w)(new_fd env \<mapsto> path),
        maps := (maps w)(new_addr env \<mapsto> (path, 384 + cap))\<rparr>)"
proof -
  note S = size_okD [OF assms(3), folded cap_def]
  have img: "replicate (384 + unat cap) 0 = header_image zero_header @ replicate (336 + unat cap) 0"
    using zero_image [of "384 + unat cap"] by simp
  have st: "run_stores (create_header_stores cap flags) (replicate (384 + unat cap) 0) = Inr m"
    unfolding img m_def by (rule created_header_image)
  have ld: "load_u64 m 16 = Inr 64" "load_u64 m 24 = Inr 384"
    by (simp_all add: m_def load_header_image created_header_def)
  have ct: "run_stores (create_control_stores 64) m = Inr m"
    using create_control_image [of "336 + unat cap"] by (simp add: m_def)
  show ?thesis
    using assms(1,2) S
    by (simp add: create_mapping_def Let_def cap_def [symmetric] sys_open_create_def can_create_def
        sys_ftruncate_def sys_mmap_def vector_resize_def st ld ct set_mapped_bytes_def file_mapping_def)
qed

text \<open>Opening, given what the header of the file says.\<close>

lemma open_mapping_image:
  assumes "os_ok env w" "can_open env" "files w path = Some (header_image h @ r)"
    "length (header_image h @ r) < 2 ^ 63"
  defines "n \<equiv> of_nat (48 + length r) :: u64"
  defines "w1 \<equiv> w\<lparr>fds := (fds w)(new_fd env \<mapsto> path)\<rparr>"
  shows "open_mapping env path flags w =
    Inr (if magic h \<noteq> kMagic then (Inl (runtime_error ''invalid ring buffer magic''), w)
     else if version h \<noteq> kVersion then (Inl (runtime_error ''unsupported ring buffer version''), w)
     else if header_flags h \<noteq> flags then (Inl (runtime_error ''ring buffer mode mismatch''), w)
     else if ring_offset h + capacity_bytes h > n
     then (Inl (runtime_error ''ring buffer mapping size mismatch''), w)
     else if control_offset h + 320 > n
     then (Inl (runtime_error ''ring buffer control block out of range''), w)
     else (Inr \<lparr>m_fd = new_fd env, m_mapping = Some (new_addr env), m_size = n,
                m_header = Some 0, m_control = Some (control_offset h), m_ring = Some (ring_offset h),
                m_capacity = capacity_bytes h\<rparr>,
           w1\<lparr>maps := (maps w)(new_addr env \<mapsto> (path, n))\<rparr>))"
proof -
  have "sys_mmap env (new_fd env) n w1 = Some (new_addr env, w1\<lparr>maps := (maps w)(new_addr env \<mapsto> (path, n))\<rparr>)"
  proof -
    have "unat n = 48 + length r"
      using assms(4) unfolding n_def by (intro unat_of_nat_small) simp
    then have "n \<noteq> 0" by auto
    then show ?thesis using assms(2) by (simp add: sys_mmap_def can_open_def w1_def)
  qed
  moreover have "sys_fstat env (new_fd env) w1 = Some (48 + length r)"
    using assms(2,3) by (simp add: sys_fstat_def can_open_def w1_def)
  moreover have "sys_open env path w = Some (new_fd env, w1)"
    using assms(2,3) by (simp add: sys_open_def can_open_def w1_def)
  moreover have "sys_close (new_fd env) (sys_munmap (new_addr env)
      (w1\<lparr>maps := (maps w)(new_addr env \<mapsto> (path, n))\<rparr>)) = w"
    using assms(1) by (simp add: sys_close_def sys_munmap_def w1_def os_ok_def fun_upd_idem)
  moreover have "mapped_bytes (w1\<lparr>maps := (maps w)(new_addr env \<mapsto> (path, n))\<rparr>) (new_addr env) =
      Inr (header_image h @ r)"
    using assms(3) by (simp add: mapped_bytes_def w1_def)
  moreover have "48 + of_nat (length r) = n" by (simp add: n_def)
  ultimately show ?thesis
    by (simp add: open_mapping_def Let_def load_header_image)
qed

lemma open_ring_file:
  assumes "os_ok env w" "can_open env" "files w path = Some m" "ring_file cap flags st m"
  shows "open_mapping env path expected w =
    Inr (if expected = flags
      then (Inr (file_mapping (new_fd env) (new_addr env) cap),
            w\<lparr>fds := (fds w)(new_fd env \<mapsto> path),
              maps := (maps w)(new_addr env \<mapsto> (path, 384 + cap))\<rparr>)
      else (Inl (runtime_error ''ring buffer mode mismatch''), w))"
proof -
  have len: "length m = 384 + unat cap" "length m < 2 ^ 63" using assms(4) by (auto simp: ring_file_def)
  define r where "r = drop 48 m"
  let ?h = "created_header cap flags"
  have m: "m = header_image ?h @ r" using ring_file_header [OF assms(4)] by (simp add: r_def)
  have lr: "length r = 336 + unat cap" using len by (simp add: r_def)
  have u: "unat (384 + cap) = 384 + unat cap" using len by (simp add: unat_plus_if')
  have "\<not> (64 + 320 :: u64) > 384 + cap"
    by (simp add: word_less_nat_alt u)
  moreover have "(of_nat (48 + length r) :: u64) = 384 + cap" by (simp add: lr)
  ultimately show ?thesis
    using open_mapping_image [OF assms(1,2), of path ?h r expected] assms(3) len(2) m
    by (auto simp: created_header_def file_mapping_def simp del: of_nat_add)
qed

section \<open>Properties\<close>

text \<open>
  C16. Creating a file that does not exist succeeds for every size up to what \<open>off_t\<close> allows: the
  capacity is the requested size rounded up to the next multiple of eight, the file is as long as
  \<open>required_mapping_size\<close> says, and the mapping shows an empty ring with all counters zero.
\<close>

theorem create_mapping_makes_empty_ring:
  assumes "can_create env" "files w path = None" "size_ok bytes"
  shows "\<exists>mp w' m. create_mapping env path bytes flags w = Inr (Inr mp, w') \<and>
    m_capacity mp = align_up bytes kAlignment \<and>
    files w' = (files w)(path \<mapsto> m) \<and> length m = unat (required_mapping_size bytes) \<and>
    fds w' = (fds w)(m_fd mp \<mapsto> path) \<and> m_mapping mp = Some (new_addr env) \<and>
    mapped_bytes w' (new_addr env) = Inr m \<and>
    load_ring m mp = Inr (empty_ring (unat (m_capacity mp)))"
proof -
  let ?cap = "align_up bytes kAlignment"
  note S = size_okD [OF assms(3)]
  have "unat (required_mapping_size bytes) = 384 + unat ?cap"
    using S(5) by (simp add: required_mapping_size_def Let_def)
  then show ?thesis
    using create_mapping_ok [OF assms, of flags] ring_file_load [OF created_file [OF S(9)]]
    by (simp add: file_mapping_def mapped_bytes_def)
qed

definition example_env :: os_env where
  "example_env = \<lparr>open_fails = False, ftruncate_fails = False, fstat_fails = False,
     mmap_fails = False, new_fd = 3, new_addr = 0x7000\<rparr>"

definition no_files :: world where
  "no_files = \<lparr>files = Map.empty, fds = Map.empty, maps = Map.empty\<rparr>"

lemma example_env_ok: "can_create example_env" "can_open example_env" "os_ok example_env no_files" "files no_files p = None"
  by (simp_all add: can_create_def can_open_def example_env_def os_ok_def no_files_def)

theorem create_mapping_makes_empty_ring_witness:
  "\<exists>mp w' m. create_mapping example_env ''/dev/shm/a'' 100 kFlagSPSC no_files = Inr (Inr mp, w') \<and>
    length m = unat (required_mapping_size 100) \<and> load_ring m mp = Inr (empty_ring 104)"
proof -
  have c: "align_up 100 kAlignment = 104" by (simp add: align_up_def kAlignment_def)
  have "size_ok 100" by (simp add: size_ok_def)
  from create_mapping_makes_empty_ring [OF example_env_ok(1,4) this, of "''/dev/shm/a''" kFlagSPSC]
  show ?thesis by (auto simp: c)
qed

text \<open>
  C17. Opening never faults, whatever the file holds, and is clean: when it throws, no file has
  changed and neither a descriptor nor a mapping is left behind; when it returns, exactly the
  returned descriptor and mapping are new.
\<close>

theorem open_mapping_total_and_clean:
  assumes "os_ok env w" "\<forall>m. files w path = Some m \<longrightarrow> length m < 2 ^ 63"
  shows "\<exists>res w'. open_mapping env path flags w = Inr (res, w') \<and>
    (case res of
       Inl e \<Rightarrow> w' = w
     | Inr mp \<Rightarrow> files w' = files w \<and> fds w' = (fds w)(m_fd mp \<mapsto> path) \<and>
         (\<exists>a. m_mapping mp = Some a \<and> maps w' = (maps w)(a \<mapsto> (path, m_size mp))))"
proof (cases "can_open env \<and> (\<exists>m. files w path = Some m \<and> 48 \<le> length m)")
  case True
  then obtain m where m: "files w path = Some m" "48 \<le> length m" and nf: "can_open env" by auto
  obtain h where h: "take 48 m = header_image h" using header_image_surj [of "take 48 m"] m(2) by auto
  then have "m = header_image h @ drop 48 m" by (metis append_take_drop_id)
  moreover have "length m < 2 ^ 63" using assms(2) m(1) by blast
  ultimately show ?thesis
    using open_mapping_image [OF assms(1) nf, of path h "drop 48 m" flags] m(1) by auto
next
  case False
  have u: "(fds w)(new_fd env := None) = fds w" using assms(1) by (auto simp: os_ok_def)
  show ?thesis
    using False
    by (auto simp: open_mapping_def sys_open_def sys_fstat_def sys_mmap_def sys_close_def Let_def
        can_open_def u not_le split: option.splits if_splits)
qed

theorem open_mapping_total_and_clean_witness:
  "\<exists>res w'. open_mapping example_env ''/dev/shm/a'' kFlagSPSC no_files = Inr (res, w') \<and>
    files w' = files no_files"
proof -
  have "\<forall>m. files no_files ''/dev/shm/a'' = Some m \<longrightarrow> length m < 2 ^ 63" by (simp add: example_env_ok)
  from open_mapping_total_and_clean [OF example_env_ok(3) this, of kFlagSPSC]
  obtain res w' where r: "open_mapping example_env ''/dev/shm/a'' kFlagSPSC no_files = Inr (res, w')"
    and "case res of Inl e \<Rightarrow> w' = no_files | Inr mp \<Rightarrow> files w' = files no_files \<and>
      fds w' = (fds no_files)(m_fd mp \<mapsto> ''/dev/shm/a'') \<and>
      (\<exists>a. m_mapping mp = Some a \<and> maps w' = (maps no_files)(a \<mapsto> (''/dev/shm/a'', m_size mp)))"
    by blast
  then have "files w' = files no_files" by (cases res) auto
  with r show ?thesis by blast
qed

text \<open>
  C18. Creating never takes over an existing file: it throws and changes nothing. Whenever it
  throws it leaves neither a descriptor nor a mapping behind, and no other file changes; the
  only trace can be the new file itself, which is not removed.
\<close>

theorem create_mapping_throws_clean:
  assumes "os_ok env w" "create_mapping env path bytes flags w = Inr (Inl e, w')"
  shows "fds w' = fds w \<and> maps w' = maps w \<and> (\<forall>q. q \<noteq> path \<longrightarrow> files w' q = files w q) \<and>
    (files w path \<noteq> None \<longrightarrow> w' = w)"
proof -
  have u: "(fds w)(new_fd env := None) = fds w" using assms(1) by (auto simp: os_ok_def)
  show ?thesis
    using assms(2) u
    by (auto simp: create_mapping_def Let_def sys_open_create_def sys_ftruncate_def sys_mmap_def
        sys_close_def bindE_eq_Inr split: if_splits option.splits)
qed

text \<open>A file of the same name that already exists.\<close>

definition file_present :: world where
  "file_present = no_files\<lparr>files := [''/dev/shm/a'' \<mapsto> [1, 2, 3]]\<rparr>"

theorem create_mapping_throws_clean_witness:
  "\<exists>e. create_mapping example_env ''/dev/shm/a'' 100 kFlagSPSC file_present = Inr (Inl e, file_present)"
proof -
  have ok: "os_ok example_env file_present"
    by (simp add: os_ok_def example_env_def file_present_def no_files_def)
  have c: "create_mapping example_env ''/dev/shm/a'' 100 kFlagSPSC file_present =
      Inr (Inl (errno_error ''open (create) failed''), file_present)"
    by (simp add: create_mapping_def Let_def sys_open_create_def file_present_def no_files_def)
  with create_mapping_throws_clean [OF ok c] show ?thesis by auto
qed

text \<open>
  A process that opens a file while another is still writing its header never gets a mapping:
  the flags are stored last, so until then one of the checks fails. (Stores become visible in
  program order.)
\<close>

theorem open_during_create_throws:
  assumes "os_ok env w" "can_open env" "flags \<noteq> 0" "48 \<le> n" "n < 2 ^ 63" "k < 8"
    and "run_stores (take k (create_header_stores cap flags)) (replicate n 0) = Inr m"
    and "files w path = Some m"
  shows "\<exists>msg. open_mapping env path flags w = Inr (Inl (runtime_error msg), w)"
proof -
  let ?r = "replicate (n - 48) (0 :: byte)"
  obtain h where h: "m = header_image h @ ?r" "header_flags h = 0"
  proof -
    have "k \<in> {0, 1, 2, 3, 4, 5, 6, 7}" using assms(6) by auto
    with assms(7) show ?thesis
      unfolding zero_image [OF assms(4)]
      by (elim insertE emptyE)
        (auto simp: create_header_stores_def store_header_image zero_header_def that
          simp del: run_store.simps)
  qed
  have f: "files w path = Some (header_image h @ ?r)" using assms(8) h(1) by simp
  have "length (header_image h @ ?r) < 2 ^ 63" using assms(4,5) by simp
  from open_mapping_image [OF assms(1,2) f this, of flags] assms(3) h(2) show ?thesis
    by auto
qed

theorem open_during_create_throws_witness:
  "\<exists>m msg. run_stores (take 4 (create_header_stores 64 kFlagSPSC)) (replicate 448 0) = Inr m \<and>
    open_mapping example_env ''a'' kFlagSPSC (no_files\<lparr>files := [''a'' \<mapsto> m]\<rparr>) =
      Inr (Inl (runtime_error msg), no_files\<lparr>files := [''a'' \<mapsto> m]\<rparr>)"
proof -
  obtain m where m: "run_stores (take 4 (create_header_stores 64 kFlagSPSC)) (replicate 448 0) = Inr m"
    unfolding zero_image [of 448, simplified]
    by (simp add: create_header_stores_def store_header_image zero_header_def del: run_store.simps)
  have "\<exists>msg. open_mapping example_env ''a'' kFlagSPSC (no_files\<lparr>files := [''a'' \<mapsto> m]\<rparr>) =
      Inr (Inl (runtime_error msg), no_files\<lparr>files := [''a'' \<mapsto> m]\<rparr>)"
  proof (rule open_during_create_throws [OF _ _ _ _ _ _ m])
    show "os_ok example_env (no_files\<lparr>files := [''a'' \<mapsto> m]\<rparr>)"
      by (simp add: os_ok_def example_env_def no_files_def)
  qed (simp_all add: example_env_ok kFlagSPSC_def)
  with m show ?thesis by blast
qed

text \<open>
  Nothing guards the size computation of \<open>create_mapping\<close> against wrap-around: a request of
  \<open>2^64 - 8\<close> bytes succeeds, with a file of 376 bytes and a mapping that claims the full capacity.
\<close>

theorem create_mapping_size_wraps:
  assumes "can_create env" "files w path = None"
  shows "\<exists>mp w' m. create_mapping env path (- 8) flags w = Inr (Inr mp, w') \<and>
    unat (m_capacity mp) = 2 ^ 64 - 8 \<and> files w' path = Some m \<and> length m = 376 \<and>
    load_ring m mp = Inl OutOfBounds"
proof -
  let ?m = "header_image (created_header (- 8) flags) @ replicate 328 0"
  have cap: "align_up (- 8) kAlignment = - 8" by (simp add: align_up_def kAlignment_def)
  have st: "run_stores (create_header_stores (- 8) flags) (replicate 376 0) = Inr ?m"
    using created_header_image [of "- 8" flags zero_header "replicate 328 0"] zero_image [of 376] by simp
  have ld: "load_u64 ?m 16 = Inr 64" "load_u64 ?m 24 = Inr 384"
    by (simp_all add: load_header_image created_header_def)
  have ct: "run_stores (create_control_stores 64) ?m = Inr ?m" by (simp add: create_control_image)
  show ?thesis
    using assms
    by (simp add: create_mapping_def Let_def cap sys_open_create_def can_create_def
        sys_ftruncate_def sys_mmap_def vector_resize_def st ld ct set_mapped_bytes_def load_ring_def)
qed

theorem create_mapping_size_wraps_witness:
  "\<exists>mp w' m. create_mapping example_env ''a'' (- 8) kFlagMPSC no_files = Inr (Inr mp, w') \<and>
    unat (m_capacity mp) = 2 ^ 64 - 8 \<and> files w' ''a'' = Some m \<and> length m = 376"
  using create_mapping_size_wraps [OF example_env_ok(1,4), of "''a''" kFlagMPSC] by blast

text \<open>
  The range checks of \<open>open_mapping\<close> wrap around too: a file whose header puts a ring of 16
  bytes at offset \<open>2^64 - 8\<close> is accepted, and the ring lies outside the mapping.
\<close>

theorem open_mapping_check_wraps:
  assumes "os_ok env w" "can_open env" "400 \<le> length r" "length r < 2 ^ 62"
    and "files w path = Some (header_image ((created_header 16 flags)\<lparr>ring_offset := - 8\<rparr>) @ r)"
  shows "\<exists>mp w'. open_mapping env path flags w = Inr (Inr mp, w') \<and>
    load_ring (header_image ((created_header 16 flags)\<lparr>ring_offset := - 8\<rparr>) @ r) mp = Inl OutOfBounds"
proof -
  let ?h = "(created_header 16 flags)\<lparr>ring_offset := - 8\<rparr>"
  have u: "unat (of_nat (48 + length r) :: u64) = 48 + length r"
    using assms(4) by (intro unat_of_nat_small) simp
  have l: "length (header_image ?h @ r) < 2 ^ 63" using assms(4) by simp
  have c: "\<not> (8 :: u64) > of_nat (48 + length r)" "\<not> (384 :: u64) > of_nat (48 + length r)"
    using assms(3) unfolding word_less_nat_alt u by simp_all
  have "unat (- 8 :: u64) = 2 ^ 64 - 8" by simp
  then show ?thesis
    using open_mapping_image [OF assms(1,2,5) l, of flags] c assms(3,4)
    by (simp add: created_header_def load_ring_def del: of_nat_add)
qed

theorem open_mapping_check_wraps_witness:
  "\<exists>mp w'. open_mapping example_env ''a'' 4 (no_files\<lparr>files := [''a'' \<mapsto>
      header_image ((created_header 16 4)\<lparr>ring_offset := - 8\<rparr>) @ replicate 400 0]\<rparr>) = Inr (Inr mp, w')"
proof -
  let ?m = "header_image ((created_header 16 4)\<lparr>ring_offset := - 8\<rparr>) @ replicate 400 0"
  have "os_ok example_env (no_files\<lparr>files := [''a'' \<mapsto> ?m]\<rparr>)"
    by (simp add: os_ok_def example_env_def no_files_def)
  from open_mapping_check_wraps [OF this example_env_ok(2), of "replicate 400 0" "''a''" 4] show ?thesis
    by auto
qed

text \<open>A mapping object owns an open descriptor and a live mapping of a file.\<close>

definition owns :: "Mapping \<Rightarrow> world \<Rightarrow> bool" where
  "owns mp w \<longleftrightarrow> 0 \<le> m_fd mp \<and> fds w (m_fd mp) \<noteq> None \<and> m_size mp \<noteq> 0 \<and>
     (case m_mapping mp of None \<Rightarrow> False | Some a \<Rightarrow> maps w a \<noteq> None)"

text \<open>
  Move assignment hands over ownership: the target releases exactly the descriptor and the
  mapping it owned, then owns what the source owned, and the emptied source releases nothing
  when it is destroyed.
\<close>

theorem move_assign_transfers:
  assumes "owns target w" "owns other w" "m_fd target \<noteq> m_fd other" "m_mapping target \<noteq> m_mapping other"
  shows "\<exists>a w'. m_mapping target = Some a \<and> move_assign target other w = (other, null_mapping, w') \<and>
    owns other w' \<and> files w' = files w \<and> fds w' = (fds w)(m_fd target := None) \<and>
    maps w' = (maps w)(a := None) \<and> reset null_mapping w' = (null_mapping, w')"
  using assms
  by (auto simp: owns_def move_assign_def reset_def Let_def null_mapping_def sys_munmap_def
      sys_close_def word_neq_0_conv split: option.splits)

theorem move_assign_transfers_witness:
  "\<exists>w'. move_assign (file_mapping 3 10 8) (file_mapping 4 20 8)
      (no_files\<lparr>fds := [3 \<mapsto> ''a'', 4 \<mapsto> ''b''], maps := [10 \<mapsto> (''a'', 392), 20 \<mapsto> (''b'', 392)]\<rparr>) =
    (file_mapping 4 20 8, null_mapping, w') \<and> owns (file_mapping 4 20 8) w'"
proof -
  let ?w = "no_files\<lparr>fds := [3 \<mapsto> ''a'', 4 \<mapsto> ''b''],
    maps := [10 \<mapsto> (''a'', 392), 20 \<mapsto> (''b'', 392)]\<rparr>"
  have "owns (file_mapping 3 10 8) ?w" "owns (file_mapping 4 20 8) ?w"
    by (simp_all add: owns_def file_mapping_def)
  from move_assign_transfers [OF this] show ?thesis by (auto simp: file_mapping_def)
qed

end
