(* ===== verification/Ring_Files.thy ===== *)
theory Ring_Files
  imports Shared_Memory_Mapping Shared_Ring_Buffer_SPSC Shared_Ring_Buffer_MPMC
begin

text \<open>
  The byte rings on their files: \<open>create\<close>, \<open>open\<close> and \<open>claim\<close> of the three classes, and what holds
  when several processes work on one file one after the other.
\<close>

section \<open>Factories\<close>

definition SharedRingBuffer_create ::
  "os_env \<Rightarrow> string \<Rightarrow> u64 \<Rightarrow> world \<Rightarrow> ((exn + Mapping) \<times> world) exec" where
  "SharedRingBuffer_create env path bytes w = create_mapping env path bytes kFlagMPSC w"

definition SharedRingBuffer_open ::
  "os_env \<Rightarrow> string \<Rightarrow> world \<Rightarrow> ((exn + Mapping) \<times> world) exec" where
  "SharedRingBuffer_open env path w = open_mapping env path kFlagMPSC w"

definition mpmc_create :: "os_env \<Rightarrow> string \<Rightarrow> u64 \<Rightarrow> world \<Rightarrow> ((exn + Mapping) \<times> world) exec" where
  "mpmc_create env path bytes w = create_mapping env path bytes kFlagMPMC w"

definition mpmc_open :: "os_env \<Rightarrow> string \<Rightarrow> world \<Rightarrow> ((exn + Mapping) \<times> world) exec" where
  "mpmc_open env path w = open_mapping env path kFlagMPMC w"

definition spsc_create :: "os_env \<Rightarrow> string \<Rightarrow> u64 \<Rightarrow> world \<Rightarrow> ((exn + Mapping) \<times> world) exec" where
  "spsc_create env path bytes w = create_mapping env path bytes kFlagSPSC w"

definition spsc_open :: "os_env \<Rightarrow> string \<Rightarrow> world \<Rightarrow> ((exn + Mapping) \<times> world) exec" where
  "spsc_open env path w = open_mapping env path kFlagSPSC w"

text \<open>
  \<open>SharedRingBufferSPSC::claim\<close>. The middle component is the value stored through \<open>result_out\<close>,
  \<open>None\<close> when an exception leaves it untouched.
\<close>

definition sync_tail_reserve :: "ring_state \<Rightarrow> ring_state" where
  "sync_tail_reserve st = st\<lparr>control := (control st)\<lparr>tail_reserve := tail_publish (control st)\<rparr>\<rparr>"

definition spsc_claim ::
  "os_env \<Rightarrow> string \<Rightarrow> u64 \<Rightarrow> world \<Rightarrow> ((exn + Mapping) \<times> ClaimResult option \<times> world) exec option"
where
  "spsc_claim env path bytes w =
     (if files w path = None then
        bindL (Some (create_mapping env path bytes kFlagSPSC w)) (\<lambda>(res, w1).
          Some (Inr (res, Some kCreated, w1)))
      else
        bindL (Some (open_mapping env path kFlagSPSC w)) (\<lambda>(res, w1).
          case res of
            Inl e \<Rightarrow> Some (Inr (Inl e, None, w1))
          | Inr mp \<Rightarrow>
              bindL (on_ring mp (\<lambda>st. Some (Inr ((), sync_tail_reserve st))) w1) (\<lambda>(_, w2).
                Some (Inr (Inr mp, Some kResumed, w2)))))"

section \<open>Working on a mapped ring\<close>

text \<open>An operation on the mapped ring is the operation on the ring the file holds.\<close>

definition holds_ring :: "string \<Rightarrow> u64 \<Rightarrow> u64 \<Rightarrow> ring_state \<Rightarrow> world \<Rightarrow> bool" where
  "holds_ring path cap flags st w \<longleftrightarrow> (\<exists>m. files w path = Some m \<and> ring_file cap flags st m)"

lemma on_ring_holds:
  assumes "holds_ring path cap flags st w" "maps w addr = Some (path, n)"
    and "f st = Some (Inr (r, st'))" "length (ring st') = unat cap" "capacity st' = cap"
  shows "\<exists>w'. on_ring (file_mapping fd addr cap) f w = Some (Inr (r, w')) \<and>
    holds_ring path cap flags st' w' \<and> fds w' = fds w \<and> maps w' = maps w"
proof -
  obtain m where m: "files w path = Some m" "ring_file cap flags st m"
    using assms(1) by (auto simp: holds_ring_def)
  obtain m' where m': "store_ring m (file_mapping fd addr cap) st' = Inr m'" "ring_file cap flags st' m'"
    using store_ring_file [OF m(2) assms(4,5)] by blast
  have "mapped_bytes w addr = Inr m" using assms(2) m(1) by (simp add: mapped_bytes_def)
  moreover have "m_mapping (file_mapping fd addr cap) = Some addr" by (simp add: file_mapping_def)
  ultimately have "on_ring (file_mapping fd addr cap) f w =
      Some (Inr (r, w\<lparr>files := (files w)(path \<mapsto> m')\<rparr>))"
    using m' ring_file_load [OF m(2)] assms(2,3) by (simp add: on_ring_def set_mapped_bytes_def)
  with m'(2) show ?thesis by (auto simp: holds_ring_def)
qed

lemma create_holds:
  assumes "can_create env" "files w path = None" "size_ok bytes"
  defines "cap \<equiv> align_up bytes kAlignment"
  shows "\<exists>w'. create_mapping env path bytes flags w =
      Inr (Inr (file_mapping (new_fd env) (new_addr env) cap), w') \<and>
    holds_ring path cap flags (empty_ring (unat cap)) w' \<and>
    fds w' = (fds w)(new_fd env \<mapsto> path) \<and> maps w' = (maps w)(new_addr env \<mapsto> (path, 384 + cap))"
  using create_mapping_ok [OF assms(1-3), of flags] created_file size_okD(9) [OF assms(3)]
  by (simp add: holds_ring_def cap_def)

lemma open_holds:
  assumes "os_ok env w" "can_open env" "holds_ring path cap flags st w"
  shows "\<exists>w'. open_mapping env path flags w =
      Inr (Inr (file_mapping (new_fd env) (new_addr env) cap), w') \<and>
    holds_ring path cap flags st w' \<and>
    fds w' = (fds w)(new_fd env \<mapsto> path) \<and> maps w' = (maps w)(new_addr env \<mapsto> (path, 384 + cap))"
  using assms open_ring_file [OF assms(1,2)] by (auto simp: holds_ring_def)

text \<open>A second process that is given its own descriptor and address.\<close>

definition separate :: "os_env \<Rightarrow> os_env \<Rightarrow> world \<Rightarrow> bool" where
  "separate env env' w \<longleftrightarrow>
     os_ok env' w \<and> new_fd env' \<noteq> new_fd env \<and> new_addr env' \<noteq> new_addr env"

lemma separate_os_ok:
  "separate env env' w \<Longrightarrow> fds w' = (fds w)(new_fd env \<mapsto> path) \<Longrightarrow>
     maps w' = (maps w)(new_addr env \<mapsto> r) \<Longrightarrow> os_ok env' w'"
  by (simp add: separate_def os_ok_def)

lemma run_ops_append:
  "run_ops push pop ops st = Some (Inr (rs, st1)) \<Longrightarrow> run_ops push pop ops' st1 = Some (Inr (rs', st2)) \<Longrightarrow>
     run_ops push pop (ops @ ops') st = Some (Inr (rs @ rs', st2))"
  by (induction ops arbitrary: st rs) (fastforce simp: bindL_eq_Inr split: prod.splits)+

lemma run_ops_length: "run_ops push pop ops st = Some (Inr (rs, st')) \<Longrightarrow> length rs = length ops"
  by (induction ops arbitrary: st rs) (fastforce simp: bindL_eq_Inr split: prod.splits)+

context byte_ring
begin

text \<open>
  One process creates a ring and works on it; another opens the file and works on. Together they
  have used one FIFO queue.
\<close>

lemma two_processes:
  assumes "can_create env" "files w path = None" "size_ok bytes" "can_open env'" "separate env env' w"
    and "list_all op_small ops" "list_all op_small ops'"
    and "(length ops + length ops') * 2 ^ 34 \<le> 2 ^ 64"
  shows "\<exists>mp w1 rs w2 mp' w3 rs' w4 st q.
    create_mapping env path bytes flags w = Inr (Inr mp, w1) \<and>
    on_ring mp (run_ops push pop ops) w1 = Some (Inr (rs, w2)) \<and> length rs = length ops \<and>
    open_mapping env' path flags w2 = Inr (Inr mp', w3) \<and>
    on_ring mp' (run_ops push pop ops') w3 = Some (Inr (rs', w4)) \<and>
    run_ops push pop (ops @ ops') (empty_ring (unat (align_up bytes kAlignment))) = Some (Inr (rs @ rs', st)) \<and>
    fifo_accepts [] 0 (ops @ ops') (rs @ rs') = Some q"
proof -
  define cap where "cap = align_up bytes kAlignment"
  note S = size_okD [OF assms(3), folded cap_def]
  obtain w1 where w1: "create_mapping env path bytes flags w =
      Inr (Inr (file_mapping (new_fd env) (new_addr env) cap), w1)"
    "holds_ring path cap flags (empty_ring (unat cap)) w1" "fds w1 = (fds w)(new_fd env \<mapsto> path)"
    "maps w1 = (maps w)(new_addr env \<mapsto> (path, 384 + cap))"
    using create_holds [OF assms(1-3), of flags] by (auto simp: cap_def)
  have c: "length (ring (empty_ring (unat cap))) = unat cap" "sequence (control (empty_ring (unat cap))) = 0"
    by (simp_all add: empty_ring_def)
  have inv: "ring_inv (empty_ring (unat cap)) 0 0 []" using S(8,9) by (intro empty_ring_inv) simp_all
  have capeq: "capacity st = cap" if "ring_inv st h t ms" "length (ring st) = unat cap" for st h t ms
    using that by (auto simp: ring_inv_def ring_geometry_def)
  obtain rs st h t ms where r: "run_ops push pop ops (empty_ring (unat cap)) = Some (Inr (rs, st))"
    "ring_inv st h t ms" "length (ring st) = unat cap" "t \<le> length ops * 2 ^ 34"
    "fifo_accepts [] 0 ops rs = Some (ms, sequence (control st))"
    using run_ops_fifo [OF inv assms(6)] assms(8) c by auto
  have m1: "maps w1 (new_addr env) = Some (path, 384 + cap)" using w1(4) by simp
  obtain w2 where w2: "on_ring (file_mapping (new_fd env) (new_addr env) cap) (run_ops push pop ops) w1 =
      Some (Inr (rs, w2))" "holds_ring path cap flags st w2" "fds w2 = fds w1" "maps w2 = maps w1"
    using on_ring_holds [where f = "run_ops push pop ops", OF w1(2) m1 r(1,3) capeq [OF r(2,3)]] by blast
  have ok: "os_ok env' w2" by (rule separate_os_ok [OF assms(5)]) (simp_all add: w2(3,4) w1(3,4))
  obtain w3 where w3: "open_mapping env' path flags w2 =
      Inr (Inr (file_mapping (new_fd env') (new_addr env') cap), w3)"
    "holds_ring path cap flags st w3" "maps w3 (new_addr env') = Some (path, 384 + cap)"
    using open_holds [OF ok assms(4) w2(2)] by auto
  have "t + length ops' * 2 ^ 34 \<le> 2 ^ 64" using r(4) assms(8) by (simp add: algebra_simps)
  then obtain rs' st' h' t' ms' where r': "run_ops push pop ops' st = Some (Inr (rs', st'))"
    "ring_inv st' h' t' ms'" "length (ring st') = unat cap"
    "fifo_accepts ms (sequence (control st)) ops' rs' = Some (ms', sequence (control st'))"
    using run_ops_fifo [OF r(2) assms(7)] r(3) by auto
  obtain w4 where w4: "on_ring (file_mapping (new_fd env') (new_addr env') cap)
      (run_ops push pop ops') w3 = Some (Inr (rs', w4))"
    using on_ring_holds [where f = "run_ops push pop ops'", OF w3(2,3) r'(1,3) capeq [OF r'(2,3)]] by blast
  have "fifo_accepts [] 0 (ops @ ops') (rs @ rs') = Some (ms', sequence (control st'))"
    using fifo_accepts_append [OF r(5), of ops' rs'] r'(4) by simp
  with w1(1) w2(1) w3(1) w4 run_ops_append [OF r(1) r'(1)] run_ops_length [OF r(1)] show ?thesis
    unfolding cap_def by blast
qed

end

section \<open>Properties\<close>

text \<open>
  C10. A file is one queue for the processes that use it in turn: one process creates a multi-producer
  ring and works on it, a second one, with a descriptor and an address of its own, opens the file
  afterwards and works on. The results of the two together are those of one process that makes all the
  calls on a new ring, and they are those of one FIFO queue with consecutive sequence numbers.
\<close>

theorem mpsc_queue_survives_reopen:
  assumes "can_create env" "files w path = None" "size_ok bytes" "can_open env'" "separate env env' w"
    and "list_all op_small ops" "list_all op_small ops'"
    and "(length ops + length ops') * 2 ^ 34 \<le> 2 ^ 64"
  shows "\<exists>mp w1 rs w2 mp' w3 rs' w4 st q.
    SharedRingBuffer_create env path bytes w = Inr (Inr mp, w1) \<and>
    on_ring mp (run_ops (SharedRingBuffer_try_push k) try_pop_internal ops) w1 = Some (Inr (rs, w2)) \<and>
    length rs = length ops \<and>
    SharedRingBuffer_open env' path w2 = Inr (Inr mp', w3) \<and>
    on_ring mp' (run_ops (SharedRingBuffer_try_push k) try_pop_internal ops') w3 = Some (Inr (rs', w4)) \<and>
    run_ops (SharedRingBuffer_try_push k) try_pop_internal (ops @ ops')
      (empty_ring (unat (align_up bytes kAlignment))) = Some (Inr (rs @ rs', st)) \<and>
    fifo_accepts [] 0 (ops @ ops') (rs @ rs') = Some q"
  unfolding SharedRingBuffer_create_def SharedRingBuffer_open_def
  using assms by (rule mpsc.two_processes)

definition other_env :: os_env where
  "other_env = example_env\<lparr>new_fd := 4, new_addr := 0x9000\<rparr>"

lemma other_env_ok: "can_open other_env" "separate example_env other_env no_files"
  by (simp_all add: can_open_def separate_def os_ok_def other_env_def example_env_def no_files_def)

lemma example_push: "\<exists>st. SharedRingBuffer_try_push 0 (empty_ring 64) (Some [1, 2]) 2 3 = Some (Inr (True, st))"
proof -
  have inv: "ring_inv (empty_ring 64) 0 0 []" by (rule empty_ring_inv) simp_all
  have "readable (Some [1, 2]) 2" by (simp add: readable_def)
  moreover have "counter_headroom (length (ring (empty_ring 64))) 0" by (simp add: counter_headroom_def)
  moreover have "push_fits (empty_ring 64) 0 0 (unat (2 :: u32))"
    by (simp add: push_fits_def push_len_def pad_len_def rec_len_def room_def empty_ring_def)
  ultimately show ?thesis using mpsc.push_law [OF inv, of "Some [1, 2]" 2 0 3] by auto
qed

text \<open>The first process pushes; the second finds the message.\<close>

theorem mpsc_queue_survives_reopen_witness:
  "\<exists>mp w1 w2 mp' w3 w4. SharedRingBuffer_create example_env ''a'' 64 no_files = Inr (Inr mp, w1) \<and>
    on_ring mp (run_ops (SharedRingBuffer_try_push 0) try_pop_internal [Push [1, 2] 3]) w1 =
      Some (Inr ([Pushed True], w2)) \<and>
    SharedRingBuffer_open other_env ''a'' w2 = Inr (Inr mp', w3) \<and>
    on_ring mp' (run_ops (SharedRingBuffer_try_push 0) try_pop_internal [Pop]) w3 =
      Some (Inr ([Popped (Some \<lparr>payload = [1, 2], msg_type = 3, msg_sequence = 1\<rparr>)], w4))"
proof -
  have "size_ok 64" by (simp add: size_ok_def)
  from mpsc_queue_survives_reopen [OF example_env_ok(1,4) this other_env_ok, of "[Push [1, 2] 3]" "[Pop]" "''a''" 0]
  obtain mp w1 rs w2 mp' w3 rs' w4 st q where
    W: "SharedRingBuffer_create example_env ''a'' 64 no_files = Inr (Inr mp, w1)"
    "on_ring mp (run_ops (SharedRingBuffer_try_push 0) try_pop_internal [Push [1, 2] 3]) w1 = Some (Inr (rs, w2))"
    "SharedRingBuffer_open other_env ''a'' w2 = Inr (Inr mp', w3)"
    "on_ring mp' (run_ops (SharedRingBuffer_try_push 0) try_pop_internal [Pop]) w3 = Some (Inr (rs', w4))"
    and R: "length rs = 1" "fifo_accepts [] 0 [Push [1, 2] 3, Pop] (rs @ rs') = Some q"
    "run_ops (SharedRingBuffer_try_push 0) try_pop_internal [Push [1, 2] 3, Pop]
      (empty_ring (unat (align_up 64 kAlignment))) = Some (Inr (rs @ rs', st))"
    by auto
  have "unat (align_up 64 kAlignment) = 64" by (simp add: align_up_def kAlignment_def)
  with R(3) example_push have "\<exists>r. [Pushed True, r] = rs @ rs'" by (auto simp: bindL_eq_Inr)
  then obtain r where "rs @ rs' = [Pushed True, r]" by metis
  with R(1,2) have "rs = [Pushed True]" "rs' = [Popped (Some \<lparr>payload = [1, 2], msg_type = 3, msg_sequence = 1\<rparr>)]"
    by (auto simp: Cons_eq_append_conv length_Suc_conv elim!: fifo_accepts.elims split: if_splits)
  with W show ?thesis by blast
qed

text \<open>
  C22. A producer that died between its two stores is repaired by \<open>claim\<close>: on a ring that is
  consistent except for the value of \<open>tail_reserve\<close>, \<open>claim\<close> resumes, keeps the capacity and every
  published message, and leaves the consistent ring.
\<close>

theorem spsc_claim_repairs:
  assumes "os_ok env w" "can_open env" "ring_inv st h t ms"
    and "holds_ring path cap kFlagSPSC (st\<lparr>control := (control st)\<lparr>tail_reserve := v\<rparr>\<rparr>) w"
  shows "\<exists>mp w'. spsc_claim env path bytes w = Some (Inr (Inr mp, Some kResumed, w')) \<and>
    m_capacity mp = cap \<and> holds_ring path cap kFlagSPSC st w'"
proof -
  let ?st = "st\<lparr>control := (control st)\<lparr>tail_reserve := v\<rparr>\<rparr>"
  have sync: "sync_tail_reserve ?st = st"
    using assms(3) by (simp add: sync_tail_reserve_def ring_inv_def ring_geometry_def)
  have ex: "files w path \<noteq> None" using assms(4) by (auto simp: holds_ring_def)
  obtain w1 where w1: "open_mapping env path kFlagSPSC w =
      Inr (Inr (file_mapping (new_fd env) (new_addr env) cap), w1)"
    "holds_ring path cap kFlagSPSC ?st w1" "maps w1 (new_addr env) = Some (path, 384 + cap)"
    using open_holds [OF assms(1,2,4)] by auto
  have "length (ring st) = unat cap" "capacity st = cap"
    using w1(2) by (auto simp: holds_ring_def dest: ring_file_sizes)
  with on_ring_holds [where f = "\<lambda>st. Some (Inr ((), sync_tail_reserve st))", OF w1(2,3) refl] sync
  obtain w2 where "on_ring (file_mapping (new_fd env) (new_addr env) cap)
      (\<lambda>st. Some (Inr ((), sync_tail_reserve st))) w1 = Some (Inr ((), w2))"
    "holds_ring path cap kFlagSPSC st w2" by auto
  then show ?thesis
    using ex w1(1) by (auto simp: spsc_claim_def file_mapping_def)
qed

theorem spsc_claim_repairs_witness:
  "\<exists>m. let w = no_files\<lparr>files := [''a'' \<mapsto> m]\<rparr> in
     holds_ring ''a'' 64 kFlagSPSC ((empty_ring 64)\<lparr>control := (control (empty_ring 64))\<lparr>tail_reserve := 24\<rparr>\<rparr>) w \<and>
     (\<exists>mp w'. spsc_claim example_env ''a'' 64 w = Some (Inr (Inr mp, Some kResumed, w')) \<and>
       holds_ring ''a'' 64 kFlagSPSC (empty_ring 64) w')"
proof -
  let ?st = "(empty_ring 64)\<lparr>control := (control (empty_ring 64))\<lparr>tail_reserve := 24\<rparr>\<rparr>"
  have "ring_file 64 kFlagSPSC (empty_ring 64)
      (header_image (created_header 64 kFlagSPSC) @ replicate (336 + unat (64 :: u64)) 0)"
    using created_file [of 64 kFlagSPSC] by simp
  from store_ring_file [OF this, of ?st 3 0] obtain m where m: "ring_file 64 kFlagSPSC ?st m"
    by (auto simp: empty_ring_def)
  let ?w = "no_files\<lparr>files := [''a'' \<mapsto> m]\<rparr>"
  have h: "holds_ring ''a'' 64 kFlagSPSC ?st ?w" using m by (simp add: holds_ring_def)
  have "os_ok example_env ?w" by (simp add: os_ok_def example_env_def no_files_def)
  moreover have "ring_inv (empty_ring 64) 0 0 []" by (rule empty_ring_inv) simp_all
  ultimately show ?thesis
    using spsc_claim_repairs [OF _ example_env_ok(2) _ h, of 0 0 "[]" 64] h by (auto simp: Let_def)
qed

end
