(* ===== verification/SPSC_Queue.thy ===== *)
theory SPSC_Queue
  imports Ring_Files
begin

text \<open>
  \<open>SPSCQueue<T, Capacity>\<close> of \<open>include/lf_ring/spsc_queue.hpp\<close>: fixed slots of \<open>sizeof(T)\<close> bytes
  indexed by masked 64-bit counters. The template arguments are the arguments \<open>N\<close> (\<open>Capacity\<close>) and
  \<open>sz\<close> (\<open>sizeof(T)\<close>); a value of the trivially copyable type \<open>T\<close> is its bytes.
\<close>

unbundle bit_operations_syntax

section \<open>Operations\<close>

definition kMask :: "u64 \<Rightarrow> u64" where "kMask N = N - 1"

definition queue_try_push :: "u64 \<Rightarrow> u64 \<Rightarrow> byte list \<Rightarrow> ring_state \<Rightarrow> (bool \<times> ring_state) exec" where
  "queue_try_push N sz value st =
     (let t = tail_publish (control st);
          h = head_publish (control st)
      in if t - h \<ge> N then Inr (False, st)
         else let slot = (t AND kMask N) * sz
         in bindE (store_bytes (ring st) (unat slot) value) (\<lambda>m.
              Inr (True, st\<lparr>ring := m, control := (control st)\<lparr>tail_publish := t + 1\<rparr>\<rparr>)))"

definition queue_try_pop ::
  "u64 \<Rightarrow> u64 \<Rightarrow> byte list \<Rightarrow> ring_state \<Rightarrow> (bool \<times> byte list \<times> ring_state) exec" where
  "queue_try_pop N sz dst st =
     (let h = head_publish (control st);
          t = tail_publish (control st)
      in if h = t then Inr (False, dst, st)
         else let slot = (h AND kMask N) * sz
         in bindE (load_bytes (ring st) (unat slot) (unat sz)) (\<lambda>v.
              Inr (True, v, st\<lparr>control := (control st)\<lparr>head_publish := h + 1\<rparr>\<rparr>)))"

definition queue_size :: "ring_state \<Rightarrow> u64" where
  "queue_size st = tail_publish (control st) - head_publish (control st)"

definition queue_empty :: "ring_state \<Rightarrow> bool" where
  "queue_empty st \<longleftrightarrow> queue_size st = 0"

text \<open>
  Factories. The texts of the capacity errors go on with the two numbers, which are left out here. A
  mapping that is given up releases what it owns (\<open>~Mapping\<close>).
\<close>

definition queue_create ::
  "os_env \<Rightarrow> string \<Rightarrow> u64 \<Rightarrow> u64 \<Rightarrow> world \<Rightarrow> ((exn + Mapping) \<times> world) exec" where
  "queue_create env path N sz w = create_mapping env path (N * sz) kFlagFixedSPSC w"

definition queue_open ::
  "os_env \<Rightarrow> string \<Rightarrow> u64 \<Rightarrow> u64 \<Rightarrow> world \<Rightarrow> ((exn + Mapping) \<times> world) exec" where
  "queue_open env path N sz w =
     bindE (open_mapping env path kFlagFixedSPSC w) (\<lambda>(res, w1).
       case res of
         Inl e \<Rightarrow> Inr (Inl e, w1)
       | Inr mp \<Rightarrow>
           if m_capacity mp \<noteq> N * sz
           then Inr (Inl (runtime_error ''SPSCQueue::open capacity mismatch''), snd (reset mp w1))
           else Inr (Inr mp, w1))"

definition queue_claim ::
  "os_env \<Rightarrow> string \<Rightarrow> u64 \<Rightarrow> u64 \<Rightarrow> world \<Rightarrow> ((exn + Mapping) \<times> ClaimResult option \<times> world) exec"
where
  "queue_claim env path N sz w =
     (if files w path = None then
        bindE (create_mapping env path (N * sz) kFlagFixedSPSC w) (\<lambda>(res, w1).
          Inr (res, Some kCreated, w1))
      else
        bindE (open_mapping env path kFlagFixedSPSC w) (\<lambda>(res, w1).
          case res of
            Inl e \<Rightarrow> Inr (Inl e, None, w1)
          | Inr mp \<Rightarrow>
              if m_capacity mp \<noteq> N * sz
              then Inr (Inl (runtime_error ''SPSCQueue::claim capacity mismatch''), None,
                        snd (reset mp w1))
              else Inr (Inr mp, Some kResumed, w1)))"

section \<open>The bounded queue\<close>

text \<open>What a queue of \<open>n\<close> slots returns for a list of operations, and what it then holds.\<close>

datatype 'v queue_op = QPush 'v | QPop
datatype 'v queue_ret = QPushed bool | QPopped "'v option"

fun bounded_queue :: "nat \<Rightarrow> 'v queue_op list \<Rightarrow> 'v list \<Rightarrow> 'v queue_ret list \<times> 'v list" where
  "bounded_queue n [] q = ([], q)"
| "bounded_queue n (QPush v # ops) q =
     (let (rs, q') = bounded_queue n ops (if length q < n then q @ [v] else q)
      in (QPushed (length q < n) # rs, q'))"
| "bounded_queue n (QPop # ops) q =
     (let (rs, q') = bounded_queue n ops (tl q)
      in (QPopped (case q of [] \<Rightarrow> None | v # _ \<Rightarrow> Some v) # rs, q'))"

text \<open>Running the same operations on an implementation; pops start from the value \<open>d\<close>.\<close>

fun queue_run ::
  "('v \<Rightarrow> 's \<Rightarrow> (bool \<times> 's) exec) \<Rightarrow> ('v \<Rightarrow> 's \<Rightarrow> (bool \<times> 'v \<times> 's) exec) \<Rightarrow> 'v \<Rightarrow>
   'v queue_op list \<Rightarrow> 's \<Rightarrow> ('v queue_ret list \<times> 's) exec"
where
  "queue_run push pop d [] s = Inr ([], s)"
| "queue_run push pop d (QPush v # ops) s =
     bindE (push v s) (\<lambda>(b, s). bindE (queue_run push pop d ops s) (\<lambda>(rs, s). Inr (QPushed b # rs, s)))"
| "queue_run push pop d (QPop # ops) s =
     bindE (pop d s) (\<lambda>(b, v, s). bindE (queue_run push pop d ops s) (\<lambda>(rs, s).
       Inr (QPopped (if b then Some v else None) # rs, s)))"

text \<open>
  The contract of a queue of fixed slots: \<open>rep s q\<close> says that state \<open>s\<close> holds the values \<open>q\<close>, and
  \<open>ok v\<close> that \<open>v\<close> is a value of the slot type.
\<close>

locale fixed_queue =
  fixes push :: "'v \<Rightarrow> 's \<Rightarrow> (bool \<times> 's) exec"
    and pop :: "'v \<Rightarrow> 's \<Rightarrow> (bool \<times> 'v \<times> 's) exec"
    and rep :: "'s \<Rightarrow> 'v list \<Rightarrow> bool"
    and ok :: "'v \<Rightarrow> bool"
    and slots :: nat
  assumes push_full: "rep s q \<Longrightarrow> length q = slots \<Longrightarrow> push v s = Inr (False, s)"
    and push_room: "rep s q \<Longrightarrow> length q < slots \<Longrightarrow> ok v \<Longrightarrow> \<exists>s'. push v s = Inr (True, s') \<and> rep s' (q @ [v])"
    and pop_none: "rep s [] \<Longrightarrow> pop d s = Inr (False, d, s)"
    and pop_some: "rep s (v # q) \<Longrightarrow> \<exists>s'. pop d s = Inr (True, v, s') \<and> rep s' q"
    and rep_le: "rep s q \<Longrightarrow> length q \<le> slots"
begin

lemma run_refines:
  assumes "rep s q" "\<forall>v. QPush v \<in> set ops \<longrightarrow> ok v"
  shows "\<exists>s'. queue_run push pop d ops s = Inr (fst (bounded_queue slots ops q), s') \<and>
    rep s' (snd (bounded_queue slots ops q))"
  using assms
proof (induction ops arbitrary: s q)
  case Nil
  then show ?case by simp
next
  case (Cons op ops)
  show ?case
  proof (cases op)
    case (QPush v)
    obtain s1 where s1: "push v s = Inr (length q < slots, s1)"
      "rep s1 (if length q < slots then q @ [v] else q)"
      using push_full [OF Cons.prems(1), of v] push_room [OF Cons.prems(1), of v] QPush
        Cons.prems rep_le [OF Cons.prems(1)] by (cases "length q < slots") auto
    from Cons.IH [OF s1(2)] Cons.prems(2) s1(1) QPush show ?thesis
      by (auto simp: split_beta Let_def)
  next
    case QPop
    show ?thesis
    proof (cases q)
      case Nil
      with Cons.prems(1) pop_none [of s d] Cons.IH [of s "[]"] Cons.prems QPop show ?thesis
        by (auto simp: split_beta Let_def)
    next
      case (Cons v q')
      then obtain s1 where "pop d s = Inr (True, v, s1)" "rep s1 q'"
        using \<open>rep s q\<close> pop_some [of s v q' d] by auto
      with Cons.IH [of s1 q'] \<open>\<forall>v. QPush v \<in> set (op # ops) \<longrightarrow> ok v\<close> QPop Cons show ?thesis
        by (auto simp: split_beta Let_def)
    qed
  qed
qed

end

section \<open>Slots\<close>

text \<open>
  A queue of \<open>2^k\<close> slots of \<open>n\<close> bytes that holds the values \<open>q\<close> from position \<open>h\<close> on. Positions
  are unbounded; since the number of slots divides \<open>2^64\<close>, the wrap-around of the counters is
  harmless.
\<close>

definition queue_rep :: "nat \<Rightarrow> nat \<Rightarrow> nat \<Rightarrow> ring_state \<Rightarrow> byte list list \<Rightarrow> bool" where
  "queue_rep k n h st q \<longleftrightarrow>
     head_publish (control st) = of_nat h \<and> tail_publish (control st) = of_nat (h + length q) \<and>
     length q \<le> 2 ^ k \<and> 2 ^ k * n \<le> length (ring st) \<and>
     (\<forall>i < length q. mem_read (ring st) ((h + i) mod 2 ^ k * n) n = q ! i)"

definition template_ok :: "nat \<Rightarrow> nat \<Rightarrow> bool" where
  "template_ok k n \<longleftrightarrow> k < 64 \<and> 0 < n \<and> 2 ^ k * n < 2 ^ 64"

text \<open>The index computation with the mask is reduction modulo the number of slots.\<close>

lemma slot_index:
  assumes "k < 64"
  shows "unat ((of_nat t :: u64) AND kMask (2 ^ k)) = t mod 2 ^ k"
proof -
  have "unat ((of_nat t :: u64) AND mask k) = t mod 2 ^ 64 mod 2 ^ k"
    by (simp only: take_bit_eq_mask [symmetric] unat_take_bit unat_of_nat) simp
  moreover have "(2 :: nat) ^ k dvd 2 ^ 64" using assms by (intro le_imp_power_dvd) simp
  ultimately show ?thesis
    by (simp add: kMask_def mask_eq_exp_minus_1 mod_mod_cancel)
qed

lemma slot_bound: "(t :: nat) mod 2 ^ k * n + n \<le> 2 ^ k * n"
proof -
  have "Suc (t mod 2 ^ k) \<le> 2 ^ k" by (simp add: Suc_le_eq)
  then have "Suc (t mod 2 ^ k) * n \<le> 2 ^ k * n" by (rule mult_le_mono1)
  then show ?thesis by simp
qed

lemma slot_offset:
  assumes "template_ok k n"
  shows "unat (((of_nat t :: u64) AND kMask (2 ^ k)) * of_nat n) = t mod 2 ^ k * n"
    "unat (of_nat n :: u64) = n"
proof -
  have k: "k < 64" "0 < n" "2 ^ k * n < 2 ^ 64" using assms by (auto simp: template_ok_def)
  have "1 * n \<le> 2 ^ k * n" by (rule mult_le_mono1) simp
  then have "n < 2 ^ 64" using k(3) by linarith
  then show n: "unat (of_nat n :: u64) = n" by (rule unat_of_nat_small)
  have "t mod 2 ^ k * n < 2 ^ 64" using slot_bound [of t k n] k by linarith
  then show "unat (((of_nat t :: u64) AND kMask (2 ^ k)) * of_nat n) = t mod 2 ^ k * n"
    by (simp add: unat_word_ariths slot_index [OF k(1)] n)
qed

text \<open>Different positions of the window use different slots.\<close>

lemma slots_disjoint:
  fixes i j n :: nat
  assumes "i < j" "j < i + 2 ^ k"
  shows "i mod 2 ^ k * n + n \<le> j mod 2 ^ k * n \<or> j mod 2 ^ k * n + n \<le> i mod 2 ^ k * n"
proof -
  have "i mod 2 ^ k \<noteq> j mod 2 ^ k" using mod_window_inj [of i "2 ^ k" j] assms by auto
  then have "Suc (i mod 2 ^ k) \<le> j mod 2 ^ k \<or> Suc (j mod 2 ^ k) \<le> i mod 2 ^ k" by linarith
  then have "Suc (i mod 2 ^ k) * n \<le> j mod 2 ^ k * n \<or> Suc (j mod 2 ^ k) * n \<le> i mod 2 ^ k * n"
    using mult_le_mono1 by blast
  then show ?thesis by (simp add: add.commute)
qed

lemma queue_full_iff:
  assumes "queue_rep k n h st q" "k < 64"
  shows "tail_publish (control st) - head_publish (control st) = of_nat (length q)"
    "tail_publish (control st) - head_publish (control st) \<ge> 2 ^ k \<longleftrightarrow> length q = 2 ^ k"
    "head_publish (control st) = tail_publish (control st) \<longleftrightarrow> q = []"
proof -
  show d: "tail_publish (control st) - head_publish (control st) = of_nat (length q)"
    using assms(1) by (simp add: queue_rep_def)
  have le: "length q \<le> 2 ^ k" using assms(1) by (simp add: queue_rep_def)
  have "(2 :: nat) ^ k < 2 ^ 64" using assms(2) by (intro power_strict_increasing) simp_all
  then have u: "unat (of_nat (length q) :: u64) = length q" "unat (2 ^ k :: u64) = 2 ^ k"
    using le unat_of_nat_small [of "length q"] unat_of_nat_small [of "2 ^ k"] by simp_all
  show "tail_publish (control st) - head_publish (control st) \<ge> 2 ^ k \<longleftrightarrow> length q = 2 ^ k"
    using le by (auto simp: d word_le_nat_alt u)
  have "head_publish (control st) = tail_publish (control st) \<longleftrightarrow> (of_nat (length q) :: u64) = 0"
    using d by (metis diff_self eq_iff_diff_eq_0)
  also have "\<dots> \<longleftrightarrow> q = []" unfolding unat_eq_0 [symmetric] u(1) by simp
  finally show "head_publish (control st) = tail_publish (control st) \<longleftrightarrow> q = []" .
qed

lemma queue_push_room:
  assumes "template_ok k n" "queue_rep k n h st q" "length q < 2 ^ k" "length v = n"
  shows "\<exists>st'. queue_try_push (2 ^ k) (of_nat n) v st = Inr (True, st') \<and> queue_rep k n h st' (q @ [v])"
proof -
  let ?t = "h + length q"
  let ?m = "mem_write (ring st) (?t mod 2 ^ k * n) v"
  have R: "head_publish (control st) = of_nat h" "tail_publish (control st) = of_nat ?t"
    "2 ^ k * n \<le> length (ring st)"
    "\<And>i. i < length q \<Longrightarrow> mem_read (ring st) ((h + i) mod 2 ^ k * n) n = q ! i"
    using assms(2) by (auto simp: queue_rep_def)
  have k: "k < 64" using assms(1) by (simp add: template_ok_def)
  have b: "x mod 2 ^ k * n + n \<le> length (ring st)" for x using slot_bound [of x k n] R(3) by linarith
  have slots: "mem_read ?m ((h + i) mod 2 ^ k * n) n = (q @ [v]) ! i" if "i < Suc (length q)" for i
  proof (cases "i = length q")
    case True
    then show ?thesis using mem_read_write_same [of _ v "ring st"] b [of ?t] assms(4) by simp
  next
    case False
    then have i: "i < length q" using that by simp
    have "h + i < ?t" "?t < h + i + 2 ^ k" using i assms(3) by linarith+
    from slots_disjoint [OF this, of n] show ?thesis
      using R(4) [OF i] i b [of ?t] b [of "h + i"] assms(4)
      by (subst mem_read_write_disj) (auto simp: nth_append)
  qed
  let ?st = "st\<lparr>ring := ?m, control := (control st)\<lparr>tail_publish := of_nat (h + length (q @ [v]))\<rparr>\<rparr>"
  have "store_bytes (ring st) (unat ((tail_publish (control st) AND kMask (2 ^ k)) * of_nat n)) v = Inr ?m"
    using b [of ?t] assms(4) by (simp add: R(2) slot_offset [OF assms(1)] store_bytes_ok del: of_nat_add)
  then have "queue_try_push (2 ^ k) (of_nat n) v st = Inr (True, ?st)"
    using queue_full_iff(2) [OF assms(2) k] assms(3)
    by (simp add: queue_try_push_def Let_def) (simp add: R(2))
  moreover have "queue_rep k n h ?st (q @ [v])"
    unfolding queue_rep_def using R(1,3) slots b [of ?t] assms(3,4)
    by (simp del: of_nat_Suc of_nat_add nth_append_length)
  ultimately show ?thesis by blast
qed

lemma queue_pop_some:
  assumes "template_ok k n" "queue_rep k n h st (v # q)"
  shows "\<exists>st'. queue_try_pop (2 ^ k) (of_nat n) d st = Inr (True, v, st') \<and> queue_rep k n (Suc h) st' q"
proof -
  have k: "k < 64" using assms(1) by (simp add: template_ok_def)
  have R: "head_publish (control st) = of_nat h" "2 ^ k * n \<le> length (ring st)"
    "tail_publish (control st) = of_nat (Suc h + length q)" "length q \<le> 2 ^ k"
    and slot: "i < Suc (length q) \<Longrightarrow> mem_read (ring st) ((h + i) mod 2 ^ k * n) n = (v # q) ! i" for i
    using assms(2) by (simp_all add: queue_rep_def)
  have b: "h mod 2 ^ k * n + n \<le> length (ring st)" using slot_bound [of h k n] R(2) by linarith
  have "load_bytes (ring st) (unat ((head_publish (control st) AND kMask (2 ^ k)) * of_nat n))
      (unat (of_nat n :: u64)) = Inr v"
    using b slot [of 0] by (simp add: R(1) slot_offset [OF assms(1)] load_bytes_ok)
  then have "queue_try_pop (2 ^ k) (of_nat n) d st =
      Inr (True, v, st\<lparr>control := (control st)\<lparr>head_publish := of_nat (Suc h)\<rparr>\<rparr>)"
    using queue_full_iff(3) [OF assms(2) k] by (simp add: queue_try_pop_def Let_def R(1) add.commute)
  moreover have next_slots: "mem_read (ring st) ((Suc h + i) mod 2 ^ k * n) n = q ! i"
    if "i < length q" for i
    using slot [of "Suc i"] that by simp
  moreover have "queue_rep k n (Suc h) (st\<lparr>control := (control st)\<lparr>head_publish := of_nat (Suc h)\<rparr>\<rparr>) q"
    unfolding queue_rep_def using R(2-4) next_slots by (simp del: of_nat_Suc of_nat_add)
  ultimately show ?thesis by blast
qed

text \<open>The queue meets its contract, for all template arguments the class accepts.\<close>

definition queue_holds :: "nat \<Rightarrow> nat \<Rightarrow> ring_state \<Rightarrow> byte list list \<Rightarrow> bool" where
  "queue_holds k n st q \<longleftrightarrow> template_ok k n \<and> (\<exists>h. queue_rep k n h st q)"

interpretation slots: fixed_queue "queue_try_push (2 ^ k) (of_nat n)" "queue_try_pop (2 ^ k) (of_nat n)"
    "queue_holds k n" "\<lambda>v. length v = n" "2 ^ k"
proof
  fix s v d and q :: "byte list list"
  assume "queue_holds k n s q"
  then obtain h where T: "template_ok k n" and h: "queue_rep k n h s q" by (auto simp: queue_holds_def)
  have k: "k < 64" using T by (simp add: template_ok_def)
  show "length q = 2 ^ k \<Longrightarrow> queue_try_push (2 ^ k) (of_nat n) v s = Inr (False, s)"
    using queue_full_iff(2) [OF h k] by (simp add: queue_try_push_def)
  show "length q < 2 ^ k \<Longrightarrow> length v = n \<Longrightarrow>
      \<exists>s'. queue_try_push (2 ^ k) (of_nat n) v s = Inr (True, s') \<and> queue_holds k n s' (q @ [v])"
    using queue_push_room [OF T h, of v] T by (auto simp: queue_holds_def)
  show "length q \<le> 2 ^ k" using h by (simp add: queue_rep_def)
next
  fix s v d and q :: "byte list list"
  show "queue_holds k n s [] \<Longrightarrow> queue_try_pop (2 ^ k) (of_nat n) d s = Inr (False, d, s)"
    using queue_full_iff(3) by (auto simp: queue_holds_def template_ok_def queue_try_pop_def Let_def)
  show "queue_holds k n s (v # q) \<Longrightarrow>
      \<exists>s'. queue_try_pop (2 ^ k) (of_nat n) d s = Inr (True, v, s') \<and> queue_holds k n s' q"
    using queue_pop_some by (auto simp: queue_holds_def) blast
qed

lemma empty_queue_holds:
  assumes "template_ok k n" "2 ^ k * n \<le> c"
  shows "queue_holds k n (empty_ring c) []"
  using assms by (auto simp: queue_holds_def queue_rep_def empty_ring_def intro: exI [of _ 0])

section \<open>Properties\<close>

text \<open>
  C11. \<open>SPSCQueue\<close> is a bounded FIFO queue: on a fresh queue of \<open>2^k\<close> slots, every sequence of
  pushes and pops, however long, returns exactly what the abstract queue of that size returns. A
  push fails only when all slots are taken, a pop only when none is.
\<close>

theorem queue_refines_bounded_fifo:
  assumes "template_ok k n" "2 ^ k * n \<le> c" "\<forall>v. QPush v \<in> set ops \<longrightarrow> length v = n"
  shows "\<exists>st. queue_run (queue_try_push (2 ^ k) (of_nat n)) (queue_try_pop (2 ^ k) (of_nat n)) d ops
      (empty_ring c) = Inr (fst (bounded_queue (2 ^ k) ops []), st)"
  using slots.run_refines [OF empty_queue_holds [OF assms(1,2)], of ops d] assms(3) by blast

theorem queue_refines_bounded_fifo_witness:
  "\<exists>st. queue_run (queue_try_push 2 4) (queue_try_pop 2 4) [0, 0, 0, 0]
      [QPop, QPush [1, 2, 3, 4], QPush [5, 6, 7, 8], QPush [9, 9, 9, 9], QPop] (empty_ring 8) =
    Inr ([QPopped None, QPushed True, QPushed True, QPushed False, QPopped (Some [1, 2, 3, 4])], st)"
  using queue_refines_bounded_fifo [of 1 4 8 "[QPop, QPush [1, 2, 3, 4], QPush [5, 6, 7, 8],
      QPush [9, 9, 9, 9], QPop]" "[0, 0, 0, 0]"]
  by (simp add: template_ok_def)

text \<open>
  C39. \<open>SPSCQueue::create\<close> rounds the file's capacity up to a multiple of eight, but \<open>open\<close> compares
  it with the exact \<open>Capacity * sizeof(T)\<close>: a queue just created can be opened if and only if its
  slots fill a multiple of eight bytes. Otherwise \<open>open\<close> throws, cleanly.
\<close>

theorem queue_open_after_create:
  assumes "can_create env" "can_open env'" "files w path = None" "size_ok (N * sz)"
  shows "\<exists>mp w1. queue_create env path N sz w = Inr (Inr mp, w1) \<and>
    (os_ok env' w1 \<longrightarrow>
      (if 8 dvd unat (N * sz)
       then \<exists>mp' w2. queue_open env' path N sz w1 = Inr (Inr mp', w2) \<and>
         holds_ring path (N * sz) kFlagFixedSPSC (empty_ring (unat (N * sz))) w2
       else queue_open env' path N sz w1 =
         Inr (Inl (runtime_error ''SPSCQueue::open capacity mismatch''), w1)))"
proof -
  define cap where "cap = align_up (N * sz) kAlignment"
  note S = size_okD [OF assms(4), folded cap_def]
  obtain w1 where w1: "queue_create env path N sz w =
      Inr (Inr (file_mapping (new_fd env) (new_addr env) cap), w1)"
    "holds_ring path cap kFlagFixedSPSC (empty_ring (unat cap)) w1"
    using create_holds [OF assms(1,3,4), of kFlagFixedSPSC]
    by (auto simp: cap_def queue_create_def)
  have eq: "cap = N * sz \<longleftrightarrow> 8 dvd unat (N * sz)"
  proof
    show "8 dvd unat (N * sz)" if "cap = N * sz" using S(4) that by simp
    show "cap = N * sz" if d: "8 dvd unat (N * sz)"
    proof -
      have "8 dvd unat cap - unat (N * sz)" using S(4) d by (rule dvd_diff_nat)
      then have "unat cap = unat (N * sz)" using S(2,3) by (auto dest: dvd_imp_le)
      then show ?thesis by (simp add: word_unat_eq_iff)
    qed
  qed
  have rel: "snd (reset (file_mapping (new_fd env') (new_addr env') cap)
      (w1\<lparr>fds := (fds w1)(new_fd env' \<mapsto> path), maps := (maps w1)(new_addr env' \<mapsto> (path, 384 + cap))\<rparr>)) = w1"
    if "os_ok env' w1"
    using that S(7)
    by (simp add: reset_def Let_def file_mapping_def sys_munmap_def sys_close_def os_ok_def
        fun_upd_idem word_neq_0_conv)
  obtain m where m: "files w1 path = Some m" "ring_file cap kFlagFixedSPSC (empty_ring (unat cap)) m"
    using w1(2) by (auto simp: holds_ring_def)
  have "queue_open env' path N sz w1 =
    (if cap = N * sz then Inr (Inr (file_mapping (new_fd env') (new_addr env') cap),
       w1\<lparr>fds := (fds w1)(new_fd env' \<mapsto> path), maps := (maps w1)(new_addr env' \<mapsto> (path, 384 + cap))\<rparr>)
     else Inr (Inl (runtime_error ''SPSCQueue::open capacity mismatch''), w1))" if ok: "os_ok env' w1"
    using open_ring_file [OF ok assms(2) m, of kFlagFixedSPSC] rel [OF ok]
    by (auto simp: queue_open_def file_mapping_def)
  then show ?thesis
    using w1 eq by (auto simp: holds_ring_def)
qed

theorem queue_open_after_create_witness:
  "\<exists>mp w1. queue_create example_env ''q'' 4 3 no_files = Inr (Inr mp, w1) \<and>
    (os_ok (example_env\<lparr>new_fd := 4, new_addr := 0x9000\<rparr>) w1 \<longrightarrow>
     queue_open (example_env\<lparr>new_fd := 4, new_addr := 0x9000\<rparr>) ''q'' 4 3 w1 =
       Inr (Inl (runtime_error ''SPSCQueue::open capacity mismatch''), w1))"
proof -
  have o: "can_open (example_env\<lparr>new_fd := 4, new_addr := 0x9000\<rparr>)"
    by (simp add: can_open_def example_env_def)
  have "size_ok (4 * 3)" by (simp add: size_ok_def)
  from queue_open_after_create [OF example_env_ok(1) o example_env_ok(4) this] show ?thesis by simp
qed

text \<open>
  A restarted producer keeps everything: \<open>claim\<close> on an existing queue file of the right size
  resumes and leaves the queue exactly as it was, all committed messages included.
\<close>

theorem queue_claim_keeps_messages:
  assumes "os_ok env w" "can_open env" "holds_ring path (N * sz) kFlagFixedSPSC st w"
  shows "\<exists>mp w'. queue_claim env path N sz w = Inr (Inr mp, Some kResumed, w') \<and>
    m_capacity mp = N * sz \<and> files w' = files w \<and> holds_ring path (N * sz) kFlagFixedSPSC st w'"
proof -
  obtain m where m: "files w path = Some m" "ring_file (N * sz) kFlagFixedSPSC st m"
    using assms(3) by (auto simp: holds_ring_def)
  then show ?thesis
    using open_ring_file [OF assms(1,2) m, of kFlagFixedSPSC]
    by (simp add: queue_claim_def file_mapping_def holds_ring_def)
qed

theorem queue_claim_keeps_messages_witness:
  "\<exists>m mp w'. queue_claim example_env ''q'' 4 16 (no_files\<lparr>files := [''q'' \<mapsto> m]\<rparr>) =
      Inr (Inr mp, Some kResumed, w') \<and> holds_ring ''q'' 64 kFlagFixedSPSC (empty_ring 64) w'"
proof -
  let ?m = "header_image (created_header 64 kFlagFixedSPSC) @ replicate 400 0"
  let ?w = "no_files\<lparr>files := [''q'' \<mapsto> ?m]\<rparr>"
  have "holds_ring ''q'' (4 * 16) kFlagFixedSPSC (empty_ring 64) ?w"
    using created_file [of 64 kFlagFixedSPSC] by (simp add: holds_ring_def)
  moreover have "os_ok example_env ?w" by (simp add: os_ok_def example_env_def no_files_def)
  ultimately show ?thesis
    using queue_claim_keeps_messages [OF _ example_env_ok(2), of ?w "''q''" 4 16 "empty_ring 64"] by auto
qed

end
