(* ===== verification/Interleaving.thy ===== *)
theory Interleaving
  imports Main
begin

text \<open>
  Interleavings of threads and processes. A system is given by its initial states and one step
  relation, each step being one access to shared memory by one participant; memory is sequentially
  consistent. An \<^emph>\<open>observation\<close> of a system is a sequence of states with any number of steps in
  between: what a participant that only reads sees at its successive loads.
\<close>

definition observation :: "('s \<Rightarrow> bool) \<Rightarrow> ('s \<Rightarrow> 's \<Rightarrow> bool) \<Rightarrow> (nat \<Rightarrow> 's) \<Rightarrow> bool" where
  "observation init step \<sigma> \<longleftrightarrow> (\<exists>s. init s \<and> step\<^sup>*\<^sup>* s (\<sigma> 0)) \<and> (\<forall>k. step\<^sup>*\<^sup>* (\<sigma> k) (\<sigma> (Suc k)))"

definition reachable :: "('s \<Rightarrow> bool) \<Rightarrow> ('s \<Rightarrow> 's \<Rightarrow> bool) \<Rightarrow> 's \<Rightarrow> bool" where
  "reachable init step s \<longleftrightarrow> (\<exists>s0. init s0 \<and> step\<^sup>*\<^sup>* s0 s)"

lemma observation_steps:
  assumes "observation init step \<sigma>" "i \<le> j"
  shows "step\<^sup>*\<^sup>* (\<sigma> i) (\<sigma> j)"
  using assms(2)
proof (induction rule: dec_induct)
  case (step j)
  with assms(1) show ?case by (auto simp: observation_def intro: rtranclp_trans)
qed simp

text \<open>An observation that changes at given accesses: \<open>ss\<close> lists the states, the last one stays.\<close>

definition listed :: "'s list \<Rightarrow> nat \<Rightarrow> 's" where
  "listed ss k = (if k < length ss then ss ! k else last ss)"

lemma observation_listed:
  assumes "ss \<noteq> []" "init s0" "step\<^sup>*\<^sup>* s0 (ss ! 0)"
    and "\<forall>k < length ss - 1. step\<^sup>*\<^sup>* (ss ! k) (ss ! Suc k)"
  shows "observation init step (listed ss)"
proof -
  have "step\<^sup>*\<^sup>* (listed ss k) (listed ss (Suc k))" for k
  proof (cases "Suc k < length ss")
    case True
    then have "k < length ss - 1" by simp
    with assms(4) True show ?thesis by (simp add: listed_def)
  next
    case False
    then have "listed ss k = last ss" "listed ss (Suc k) = last ss"
      using assms(1) by (auto simp: listed_def last_conv_nth not_less le_Suc_eq less_Suc_eq_le)
    then show ?thesis by simp
  qed
  with assms(1-3) show ?thesis by (auto simp: observation_def listed_def)
qed

locale invariant_system =
  fixes init :: "'s \<Rightarrow> bool" and step :: "'s \<Rightarrow> 's \<Rightarrow> bool" and inv :: "'s \<Rightarrow> bool"
  assumes inv_init: "init s \<Longrightarrow> inv s"
    and inv_step: "inv s \<Longrightarrow> step s s' \<Longrightarrow> inv s'"
begin

lemma inv_steps: "step\<^sup>*\<^sup>* s s' \<Longrightarrow> inv s \<Longrightarrow> inv s'"
  by (induction rule: rtranclp_induct) (auto intro: inv_step)

lemma inv_reachable: "reachable init step s \<Longrightarrow> inv s"
  by (auto simp: reachable_def intro: inv_steps inv_init)

lemma inv_observed:
  assumes "observation init step \<sigma>"
  shows "inv (\<sigma> k)"
proof -
  obtain s where "init s" "step\<^sup>*\<^sup>* s (\<sigma> 0)" using assms by (auto simp: observation_def)
  then have "inv (\<sigma> 0)" by (blast intro: inv_init inv_steps)
  with observation_steps [OF assms, of 0 k] show ?thesis by (auto intro: inv_steps)
qed

end

text \<open>A system with a version number that never decreases: between two equal readings it stood still.\<close>

locale versioned_system = invariant_system init step inv
  for init :: "'s \<Rightarrow> bool" and step :: "'s \<Rightarrow> 's \<Rightarrow> bool" and inv :: "'s \<Rightarrow> bool" +
  fixes ver :: "'s \<Rightarrow> nat"
  assumes ver_step: "inv s \<Longrightarrow> step s s' \<Longrightarrow> ver s \<le> ver s'"
begin

lemma ver_steps: "step\<^sup>*\<^sup>* s s' \<Longrightarrow> inv s \<Longrightarrow> ver s \<le> ver s'"
proof (induction rule: rtranclp_induct)
  case (step y z)
  then have "inv y" by (auto intro: inv_steps)
  with step show ?case by (auto intro: order_trans ver_step)
qed simp

lemma ver_observed: "observation init step \<sigma> \<Longrightarrow> i \<le> j \<Longrightarrow> ver (\<sigma> i) \<le> ver (\<sigma> j)"
  by (auto intro: ver_steps inv_observed observation_steps)

lemma ver_between:
  assumes "observation init step \<sigma>" "i \<le> j" "j \<le> k" "ver (\<sigma> i) = ver (\<sigma> k)"
  shows "ver (\<sigma> j) = ver (\<sigma> i)"
  using ver_observed [OF assms(1,2)] ver_observed [OF assms(1,3)] assms(4) by simp

end

end
