(* ===== verification/Futex.thy ===== *)
theory Futex
  imports Prelude Interleaving
begin

text \<open>
  \<open>include/lf_ring/futex.hpp\<close>: blocking on the lower half of a 64-bit counter. What the kernel
  answers to \<open>FUTEX_WAIT\<close> is an argument of the wrapper; the little kernel of the last section says
  when it answers what, and shows that no notification is lost.
\<close>

section \<open>The wrapper\<close>

text \<open>The lower half of the word: on a little-endian machine the first four of its bytes.\<close>

definition futex_word :: "u64 \<Rightarrow> u32" where
  "futex_word a = dec32 (take 4 (enc64 a))"

definition futex_load :: "u64 \<Rightarrow> u32" where
  "futex_load a = ucast a"

text \<open>\<open>struct timespec\<close> from a signed count of milliseconds, with C++ division.\<close>

record timespec =
  tv_sec :: int
  tv_nsec :: int

definition to_timespec :: "int \<Rightarrow> timespec" where
  "to_timespec ms = \<lparr>tv_sec = sgn ms * (\<bar>ms\<bar> div 1000), tv_nsec = sgn ms * (\<bar>ms\<bar> mod 1000) * 1000000\<rparr>"

datatype wait_answer = Woken | EAGAIN | EINTR | ETIMEDOUT | OtherError

fun wait_ret :: "wait_answer \<Rightarrow> int" where
  "wait_ret Woken = 0"
| "wait_ret _ = -1"

definition futex_wait_timeout :: "(u32 \<Rightarrow> timespec \<Rightarrow> wait_answer) \<Rightarrow> u32 \<Rightarrow> int \<Rightarrow> bool" where
  "futex_wait_timeout answers expected timeout =
     (let ts = to_timespec timeout;
          answer = answers expected ts
      in if wait_ret answer = 0 then True
         else if answer = EAGAIN \<or> answer = EINTR then True
         else False)"

lemma le_bytes_append: "le_bytes (a + b) v = le_bytes a v @ le_bytes b (v div 256 ^ a)"
  by (induction a arbitrary: v) (simp_all add: div_mult2_eq)

text \<open>The pointer to the lower half and the truncating load agree.\<close>

lemma futex_word_load: "futex_word a = futex_load a"
proof -
  have "take 4 (enc64 a) = le_bytes 4 (unat a)"
    using le_bytes_append [of 4 4 "unat a"] by (simp add: enc64_def)
  then have "futex_word a = of_nat (unat a mod 256 ^ 4)"
    by (simp add: futex_word_def dec32_def le_val_le_bytes)
  then have "unat (futex_word a) = unat a mod 2 ^ 32" by (simp add: unat_of_nat)
  also have "\<dots> = unat (futex_load a)"
    by (simp add: futex_load_def unsigned_ucast_eq take_bit_eq_mod)
  finally show ?thesis by (simp only: word_unat_eq_iff)
qed

text \<open>
  The timeout handed to the kernel is a normalised \<open>timespec\<close> of exactly the requested length
  for every non-negative number of milliseconds.
\<close>

theorem to_timespec_exact:
  assumes "0 \<le> ms"
  shows "0 \<le> tv_nsec (to_timespec ms) \<and> tv_nsec (to_timespec ms) < 1000000000 \<and>
    tv_sec (to_timespec ms) * 1000000000 + tv_nsec (to_timespec ms) = ms * 1000000"
proof (cases "ms = 0")
  case True
  then show ?thesis by (simp add: to_timespec_def)
next
  case False
  with assms have s: "sgn ms = 1" "\<bar>ms\<bar> = ms" by auto
  have b: "ms mod 1000 < 1000" "0 \<le> ms mod 1000" by simp_all
  have d: "ms div 1000 * 1000 + ms mod 1000 = ms" by simp
  have e: "to_timespec ms = \<lparr>tv_sec = ms div 1000, tv_nsec = ms mod 1000 * 1000000\<rparr>"
    by (simp add: to_timespec_def s)
  show ?thesis
    unfolding e timespec.simps using b d by linarith
qed

theorem to_timespec_exact_witness:
  "tv_sec (to_timespec 1500) * 1000000000 + tv_nsec (to_timespec 1500) = 1500 * 1000000"
  using to_timespec_exact [of 1500] by simp

section \<open>No lost notification\<close>

text \<open>
  One writer that notifies (\<open>write_and_notify\<close>: count up, then wake all) and one reader that takes a
  snapshot of the counter (\<open>notify_counter\<close>), does its work and then waits (\<open>wait_for_update\<close>). The
  kernel compares and blocks in one step, and answers at once when the value differs.
\<close>

datatype notifier = NotifyIdle | NotifyWake
datatype waiter = WaiterIdle | WaiterSnap u32 | WaiterBlocked u32 int | WaiterDone bool

text \<open>Waking everybody who waits on the word; the result is the number of those woken.\<close>

fun futex_wake_all :: "waiter \<Rightarrow> int \<times> waiter" where
  "futex_wake_all (WaiterBlocked e t) = (1, WaiterDone (futex_wait_timeout (\<lambda>_ _. Woken) e t))"
| "futex_wake_all r = (0, r)"

record notify_sys =
  counter :: u64
  notifier :: notifier
  waiter :: waiter

definition notify_init :: "notify_sys \<Rightarrow> bool" where
  "notify_init s \<longleftrightarrow> notifier s = NotifyIdle \<and> waiter s = WaiterIdle"

inductive notify_step :: "notify_sys \<Rightarrow> notify_sys \<Rightarrow> bool" where
  count: "notifier s = NotifyIdle \<Longrightarrow>
    notify_step s (s\<lparr>counter := counter s + 1, notifier := NotifyWake\<rparr>)"
| wake: "notifier s = NotifyWake \<Longrightarrow>
    notify_step s (s\<lparr>notifier := NotifyIdle, waiter := snd (futex_wake_all (waiter s))\<rparr>)"
| snapshot: "waiter s = WaiterIdle \<Longrightarrow>
    notify_step s (s\<lparr>waiter := WaiterSnap (futex_load (counter s))\<rparr>)"
| wait_changed: "waiter s = WaiterSnap e \<Longrightarrow> futex_word (counter s) \<noteq> e \<Longrightarrow>
    notify_step s (s\<lparr>waiter := WaiterDone (futex_wait_timeout (\<lambda>_ _. EAGAIN) e t)\<rparr>)"
| wait_blocks: "waiter s = WaiterSnap e \<Longrightarrow> futex_word (counter s) = e \<Longrightarrow>
    notify_step s (s\<lparr>waiter := WaiterBlocked e t\<rparr>)"
| timed_out: "waiter s = WaiterBlocked e t \<Longrightarrow>
    notify_step s (s\<lparr>waiter := WaiterDone (futex_wait_timeout (\<lambda>_ _. ETIMEDOUT) e t)\<rparr>)"
| interrupted: "waiter s = WaiterBlocked e t \<Longrightarrow>
    notify_step s (s\<lparr>waiter := WaiterDone (futex_wait_timeout (\<lambda>_ _. EINTR) e t)\<rparr>)"
| again: "waiter s = WaiterDone b \<Longrightarrow> notify_step s (s\<lparr>waiter := WaiterIdle\<rparr>)"

definition notify_inv :: "notify_sys \<Rightarrow> bool" where
  "notify_inv s \<longleftrightarrow>
     (\<forall>e t. waiter s = WaiterBlocked e t \<longrightarrow> notifier s = NotifyIdle \<longrightarrow> futex_load (counter s) = e)"

lemma woken_not_blocked: "snd (futex_wake_all r) \<noteq> WaiterBlocked e t"
  by (cases r) simp_all

interpretation notify: invariant_system notify_init notify_step notify_inv
proof
  show "notify_init s \<Longrightarrow> notify_inv s" for s by (simp add: notify_init_def notify_inv_def)
  show "notify_inv s \<Longrightarrow> notify_step s s' \<Longrightarrow> notify_inv s'" for s s'
    by (erule notify_step.cases)
      (auto simp: notify_inv_def futex_word_load woken_not_blocked)
qed

text \<open>
  C21. No notification is lost: whenever the reader is blocked and the writer is not in the middle
  of a notification, the counter still has the value the reader saw before it went to wait. The
  reader blocks only on news it has already seen.
\<close>

theorem no_lost_notification:
  assumes "reachable notify_init notify_step s" "waiter s = WaiterBlocked e t" "notifier s = NotifyIdle"
  shows "futex_load (counter s) = e"
  using notify.inv_reachable [OF assms(1)] assms(2,3) by (simp add: notify_inv_def)

definition blocked_reader :: notify_sys where
  "blocked_reader = \<lparr>counter = 5, notifier = NotifyIdle, waiter = WaiterBlocked 5 100\<rparr>"

theorem no_lost_notification_witness:
  "reachable notify_init notify_step blocked_reader \<and> futex_load (counter blocked_reader) = 5"
proof
  let ?s = "\<lparr>counter = 5, notifier = NotifyIdle, waiter = WaiterIdle\<rparr>"
  have "notify_step ?s (?s\<lparr>waiter := WaiterSnap (futex_load (counter ?s))\<rparr>)"
    by (rule notify_step.snapshot) simp
  moreover have "notify_step (?s\<lparr>waiter := WaiterSnap 5\<rparr>) (?s\<lparr>waiter := WaiterSnap 5, waiter := WaiterBlocked 5 100\<rparr>)"
    by (rule notify_step.wait_blocks) (simp_all add: futex_word_load futex_load_def)
  moreover have "?s\<lparr>waiter := WaiterSnap (futex_load (counter ?s))\<rparr> = ?s\<lparr>waiter := WaiterSnap 5\<rparr>"
    "?s\<lparr>waiter := WaiterSnap 5, waiter := WaiterBlocked 5 100\<rparr> = blocked_reader"
    by (simp_all add: blocked_reader_def futex_load_def)
  ultimately have "notify_step\<^sup>*\<^sup>* ?s blocked_reader" by (metis converse_rtranclp_into_rtranclp rtranclp.rtrancl_refl)
  then show r: "reachable notify_init notify_step blocked_reader"
    unfolding reachable_def notify_init_def by (intro exI [of _ ?s]) simp
  show "futex_load (counter blocked_reader) = 5"
    by (rule no_lost_notification [OF r]) (simp_all add: blocked_reader_def)
qed

end
