(* ===== verification/Shared_Latest.thy ===== *)
theory Shared_Latest
  imports Ring_Files Futex
begin

text \<open>
  \<open>SharedLatest<T>\<close> of \<open>include/lf_ring/shared_latest.hpp\<close>: one slot guarded by a sequence lock.
  The argument \<open>n\<close> is \<open>sizeof(T)\<close>, a value is its bytes. Control words are used as the code uses
  them: \<open>sequence\<close> is the lock, \<open>head_reserve\<close> the heartbeat, \<open>tail_publish\<close> the notification counter.

  A reader changes nothing, so it is a function of what it sees at its successive loads: \<open>\<sigma> k\<close> is
  the slot at the \<open>k\<close>-th access, \<open>clock k\<close> the time then. A \<open>memcpy\<close> out of the slot takes one
  access per byte.
\<close>

unbundle bit_operations_syntax

section \<open>Writing\<close>

definition latest_write :: "u64 \<Rightarrow> byte list \<Rightarrow> ring_state \<Rightarrow> ring_state exec" where
  "latest_write now value st =
     (let s = sequence (control st);
          st1 = st\<lparr>control := (control st)\<lparr>sequence := s + 1\<rparr>\<rparr>
      in bindE (store_bytes (ring st1) 0 value) (\<lambda>m.
           let st2 = st1\<lparr>ring := m\<rparr>;
               st3 = st2\<lparr>control := (control st2)\<lparr>sequence := s + 2\<rparr>\<rparr>
           in Inr (st3\<lparr>control := (control st3)\<lparr>head_reserve := now\<rparr>\<rparr>)))"

definition latest_notify :: "ring_state \<Rightarrow> ring_state" where
  "latest_notify st = st\<lparr>control := (control st)\<lparr>tail_publish := tail_publish (control st) + 1\<rparr>\<rparr>"

definition latest_write_and_notify :: "u64 \<Rightarrow> byte list \<Rightarrow> ring_state \<Rightarrow> ring_state exec" where
  "latest_write_and_notify now value st =
     bindE (latest_write now value st) (\<lambda>st. Inr (latest_notify st))"

definition notify_counter :: "ring_state \<Rightarrow> u32" where
  "notify_counter st = futex_load (tail_publish (control st))"

definition wait_for_update :: "(u32 \<Rightarrow> timespec \<Rightarrow> wait_answer) \<Rightarrow> u32 \<Rightarrow> int \<Rightarrow> bool" where
  "wait_for_update answers last_seen timeout = futex_wait_timeout answers last_seen timeout"

section \<open>Reading\<close>

datatype ReadResult = kSuccess | kEmpty | kContended | kWriterDead

definition copy_observed :: "(nat \<Rightarrow> ring_state) \<Rightarrow> nat \<Rightarrow> nat \<Rightarrow> byte list exec" where
  "copy_observed \<sigma> k n =
     (if list_all (\<lambda>i. i < length (ring (\<sigma> (k + i)))) [0..<n]
      then Inr (map (\<lambda>i. ring (\<sigma> (k + i)) ! i) [0..<n])
      else Inl OutOfBounds)"

text \<open>The result is the status, the output argument and the number of accesses made so far.\<close>

fun latest_try_read ::
  "(nat \<Rightarrow> ring_state) \<Rightarrow> nat \<Rightarrow> nat \<Rightarrow> nat \<Rightarrow> byte list \<Rightarrow> (bool \<times> byte list \<times> nat) exec"
where
  "latest_try_read \<sigma> n 0 k dst = Inr (False, dst, k)"
| "latest_try_read \<sigma> n (Suc retries) k dst =
     (let s1 = sequence (control (\<sigma> k))
      in if s1 AND 1 \<noteq> 0 then latest_try_read \<sigma> n retries (k + 1) dst
         else bindE (copy_observed \<sigma> (k + 1) n) (\<lambda>v.
           let s2 = sequence (control (\<sigma> (k + 1 + n)))
           in if s1 = s2 then Inr (True, v, k + n + 2)
              else latest_try_read \<sigma> n retries (k + n + 2) v))"

text \<open>The loop of the overload with a status; \<open>i\<close> is the loop counter, \<open>retries\<close> the turns left.\<close>

fun status_loop ::
  "(nat \<Rightarrow> ring_state) \<Rightarrow> (nat \<Rightarrow> u64) \<Rightarrow> nat \<Rightarrow> u64 \<Rightarrow> nat \<Rightarrow> nat \<Rightarrow> nat \<Rightarrow> byte list \<Rightarrow>
     (ReadResult \<times> byte list \<times> nat) exec"
where
  "status_loop \<sigma> clock n dead_threshold i 0 k dst = Inr (kContended, dst, k)"
| "status_loop \<sigma> clock n dead_threshold i (Suc retries) k dst =
     (let s1 = sequence (control (\<sigma> k))
      in if s1 AND 1 \<noteq> 0 then
           (if (of_nat i :: u64) AND 0x3F = 0x3F then
              (let hb = head_reserve (control (\<sigma> (k + 1)));
                   now = clock (k + 2)
               in if hb \<noteq> 0 \<and> now - hb > dead_threshold then Inr (kWriterDead, dst, k + 3)
                  else status_loop \<sigma> clock n dead_threshold (i + 1) retries (k + 3) dst)
            else status_loop \<sigma> clock n dead_threshold (i + 1) retries (k + 1) dst)
         else bindE (copy_observed \<sigma> (k + 1) n) (\<lambda>v.
           let s2 = sequence (control (\<sigma> (k + 1 + n)))
           in if s1 = s2 then Inr (kSuccess, v, k + n + 2)
              else status_loop \<sigma> clock n dead_threshold (i + 1) retries (k + n + 2) v))"

definition latest_try_read_status ::
  "(nat \<Rightarrow> ring_state) \<Rightarrow> (nat \<Rightarrow> u64) \<Rightarrow> nat \<Rightarrow> u64 \<Rightarrow> nat \<Rightarrow> nat \<Rightarrow> byte list \<Rightarrow>
     (ReadResult \<times> byte list \<times> nat) exec"
where
  "latest_try_read_status \<sigma> clock n dead_threshold max_retries k dst =
     (if sequence (control (\<sigma> k)) = 0 then Inr (kEmpty, dst, k + 1)
      else status_loop \<sigma> clock n dead_threshold 0 max_retries (k + 1) dst)"

definition is_writer_alive :: "ring_state \<Rightarrow> u64 \<Rightarrow> u64 \<Rightarrow> bool" where
  "is_writer_alive st now threshold =
     (let hb = head_reserve (control st)
      in if hb = 0 then False else now - hb < threshold)"

definition raw_sequence :: "ring_state \<Rightarrow> u64" where
  "raw_sequence st = sequence (control st)"

section \<open>Factories and recovery\<close>

definition latest_create :: "os_env \<Rightarrow> string \<Rightarrow> u64 \<Rightarrow> world \<Rightarrow> ((exn + Mapping) \<times> world) exec" where
  "latest_create env path n w = create_mapping env path n kFlagLatest w"

definition latest_open :: "os_env \<Rightarrow> string \<Rightarrow> world \<Rightarrow> ((exn + Mapping) \<times> world) exec" where
  "latest_open env path w = open_mapping env path kFlagLatest w"

text \<open>
  The part of \<open>claim\<close> that works on an existing slot. \<open>cas_value\<close> is the heartbeat the
  compare-and-swap finds: another process may have changed it since it was loaded.
\<close>

definition claim_slot :: "u64 \<Rightarrow> u64 \<Rightarrow> u64 \<Rightarrow> ring_state \<Rightarrow> (exn + ClaimResult) \<times> ring_state" where
  "claim_slot now dead_threshold cas_value st =
     (let s = sequence (control st)
      in if s AND 1 = 0 then
           (Inr kResumed, st\<lparr>control := (control st)\<lparr>head_reserve := now\<rparr>\<rparr>)
         else let old_hb = head_reserve (control st)
         in if old_hb \<noteq> 0 \<and> now - old_hb < dead_threshold then
              (Inl (runtime_error ''SharedLatest::claim: live writer detected (heartbeat is fresh)''), st)
            else if cas_value \<noteq> old_hb then
              (Inl (runtime_error ''SharedLatest::claim: another process claimed ownership first''), st)
            else
              let st1 = st\<lparr>control := (control st)\<lparr>head_reserve := now\<rparr>\<rparr>;
                  st2 = st1\<lparr>ring := replicate (length (ring st1)) 0\<rparr>;
                  st3 = st2\<lparr>control := (control st2)\<lparr>sequence := 0\<rparr>\<rparr>
              in (Inr kRecovered, latest_notify st3))"

definition latest_claim ::
  "os_env \<Rightarrow> string \<Rightarrow> u64 \<Rightarrow> u64 \<Rightarrow> u64 \<Rightarrow> u64 \<Rightarrow> world \<Rightarrow>
     ((exn + Mapping) \<times> ClaimResult option \<times> world) exec option"
where
  "latest_claim env path n now dead_threshold cas_value w =
     (if files w path = None then
        bindL (Some (create_mapping env path n kFlagLatest w)) (\<lambda>(res, w1).
          Some (Inr (res, Some kCreated, w1)))
      else
        bindL (Some (open_mapping env path kFlagLatest w)) (\<lambda>(res, w1).
          case res of
            Inl e \<Rightarrow> Some (Inr (Inl e, None, w1))
          | Inr mp \<Rightarrow>
              bindL (on_ring mp (\<lambda>st. Some (Inr (claim_slot now dead_threshold cas_value st))) w1)
                (\<lambda>(r, w2). case r of
                   Inl e \<Rightarrow> Some (Inr (Inl e, None, snd (reset mp w2)))
                 | Inr result \<Rightarrow> Some (Inr (Inr mp, Some result, w2)))))"

section \<open>One process at a time\<close>

text \<open>Reading a slot that nobody changes any more.\<close>

lemma copy_quiet:
  assumes "\<forall>j \<ge> k. \<sigma> j = st" "n \<le> length (ring st)"
  shows "copy_observed \<sigma> k n = Inr (take n (ring st))"
proof -
  have "\<sigma> (k + i) = st" for i using assms(1) by simp
  then show ?thesis
    using assms(2) by (auto simp: copy_observed_def list_all_iff intro: nth_equalityI)
qed

lemma read_quiet:
  assumes "\<forall>j \<ge> k. \<sigma> j = st" "sequence (control st) AND 1 = 0" "n \<le> length (ring st)" "0 < retries"
  shows "latest_try_read \<sigma> n retries k dst = Inr (True, take n (ring st), k + n + 2)"
    and "sequence (control st) \<noteq> 0 \<Longrightarrow> latest_try_read_status \<sigma> clock n threshold retries k dst =
      Inr (kSuccess, take n (ring st), k + n + 3)"
proof -
  obtain r where r: "retries = Suc r" using assms(4) by (cases retries) auto
  have s: "\<sigma> (k + d) = st" for d using assms(1) by simp
  have s0: "\<sigma> k = st" "\<sigma> (Suc k) = st" using s [of 0] s [of 1] by simp_all
  have "copy_observed \<sigma> (k + 1) n = Inr (take n (ring st))" "copy_observed \<sigma> (k + 2) n = Inr (take n (ring st))"
    using assms(1,3) by (simp_all add: copy_quiet)
  then show "latest_try_read \<sigma> n retries k dst = Inr (True, take n (ring st), k + n + 2)"
    "sequence (control st) \<noteq> 0 \<Longrightarrow> latest_try_read_status \<sigma> clock n threshold retries k dst =
      Inr (kSuccess, take n (ring st), k + n + 3)"
    using assms(2) s [of "1 + n"] s [of "2 + n"]
    by (simp_all add: r Let_def latest_try_read_status_def s0)
qed

lemma ucast_add_one: "(ucast (a + 1 :: u64) :: u32) = ucast a + 1"
  by transfer (auto simp: take_bit_eq_mod mod_mod_cancel intro!: mod_add_cong)

lemma word_even_add_2: "(s + 2 :: u64) AND 1 = s AND 1"
  by (simp add: and_one_eq mod_2_eq_odd)

section \<open>Properties\<close>

text \<open>
  What is written is read: after a write to a slot that is not being written, both reads
  succeed at once with exactly the bytes written. (The status is \<open>kEmpty\<close> when the sequence number
  comes round to zero, after \<open>2^63\<close> writes.)
\<close>

theorem latest_write_then_read:
  assumes "sequence (control st) AND 1 = 0" "length v \<le> length (ring st)" "0 < retries"
  shows "\<exists>st'. latest_write now v st = Inr st' \<and>
    latest_try_read (\<lambda>_. st') (length v) retries k dst = Inr (True, v, k + length v + 2) \<and>
    latest_try_read_status (\<lambda>_. st') clock (length v) threshold retries k dst =
      (if sequence (control st) + 2 = 0 then Inr (kEmpty, dst, k + 1)
       else Inr (kSuccess, v, k + length v + 3)) \<and>
    (0 < life \<and> now \<noteq> 0 \<longrightarrow> is_writer_alive st' now life)"
proof -
  let ?st = "st\<lparr>ring := mem_write (ring st) 0 v,
    control := (control st)\<lparr>sequence := sequence (control st) + 2, head_reserve := now\<rparr>\<rparr>"
  have w: "latest_write now v st = Inr ?st"
    using assms(2) by (simp add: latest_write_def Let_def store_bytes_ok)
  have r: "sequence (control ?st) AND 1 = 0" "length v \<le> length (ring ?st)"
    "take (length v) (ring ?st) = v"
    using assms(1,2) by (simp_all add: word_even_add_2 mem_write_def)
  show ?thesis
    using w read_quiet [OF _ r(1,2) assms(3), of _ "\<lambda>_. ?st"] r(3)
    by (auto simp: latest_try_read_status_def is_writer_alive_def)
qed

theorem latest_write_then_read_witness:
  "\<exists>st'. latest_write 77 [1, 2, 3] (empty_ring 8) = Inr st' \<and>
    latest_try_read (\<lambda>_. st') 3 1024 0 [] = Inr (True, [1, 2, 3], 5)"
  using latest_write_then_read [of "empty_ring 8" "[1, 2, 3]" 1024 77 0 "[]" "\<lambda>_. 0" 0 0]
  by (auto simp: empty_ring_def numeral_3_eq_3)

text \<open>
  C23. What \<open>claim\<close> does with an existing slot. On an even sequence number it always resumes, whatever the
  heartbeat: only the heartbeat changes, so readers go on to get the value that was there. On an odd one
  it never takes over from a writer whose heartbeat is fresh, nor from a process that recovered first: it
  throws and changes nothing. Otherwise it recovers: the bytes are cleared, readers get \<open>kEmpty\<close>,
  waiters see a new notification. After either success the claimer counts as alive.
\<close>

theorem claim_recovers_dead_writer:
  "if sequence (control st) AND 1 = 0
    then \<exists>st'. claim_slot now dead_threshold cas_value st = (Inr kResumed, st') \<and>
      st' = st\<lparr>control := (control st)\<lparr>head_reserve := now\<rparr>\<rparr> \<and>
      (sequence (control st) \<noteq> 0 \<and> n \<le> length (ring st) \<and> 0 < retries \<longrightarrow>
        latest_try_read_status (\<lambda>_. st') clock n threshold retries k dst =
          Inr (kSuccess, take n (ring st), k + n + 3)) \<and>
      (now \<noteq> 0 \<and> 0 < life \<longrightarrow> is_writer_alive st' now life)
    else if head_reserve (control st) \<noteq> 0 \<and> now - head_reserve (control st) < dead_threshold \<or>
        cas_value \<noteq> head_reserve (control st)
    then \<exists>msg. claim_slot now dead_threshold cas_value st = (Inl (runtime_error msg), st)
    else \<exists>st'. claim_slot now dead_threshold cas_value st = (Inr kRecovered, st') \<and>
      ring st' = replicate (length (ring st)) 0 \<and>
      latest_try_read_status (\<lambda>_. st') clock n threshold retries k dst = Inr (kEmpty, dst, k + 1) \<and>
      notify_counter st' = notify_counter st + 1 \<and>
      (now \<noteq> 0 \<and> 0 < life \<longrightarrow> is_writer_alive st' now life)"
proof (cases "sequence (control st) AND 1 = 0")
  case True
  let ?st = "st\<lparr>control := (control st)\<lparr>head_reserve := now\<rparr>\<rparr>"
  have "latest_try_read_status (\<lambda>_. ?st) clock n threshold retries k dst =
      Inr (kSuccess, take n (ring st), k + n + 3)" if "sequence (control st) \<noteq> 0" "n \<le> length (ring st)" "0 < retries"
    using read_quiet(2) [of k "\<lambda>_. ?st" ?st n retries clock threshold dst] that True by simp
  with True show ?thesis by (simp add: claim_slot_def is_writer_alive_def)
next
  case False
  have "futex_load (a + 1) = futex_load a + 1" for a
    by (simp add: futex_load_def ucast_add_one)
  with False show ?thesis
    by (auto simp: claim_slot_def Let_def latest_try_read_status_def latest_notify_def
        notify_counter_def is_writer_alive_def)
qed

text \<open>A slot left by a writer that died in a write, with heartbeat 5.\<close>

definition abandoned_slot :: ring_state where
  "abandoned_slot = (empty_ring 8)\<lparr>control := (control (empty_ring 8))\<lparr>sequence := 3, head_reserve := 5\<rparr>\<rparr>"

text \<open>A slot whose writer committed a value one nanosecond ago.\<close>

definition live_slot :: ring_state where
  "live_slot = (empty_ring 8)\<lparr>ring := [7, 7, 0, 0, 0, 0, 0, 0],
     control := (control (empty_ring 8))\<lparr>sequence := 2, head_reserve := 999\<rparr>\<rparr>"

theorem claim_recovers_dead_writer_witness:
  "(\<exists>st'. claim_slot 1000 500 5 abandoned_slot = (Inr kRecovered, st') \<and>
     ring st' = replicate (length (ring abandoned_slot)) 0 \<and> is_writer_alive st' 1000 1) \<and>
   (\<exists>msg. claim_slot 1000 996 5 abandoned_slot = (Inl (runtime_error msg), abandoned_slot)) \<and>
   is_writer_alive live_slot 1000 500 \<and>
   (\<exists>st'. claim_slot 1000 500 999 live_slot = (Inr kResumed, st') \<and>
     latest_try_read_status (\<lambda>_. st') (\<lambda>_. 0) 2 0 1 0 [] = Inr (kSuccess, [7, 7], 5))"
proof (intro conjI)
  show "\<exists>st'. claim_slot 1000 500 5 abandoned_slot = (Inr kRecovered, st') \<and>
      ring st' = replicate (length (ring abandoned_slot)) 0 \<and> is_writer_alive st' 1000 1"
    using claim_recovers_dead_writer [of abandoned_slot 1000 500 5 2 1 "\<lambda>_. 0" 0 0 "[]" 1]
    by (auto simp: abandoned_slot_def empty_ring_def)
  show "\<exists>msg. claim_slot 1000 996 5 abandoned_slot = (Inl (runtime_error msg), abandoned_slot)"
    using claim_recovers_dead_writer [of abandoned_slot 1000 996 5 2 1 "\<lambda>_. 0" 0 0 "[]" 1]
    by (auto simp: abandoned_slot_def empty_ring_def)
  show "\<exists>st'. claim_slot 1000 500 999 live_slot = (Inr kResumed, st') \<and>
      latest_try_read_status (\<lambda>_. st') (\<lambda>_. 0) 2 0 1 0 [] = Inr (kSuccess, [7, 7], 5)"
    using claim_recovers_dead_writer [of live_slot 1000 500 999 2 1 "\<lambda>_. 0" 0 0 "[]" 1]
    by (auto simp: live_slot_def empty_ring_def)
qed (simp add: live_slot_def empty_ring_def is_writer_alive_def)

end
