(* ===== verification/Seqlock.thy ===== *)
theory Seqlock
  imports Shared_Latest
begin

text \<open>
  \<open>SharedLatest\<close> under concurrency: the writer's \<open>write\<close> cut into its accesses, one byte at a time,
  observed by any number of readers. Readers never see a torn value as long as nobody recovers the
  slot; two runs show what recovery by \<open>claim\<close> can do to a reader that is under way.
\<close>

unbundle bit_operations_syntax

section \<open>The writer, access by access\<close>

text \<open>
  Where the writer is in \<open>write\<close>: outside, after loading \<open>seq\<close>, copying byte \<open>i\<close>, after the commit
  and before the heartbeat. \<open>hist\<close> records the committed values, the first being the zeroes of a new
  file; the number of writes is kept below \<open>2^63\<close>, so that the sequence number does not come round.
\<close>

datatype wpc = WIdle | WBegin u64 "byte list" | WCopy u64 "byte list" nat | WHeart

record latest_sys =
  slot :: ring_state
  wpc :: wpc
  hist :: "byte list list"

definition latest_init :: "nat \<Rightarrow> latest_sys \<Rightarrow> bool" where
  "latest_init n s \<longleftrightarrow> (\<exists>c \<ge> n. slot s = empty_ring c) \<and> wpc s = WIdle \<and> hist s = [replicate n 0]"

inductive latest_step :: "nat \<Rightarrow> latest_sys \<Rightarrow> latest_sys \<Rightarrow> bool" for n where
  load: "wpc s = WIdle \<Longrightarrow> length v = n \<Longrightarrow> length (hist s) < 2 ^ 63 \<Longrightarrow>
    latest_step n s (s\<lparr>wpc := WBegin (sequence (control (slot s))) v\<rparr>)"
| begin_write: "wpc s = WBegin q v \<Longrightarrow>
    latest_step n s (s\<lparr>slot := (slot s)\<lparr>control := (control (slot s))\<lparr>sequence := q + 1\<rparr>\<rparr>,
      wpc := WCopy q v 0\<rparr>)"
| copy_byte: "wpc s = WCopy q v i \<Longrightarrow> i < n \<Longrightarrow>
    latest_step n s (s\<lparr>slot := (slot s)\<lparr>ring := (ring (slot s))[i := v ! i]\<rparr>, wpc := WCopy q v (Suc i)\<rparr>)"
| commit: "wpc s = WCopy q v n \<Longrightarrow>
    latest_step n s (s\<lparr>slot := (slot s)\<lparr>control := (control (slot s))\<lparr>sequence := q + 2\<rparr>\<rparr>,
      wpc := WHeart, hist := hist s @ [v]\<rparr>)"
| heartbeat: "wpc s = WHeart \<Longrightarrow>
    latest_step n s (s\<lparr>slot := (slot s)\<lparr>control := (control (slot s))\<lparr>head_reserve := now\<rparr>\<rparr>,
      wpc := WIdle\<rparr>)"

definition latest_ver :: "latest_sys \<Rightarrow> nat" where
  "latest_ver s = 2 * (length (hist s) - 1) + (case wpc s of WCopy _ _ _ \<Rightarrow> 1 | _ \<Rightarrow> 0)"

definition latest_inv :: "nat \<Rightarrow> latest_sys \<Rightarrow> bool" where
  "latest_inv n s \<longleftrightarrow>
     hist s \<noteq> [] \<and> length (hist s) \<le> 2 ^ 63 \<and> n \<le> length (ring (slot s)) \<and>
     sequence (control (slot s)) = of_nat (latest_ver s) \<and>
     (case wpc s of
        WCopy q v i \<Rightarrow> length v = n \<and> i \<le> n \<and> q = of_nat (2 * (length (hist s) - 1)) \<and>
          length (hist s) < 2 ^ 63 \<and> take i (ring (slot s)) = take i v
      | WBegin q v \<Rightarrow> length v = n \<and> q = of_nat (2 * (length (hist s) - 1)) \<and>
          length (hist s) < 2 ^ 63 \<and> take n (ring (slot s)) = last (hist s)
      | _ \<Rightarrow> take n (ring (slot s)) = last (hist s))"

lemma take_Suc_update:
  "i < length xs \<Longrightarrow> i < length v \<Longrightarrow> take i xs = take i v \<Longrightarrow>
     take (Suc i) (xs[i := v ! i]) = take (Suc i) v"
  by (simp add: take_Suc_conv_app_nth)

interpretation seqlock: versioned_system "latest_init n" "latest_step n" "latest_inv n" latest_ver
proof
  show "latest_init n s \<Longrightarrow> latest_inv n s" for s
    by (auto simp: latest_init_def latest_inv_def latest_ver_def empty_ring_def)
  show "latest_inv n s \<Longrightarrow> latest_step n s s' \<Longrightarrow> latest_ver s \<le> latest_ver s'" for s s'
    by (cases "hist s"; erule latest_step.cases) (auto simp: latest_ver_def latest_inv_def)
  fix s s' assume inv: "latest_inv n s" and "latest_step n s s'"
  from this(2) show "latest_inv n s'"
  proof cases
    case (copy_byte q v i)
    with inv show ?thesis
      by (auto simp: latest_inv_def latest_ver_def intro!: take_Suc_update)
  next
    case (commit q v)
    have "2 * (length (hist s) - 1) + 2 = 2 * length (hist s)"
      using inv by (cases "hist s") (auto simp: latest_inv_def)
    then have "(of_nat (2 * (length (hist s) - 1)) + 2 :: u64) = of_nat (2 * length (hist s))"
      by (metis of_nat_add of_nat_numeral)
    with commit inv show ?thesis
      by (auto simp: latest_inv_def latest_ver_def)
  qed (use inv in \<open>auto simp: latest_inv_def latest_ver_def\<close>)
qed

section \<open>Stable reads\<close>

lemma hist_grows: "(latest_step n)\<^sup>*\<^sup>* s s' \<Longrightarrow> \<exists>vs. hist s' = hist s @ vs"
  by (induction rule: rtranclp_induct) (auto elim: latest_step.cases)

lemma latest_ver_bound: "latest_inv n s \<Longrightarrow> latest_ver s < 2 ^ 64"
  by (auto simp: latest_inv_def latest_ver_def split: wpc.splits)

lemma word_even_of_nat: "(of_nat k :: u64) AND 1 = 0 \<longleftrightarrow> even k"
  by (simp add: and_one_eq flip: even_iff_mod_2_eq_zero)

lemma even_ver_committed:
  "latest_inv n s \<Longrightarrow> even (latest_ver s) \<Longrightarrow> take n (ring (slot s)) = last (hist s)"
  by (cases "wpc s") (simp_all add: latest_inv_def latest_ver_def)

lemma latest_ring_size: "latest_inv n s \<Longrightarrow> n \<le> length (ring (slot s))"
  by (simp add: latest_inv_def)

text \<open>Between two loads of the same even sequence number, the slot holds the last committed value.\<close>

lemma stable_slot:
  assumes obs: "observation (latest_init n) (latest_step n) \<sigma>" and "a \<le> j" "j \<le> b"
    and even: "sequence (control (slot (\<sigma> a))) AND 1 = 0"
    and eq: "sequence (control (slot (\<sigma> a))) = sequence (control (slot (\<sigma> b)))"
  shows "take n (ring (slot (\<sigma> j))) = last (hist (\<sigma> a))" "n \<le> length (ring (slot (\<sigma> j)))"
proof -
  note I = seqlock.inv_observed [OF obs]
  have q: "sequence (control (slot (\<sigma> i))) = of_nat (latest_ver (\<sigma> i))" for i
    using I [of i] by (simp add: latest_inv_def)
  have "latest_ver (\<sigma> a) = latest_ver (\<sigma> b)"
    using eq latest_ver_bound [OF I [of a]] latest_ver_bound [OF I [of b]]
    unfolding q by (metis unat_of_nat_small)
  then have vj: "latest_ver (\<sigma> j) = latest_ver (\<sigma> a)"
    using seqlock.ver_between [OF obs assms(2,3)] by simp
  have ev: "even (latest_ver (\<sigma> a))" using even unfolding q word_even_of_nat .
  obtain vs where vs: "hist (\<sigma> j) = hist (\<sigma> a) @ vs"
    using hist_grows observation_steps [OF obs assms(2)] by blast
  have "hist (\<sigma> a) \<noteq> []" using I [of a] by (simp add: latest_inv_def)
  then have "hist (\<sigma> j) = hist (\<sigma> a)"
    using vj ev vs by (cases "hist (\<sigma> a)") (auto simp: latest_ver_def split: wpc.splits)
  with even_ver_committed [OF I [of j]] vj ev
  show "take n (ring (slot (\<sigma> j))) = last (hist (\<sigma> a))" by simp
  show "n \<le> length (ring (slot (\<sigma> j)))" by (rule latest_ring_size [OF I])
qed

lemma stable_copy:
  assumes obs: "observation (latest_init n) (latest_step n) \<sigma>"
    and even: "sequence (control (slot (\<sigma> a))) AND 1 = 0"
    and eq: "sequence (control (slot (\<sigma> a))) = sequence (control (slot (\<sigma> (a + 1 + n))))"
    and copy: "copy_observed (\<lambda>k. slot (\<sigma> k)) (a + 1) n = Inr v"
  shows "v = last (hist (\<sigma> a))"
proof -
  have st: "take n (ring (slot (\<sigma> (a + 1 + i)))) = last (hist (\<sigma> a))"
    "n \<le> length (ring (slot (\<sigma> (a + 1 + i))))" if "i < n" for i
    using that by (intro stable_slot [OF obs _ _ even eq]; simp)+
  have "length (last (hist (\<sigma> a))) = n"
    using stable_slot [OF obs, of a a "a + 1 + n"] even eq by (metis le_add1 length_take min.absorb2 order_refl add.assoc)
  moreover have "ring (slot (\<sigma> (a + 1 + i))) ! i = last (hist (\<sigma> a)) ! i" if "i < n" for i
    using st [OF that] that by (metis nth_take)
  moreover have "v = map (\<lambda>i. ring (slot (\<sigma> (a + 1 + i))) ! i) [0..<n]"
    using copy by (auto simp: copy_observed_def split: if_splits)
  ultimately show ?thesis by (intro nth_equalityI) auto
qed

lemma ex_later: "\<exists>j. a \<le> j \<and> P j \<Longrightarrow> b \<le> a \<Longrightarrow> \<exists>j. b \<le> j \<and> P j" for a b :: nat
  using le_trans by blast

lemma try_read_committed:
  assumes "observation (latest_init n) (latest_step n) \<sigma>"
    and "latest_try_read (\<lambda>k. slot (\<sigma> k)) n retries k dst = Inr (True, v, k')"
  shows "\<exists>j. k \<le> j \<and> j < k' \<and> v = last (hist (\<sigma> j))"
  using assms(2)
proof (induction retries arbitrary: k dst)
  case 0
  then show ?case by simp
next
  case (Suc r)
  show ?case
  proof (cases "sequence (control (slot (\<sigma> k))) AND 1 = 0")
    case False
    with Suc.prems have "latest_try_read (\<lambda>k. slot (\<sigma> k)) n r (k + 1) dst = Inr (True, v, k')"
      by (simp add: Let_def)
    from ex_later [OF Suc.IH [OF this]] show ?thesis by simp
  next
    case True
    then obtain u where u: "copy_observed (\<lambda>k. slot (\<sigma> k)) (k + 1) n = Inr u"
      using Suc.prems by (auto simp: Let_def bindE_eq_Inr)
    show ?thesis
    proof (cases "sequence (control (slot (\<sigma> k))) = sequence (control (slot (\<sigma> (k + 1 + n))))")
      case eq: True
      with Suc.prems True u have "v = u" "k' = k + n + 2" by (auto simp: Let_def)
      with stable_copy [OF assms(1) True eq u] show ?thesis by (intro exI [of _ k]) simp
    next
      case neq: False
      with Suc.prems True u have "latest_try_read (\<lambda>k. slot (\<sigma> k)) n r (k + n + 2) u = Inr (True, v, k')"
        by (simp add: Let_def)
      from ex_later [OF Suc.IH [OF this]] show ?thesis by simp
    qed
  qed
qed

lemma status_loop_committed:
  assumes "observation (latest_init n) (latest_step n) \<sigma>"
    and "status_loop (\<lambda>k. slot (\<sigma> k)) clock n thr i retries k dst = Inr (kSuccess, v, k')"
  shows "\<exists>j. k \<le> j \<and> j < k' \<and> sequence (control (slot (\<sigma> j))) AND 1 = 0 \<and> v = last (hist (\<sigma> j))"
  using assms(2)
proof (induction retries arbitrary: i k dst)
  case 0
  then show ?case by simp
next
  case (Suc r)
  show ?case
  proof (cases "sequence (control (slot (\<sigma> k))) AND 1 = 0")
    case False
    with Suc.prems have "\<exists>d \<in> {1, 3}. status_loop (\<lambda>k. slot (\<sigma> k)) clock n thr (i + 1) r (k + d) dst =
        Inr (kSuccess, v, k')"
      by (simp add: Let_def split: if_splits)
    then obtain d where
      "status_loop (\<lambda>k. slot (\<sigma> k)) clock n thr (i + 1) r (k + d) dst = Inr (kSuccess, v, k')" by blast
    from ex_later [OF Suc.IH [OF this]] show ?thesis by simp
  next
    case True
    then obtain u where u: "copy_observed (\<lambda>k. slot (\<sigma> k)) (k + 1) n = Inr u"
      using Suc.prems by (auto simp: Let_def bindE_eq_Inr)
    show ?thesis
    proof (cases "sequence (control (slot (\<sigma> k))) = sequence (control (slot (\<sigma> (k + 1 + n))))")
      case eq: True
      with Suc.prems True u have "v = u" "k' = k + n + 2" by (auto simp: Let_def)
      with stable_copy [OF assms(1) True eq u] True show ?thesis by (intro exI [of _ k]) simp
    next
      case neq: False
      with Suc.prems True u
      have "status_loop (\<lambda>k. slot (\<sigma> k)) clock n thr (i + 1) r (k + n + 2) u = Inr (kSuccess, v, k')"
        by (simp add: Let_def)
      from ex_later [OF Suc.IH [OF this]] show ?thesis by simp
    qed
  qed
qed

section \<open>Recovery\<close>

text \<open>
  The writer's accesses as events, with two more: the writer's process dies, and a process
  recovers the slot with \<open>claim\<close>: \<open>claim_slot\<close> in one piece, with a compare-and-swap that finds the
  heartbeat it has loaded (a finer cut only allows more). An event that is not possible gives \<open>None\<close>.
\<close>

datatype latest_event =
  ELoad "byte list" | EBegin | ECopy | ECommit | EHeartbeat u64 | ECrash | EClaim u64 u64

fun apply_event :: "nat \<Rightarrow> latest_event \<Rightarrow> latest_sys \<Rightarrow> latest_sys option" where
  "apply_event n (ELoad v) s =
     (if wpc s = WIdle \<and> length v = n \<and> length (hist s) < 2 ^ 63
      then Some (s\<lparr>wpc := WBegin (sequence (control (slot s))) v\<rparr>) else None)"
| "apply_event n EBegin s =
     (case wpc s of
        WBegin q v \<Rightarrow> Some (s\<lparr>slot := (slot s)\<lparr>control := (control (slot s))\<lparr>sequence := q + 1\<rparr>\<rparr>,
          wpc := WCopy q v 0\<rparr>)
      | _ \<Rightarrow> None)"
| "apply_event n ECopy s =
     (case wpc s of
        WCopy q v i \<Rightarrow> if i < n then Some (s\<lparr>slot := (slot s)\<lparr>ring := (ring (slot s))[i := v ! i]\<rparr>,
          wpc := WCopy q v (Suc i)\<rparr>) else None
      | _ \<Rightarrow> None)"
| "apply_event n ECommit s =
     (case wpc s of
        WCopy q v i \<Rightarrow> if i = n then Some (s\<lparr>slot := (slot s)\<lparr>control := (control (slot s))\<lparr>sequence := q + 2\<rparr>\<rparr>,
          wpc := WHeart, hist := hist s @ [v]\<rparr>) else None
      | _ \<Rightarrow> None)"
| "apply_event n (EHeartbeat now) s =
     (if wpc s = WHeart
      then Some (s\<lparr>slot := (slot s)\<lparr>control := (control (slot s))\<lparr>head_reserve := now\<rparr>\<rparr>, wpc := WIdle\<rparr>)
      else None)"
| "apply_event n ECrash s = Some (s\<lparr>wpc := WIdle\<rparr>)"
| "apply_event n (EClaim now threshold) s =
     (if wpc s = WIdle
      then (case claim_slot now threshold (head_reserve (control (slot s))) (slot s) of
              (Inr _, st) \<Rightarrow> Some (s\<lparr>slot := st\<rparr>)
            | _ \<Rightarrow> None)
      else None)"

definition recovery_step :: "nat \<Rightarrow> latest_sys \<Rightarrow> latest_sys \<Rightarrow> bool" where
  "recovery_step n s s' \<longleftrightarrow> (\<exists>e. apply_event n e s = Some s')"

fun latest_events :: "nat \<Rightarrow> latest_event list \<Rightarrow> latest_sys \<Rightarrow> latest_sys option" where
  "latest_events n [] s = Some s"
| "latest_events n (e # es) s =
     (case apply_event n e s of None \<Rightarrow> None | Some s' \<Rightarrow> latest_events n es s')"

lemma recovery_stepI: "apply_event n e s = Some s' \<Longrightarrow> recovery_step n s s'"
  by (auto simp: recovery_step_def)

lemma latest_events_steps: "latest_events n es s = Some s' \<Longrightarrow> (recovery_step n)\<^sup>*\<^sup>* s s'"
  by (induction es arbitrary: s)
    (auto split: option.splits intro: converse_rtranclp_into_rtranclp recovery_stepI)

text \<open>The writer's own steps are events, and conversely.\<close>

fun writer_event :: "latest_event \<Rightarrow> bool" where
  "writer_event ECrash = False"
| "writer_event (EClaim _ _) = False"
| "writer_event _ = True"

lemma writer_event_step: "apply_event n e s = Some s' \<Longrightarrow> writer_event e \<Longrightarrow> latest_step n s s'"
  by (cases e) (auto split: if_splits wpc.splits intro: latest_step.intros)

lemma writer_events_steps:
  "latest_events n es s = Some s' \<Longrightarrow> list_all writer_event es \<Longrightarrow> (latest_step n)\<^sup>*\<^sup>* s s'"
  by (induction es arbitrary: s)
    (auto split: option.splits intro: converse_rtranclp_into_rtranclp writer_event_step)

lemma latest_step_event: "latest_step n s s' \<Longrightarrow> recovery_step n s s'"
proof (induction rule: latest_step.induct)
  case (load s v)
  then show ?case by (auto simp: recovery_step_def intro!: exI [of _ "ELoad v"])
next
  case (begin_write s q v)
  then show ?case by (auto simp: recovery_step_def intro!: exI [of _ EBegin])
next
  case (copy_byte s q v i)
  then show ?case by (auto simp: recovery_step_def intro!: exI [of _ ECopy])
next
  case (commit s q v)
  then show ?case by (auto simp: recovery_step_def intro!: exI [of _ ECommit])
next
  case (heartbeat s now)
  then show ?case by (auto simp: recovery_step_def intro!: exI [of _ "EHeartbeat now"])
qed

section \<open>Properties\<close>

text \<open>
  C8. No torn reads: however the writer's accesses interleave with a reader's loads, a successful
  \<open>try_read\<close> of either kind returns a value that was, as a whole, the committed value at some
  moment during the call. The bound is \<open>2^63\<close> writes over the life of the slot; memory is
  sequentially consistent and nobody recovers the slot.
\<close>

theorem no_torn_reads:
  assumes "observation (latest_init n) (latest_step n) \<sigma>"
  shows "(latest_try_read (\<lambda>k. slot (\<sigma> k)) n retries a dst = Inr (True, v, b) \<longrightarrow>
      (\<exists>j. a \<le> j \<and> j < b \<and> v = last (hist (\<sigma> j)))) \<and>
    (latest_try_read_status (\<lambda>k. slot (\<sigma> k)) clock n threshold retries a dst = Inr (kSuccess, v, b) \<longrightarrow>
      (\<exists>j. a \<le> j \<and> j < b \<and> v = last (hist (\<sigma> j))))"
proof (intro conjI impI)
  assume "latest_try_read_status (\<lambda>k. slot (\<sigma> k)) clock n threshold retries a dst = Inr (kSuccess, v, b)"
  then have "status_loop (\<lambda>k. slot (\<sigma> k)) clock n threshold 0 retries (a + 1) dst = Inr (kSuccess, v, b)"
    by (simp add: latest_try_read_status_def split: if_splits)
  from status_loop_committed [OF assms this] show "\<exists>j. a \<le> j \<and> j < b \<and> v = last (hist (\<sigma> j))"
    using add_leD1 by blast
qed (rule try_read_committed [OF assms])

text \<open>A slot in a file of eight bytes, given by its sequence number, heartbeat, notifications and bytes.\<close>

definition slot_state :: "u64 \<Rightarrow> u64 \<Rightarrow> u64 \<Rightarrow> byte list \<Rightarrow> ring_state" where
  "slot_state q hb c m =
     \<lparr>control = \<lparr>head_reserve = hb, head_publish = 0, tail_reserve = 0, tail_publish = c, sequence = q\<rparr>,
      ring = m, capacity = 8\<rparr>"

definition fresh_slot :: latest_sys where
  "fresh_slot = \<lparr>slot = slot_state 0 0 0 [0, 0, 0, 0, 0, 0, 0, 0], wpc = WIdle, hist = [[0, 0]]\<rparr>"

lemma fresh_slot_init: "latest_init 2 fresh_slot"
proof -
  have "slot_state 0 0 0 [0, 0, 0, 0, 0, 0, 0, 0] = empty_ring 8"
    by (simp add: slot_state_def empty_ring_def eval_nat_numeral)
  then show ?thesis
    by (auto simp: latest_init_def fresh_slot_def numeral_2_eq_2 intro: exI [of _ 8])
qed

lemmas slot_run_simps = slot_state_def fresh_slot_def claim_slot_def latest_notify_def

text \<open>The writer in the middle of its first write, and after it.\<close>

definition mid_write :: latest_sys where
  "mid_write = \<lparr>slot = slot_state 1 0 0 [1, 0, 0, 0, 0, 0, 0, 0], wpc = WCopy 0 [1, 1] 1, hist = [[0, 0]]\<rparr>"

definition after_write :: latest_sys where
  "after_write = \<lparr>slot = slot_state 2 0 0 [1, 1, 0, 0, 0, 0, 0, 0], wpc = WHeart, hist = [[0, 0], [1, 1]]\<rparr>"

lemma mid_write_steps: "(latest_step 2)\<^sup>*\<^sup>* fresh_slot mid_write"
proof -
  have 1: "latest_step 2 fresh_slot (fresh_slot\<lparr>wpc := WBegin 0 [1, 1]\<rparr>)"
    using latest_step.load [of fresh_slot "[1, 1]" 2] by (simp add: slot_run_simps)
  have 2: "latest_step 2 (fresh_slot\<lparr>wpc := WBegin 0 [1, 1]\<rparr>)
      (fresh_slot\<lparr>slot := slot_state 1 0 0 [0, 0, 0, 0, 0, 0, 0, 0], wpc := WCopy 0 [1, 1] 0\<rparr>)"
    using latest_step.begin_write [of "fresh_slot\<lparr>wpc := WBegin 0 [1, 1]\<rparr>" 0 "[1, 1]" 2]
    by (simp add: slot_run_simps)
  have 3: "latest_step 2 (fresh_slot\<lparr>slot := slot_state 1 0 0 [0, 0, 0, 0, 0, 0, 0, 0], wpc := WCopy 0 [1, 1] 0\<rparr>) mid_write"
    using latest_step.copy_byte
      [of "fresh_slot\<lparr>slot := slot_state 1 0 0 [0, 0, 0, 0, 0, 0, 0, 0], wpc := WCopy 0 [1, 1] 0\<rparr>" 0 "[1, 1]" 0 2]
    by (simp add: slot_run_simps mid_write_def)
  from 1 2 3 show ?thesis by (blast intro: converse_rtranclp_into_rtranclp)
qed

lemma after_write_steps: "(latest_step 2)\<^sup>*\<^sup>* mid_write after_write"
proof -
  let ?s = "mid_write\<lparr>slot := slot_state 1 0 0 [1, 1, 0, 0, 0, 0, 0, 0], wpc := WCopy 0 [1, 1] 2\<rparr>"
  have 1: "latest_step 2 mid_write ?s"
    using latest_step.copy_byte [of mid_write 0 "[1, 1]" 1 2]
    by (simp add: slot_run_simps mid_write_def numeral_2_eq_2)
  have 2: "latest_step 2 ?s after_write"
    using latest_step.commit [of ?s 0 "[1, 1]" 2]
    by (simp add: slot_run_simps mid_write_def after_write_def)
  from 1 2 show ?thesis by (blast intro: converse_rtranclp_into_rtranclp)
qed

theorem no_torn_reads_witness:
  "\<exists>\<sigma> b. observation (latest_init 2) (latest_step 2) \<sigma> \<and>
     latest_try_read (\<lambda>k. slot (\<sigma> k)) 2 2 0 [9, 9] = Inr (True, [1, 1], b) \<and>
     (\<exists>j < b. [1, 1] = last (hist (\<sigma> j)))"
proof -
  let ?\<sigma> = "listed [mid_write, after_write]"
  have obs: "observation (latest_init 2) (latest_step 2) ?\<sigma>"
    using fresh_slot_init mid_write_steps after_write_steps by (intro observation_listed) auto
  have "latest_try_read (\<lambda>k. slot (?\<sigma> k)) 2 2 0 [9, 9] = Inr (True, [1, 1], 5)"
    by (simp add: listed_def numeral_2_eq_2 copy_observed_def mid_write_def after_write_def slot_state_def)
  with no_torn_reads [OF obs, of 2 0 "[9, 9]" "[1, 1]" 5] obs show ?thesis by auto
qed

text \<open>
  C36. Recovery breaks the guarantee for a reader that is under way: \<open>claim\<close> starts the sequence
  numbers again from zero, so the new writer's first write ends at the very number the reader saw
  before. In this run the reader reports success with half of an old and half of a new value.
\<close>

theorem recovery_can_tear:
  "\<exists>\<sigma> b. observation (latest_init 2) (recovery_step 2) \<sigma> \<and>
     latest_try_read (\<lambda>k. slot (\<sigma> k)) 2 1 0 [9, 9] = Inr (True, [1, 2], b) \<and>
     (\<forall>k. [1, 2] \<notin> set (hist (\<sigma> k)))"
proof -
  define A where "A = \<lparr>slot = slot_state 2 5 0 [1, 1, 0, 0, 0, 0, 0, 0], wpc = WIdle,
    hist = [[0, 0], [1, 1]]\<rparr>"
  define B where "B = \<lparr>slot = slot_state 2 1000 1 [2, 2, 0, 0, 0, 0, 0, 0], wpc = WHeart,
    hist = [[0, 0], [1, 1], [2, 2]]\<rparr>"
  have "latest_events 2 [ELoad [1, 1], EBegin, ECopy, ECopy, ECommit, EHeartbeat 5] fresh_slot = Some A"
    by (simp add: slot_run_simps A_def)
  then have 1: "(recovery_step 2)\<^sup>*\<^sup>* fresh_slot A" by (rule latest_events_steps)
  have "latest_events 2 [ELoad [3, 3], EBegin, ECrash, EClaim 1000 500, ELoad [2, 2], EBegin, ECopy,
      ECopy, ECommit] A = Some B"
    by (simp add: slot_run_simps A_def B_def)
  then have 2: "(recovery_step 2)\<^sup>*\<^sup>* A B" by (rule latest_events_steps)
  let ?\<sigma> = "listed [A, A, B]"
  have "observation (latest_init 2) (recovery_step 2) ?\<sigma>"
    using fresh_slot_init 1 2 by (intro observation_listed) (auto simp: less_Suc_eq)
  moreover have "latest_try_read (\<lambda>k. slot (?\<sigma> k)) 2 1 0 [9, 9] = Inr (True, [1, 2], 4)"
    by (simp add: listed_def numeral_2_eq_2 copy_observed_def A_def B_def slot_state_def)
  moreover have "[1, 2] \<notin> set (hist (?\<sigma> k))" for k
    by (simp add: listed_def A_def B_def nth_Cons split: nat.splits)
  ultimately show ?thesis by blast
qed

text \<open>
  The status overload tests for an empty slot only once, before its loop: when the slot is
  recovered after that test, it reports success with the zeroes \<open>claim\<close> left behind, a value
  nobody wrote, where the comments promise \<open>kEmpty\<close>.
\<close>

theorem status_read_of_recovered_slot:
  "\<exists>\<sigma> b. observation (latest_init 2) (recovery_step 2) \<sigma> \<and>
     latest_try_read_status (\<lambda>k. slot (\<sigma> k)) clock 2 threshold 1 0 [9, 9] = Inr (kSuccess, [0, 0], b) \<and>
     (\<forall>k. [0, 0] \<notin> set (tl (hist (\<sigma> k))))"
proof -
  define A where "A = \<lparr>slot = slot_state 3 5 0 [1, 1, 0, 0, 0, 0, 0, 0], wpc = WCopy 2 [3, 3] 0,
    hist = [[0, 0], [1, 1]]\<rparr>"
  define B where "B = \<lparr>slot = slot_state 0 1000 1 [0, 0, 0, 0, 0, 0, 0, 0], wpc = WIdle,
    hist = [[0, 0], [1, 1]]\<rparr>"
  have "latest_events 2 [ELoad [1, 1], EBegin, ECopy, ECopy, ECommit, EHeartbeat 5, ELoad [3, 3], EBegin]
      fresh_slot = Some A"
    by (simp add: slot_run_simps A_def)
  then have 1: "(recovery_step 2)\<^sup>*\<^sup>* fresh_slot A" by (rule latest_events_steps)
  have "latest_events 2 [ECrash, EClaim 1000 500] A = Some B"
    by (simp add: slot_run_simps A_def B_def)
  then have 2: "(recovery_step 2)\<^sup>*\<^sup>* A B" by (rule latest_events_steps)
  let ?\<sigma> = "listed [A, B]"
  have "observation (latest_init 2) (recovery_step 2) ?\<sigma>"
    using fresh_slot_init 1 2 by (intro observation_listed) auto
  moreover have "sequence (control (slot (?\<sigma> 0))) \<noteq> 0"
    by (simp add: listed_def A_def slot_state_def)
  then have "latest_try_read_status (\<lambda>k. slot (?\<sigma> k)) clock 2 threshold 1 0 [9, 9] =
      status_loop (\<lambda>k. slot (?\<sigma> k)) clock 2 threshold 0 1 1 [9, 9]"
    by (simp add: latest_try_read_status_def)
  then have "latest_try_read_status (\<lambda>k. slot (?\<sigma> k)) clock 2 threshold 1 0 [9, 9] =
      Inr (kSuccess, [0, 0], 5)"
    by (simp add: listed_def numeral_2_eq_2 copy_observed_def A_def B_def slot_state_def)
  moreover have "[0, 0] \<notin> set (tl (hist (?\<sigma> k)))" for k
    by (simp add: listed_def A_def B_def nth_Cons split: nat.splits)
  ultimately show ?thesis by blast
qed

text \<open>Until its first commit the writer has not stored a heartbeat.\<close>

definition no_heartbeat_yet :: "latest_sys \<Rightarrow> bool" where
  "no_heartbeat_yet s \<longleftrightarrow>
     hist s \<noteq> [] \<and> (length (hist s) = 1 \<longrightarrow> head_reserve (control (slot s)) = 0 \<and> wpc s \<noteq> WHeart)"

interpretation first_write: invariant_system "latest_init n" "latest_step n" no_heartbeat_yet for n
proof
  show "latest_init n s \<Longrightarrow> no_heartbeat_yet s" for s
    by (auto simp: latest_init_def no_heartbeat_yet_def empty_ring_def)
  show "no_heartbeat_yet s \<Longrightarrow> latest_step n s s' \<Longrightarrow> no_heartbeat_yet s'" for s s'
    by (erule latest_step.cases) (auto simp: no_heartbeat_yet_def)
qed

lemma copies_run:
  assumes "wpc s = WCopy q v i" "i + m = n" "length v = n" "n \<le> length (ring (slot s))"
  shows "latest_events n (replicate m ECopy @ es) s =
    latest_events n es (s\<lparr>slot := (slot s)\<lparr>ring := take i (ring (slot s)) @ drop i v @ drop n (ring (slot s))\<rparr>,
      wpc := WCopy q v n\<rparr>)"
  using assms
proof (induction m arbitrary: s i)
  case 0
  then show ?case by (cases s) simp
next
  case (Suc m)
  let ?s = "s\<lparr>slot := (slot s)\<lparr>ring := (ring (slot s))[i := v ! i]\<rparr>, wpc := WCopy q v (Suc i)\<rparr>"
  have "take (Suc i) ((ring (slot s))[i := v ! i]) = take i (ring (slot s)) @ [v ! i]"
    using Suc.prems by (simp add: take_Suc_conv_app_nth)
  moreover have d: "drop i v = v ! i # drop (Suc i) v" using Suc.prems by (simp add: Cons_nth_drop_Suc)
  ultimately show ?case
    using Suc.prems Suc.IH [of ?s "Suc i"] by (simp add: d)
qed

text \<open>
  C37. Before its first heartbeat a writer is not protected: whenever it is inside its very first write to
  a slot made by \<open>create\<close>, the heartbeat is zero and \<open>claim\<close> recovers the slot, whatever the threshold and
  however recent the write. If the writer then goes on, it commits the bytes it had still to copy after
  zeroes in place of those it had copied before, and readers get this mixture as a success.
\<close>

theorem claim_steals_first_write:
  assumes "reachable (latest_init n) (latest_step n) s" "wpc s = WCopy q v i" "length (hist s) = 1"
  shows "\<exists>st' s'. claim_slot now dead_threshold (head_reserve (control (slot s))) (slot s) = (Inr kRecovered, st') \<and>
    latest_events n (replicate (n - i) ECopy @ [ECommit]) (s\<lparr>slot := st'\<rparr>) = Some s' \<and>
    latest_try_read (\<lambda>_. slot s') n 1 k dst = Inr (True, replicate i 0 @ drop i v, k + n + 2)"
proof -
  have inv: "latest_inv n s" using assms(1) by (rule seqlock.inv_reachable)
  have hb: "head_reserve (control (slot s)) = 0"
    using first_write.inv_reachable [OF assms(1)] assms(3) by (simp add: no_heartbeat_yet_def)
  have I: "sequence (control (slot s)) = 1" "q = 0" "length v = n" "i \<le> n" "n \<le> length (ring (slot s))"
    using inv assms(2,3) by (simp_all add: latest_inv_def latest_ver_def)
  define st' where "st' = snd (claim_slot now dead_threshold 0 (slot s))"
  have c: "claim_slot now dead_threshold 0 (slot s) = (Inr kRecovered, st')"
    "ring st' = replicate (length (ring (slot s))) 0"
    using I(1) hb by (simp_all add: st'_def claim_slot_def latest_notify_def)
  let ?m = "replicate i 0 @ drop i v @ drop n (ring st')"
  let ?st = "st'\<lparr>ring := ?m, control := (control st')\<lparr>sequence := 2\<rparr>\<rparr>"
  let ?s = "s\<lparr>slot := ?st, wpc := WHeart, hist := hist s @ [v]\<rparr>"
  have "latest_events n (replicate (n - i) ECopy @ [ECommit]) (s\<lparr>slot := st'\<rparr>) = Some ?s"
    using copies_run [of "s\<lparr>slot := st'\<rparr>" q v i "n - i" n "[ECommit]"] assms(2) I c(2) by simp
  moreover have "latest_try_read (\<lambda>_. ?st) n 1 k dst = Inr (True, take n (ring ?st), k + n + 2)"
    using I c(2) by (intro read_quiet) simp_all
  moreover have "take n (ring ?st) = replicate i 0 @ drop i v" using I by simp
  ultimately show ?thesis using c(1) hb by auto
qed

text \<open>The writer of the value \<open>1 1\<close> loses the slot after its first byte; readers get \<open>0 1\<close>.\<close>

theorem claim_steals_first_write_witness:
  "\<exists>st' s'. claim_slot 1000 500 0 (slot mid_write) = (Inr kRecovered, st') \<and>
    latest_events 2 [ECopy, ECommit] (mid_write\<lparr>slot := st'\<rparr>) = Some s' \<and>
    latest_try_read (\<lambda>_. slot s') 2 1 0 [] = Inr (True, [0, 1], 4)"
proof -
  have "reachable (latest_init 2) (latest_step 2) mid_write"
    using fresh_slot_init mid_write_steps by (auto simp: reachable_def)
  moreover have "wpc mid_write = WCopy 0 [1, 1] 1" "length (hist mid_write) = 1"
    "head_reserve (control (slot mid_write)) = 0"
    by (simp_all add: mid_write_def slot_state_def)
  ultimately show ?thesis
    using claim_steals_first_write [of 2 mid_write 0 "[1, 1]" 1 1000 500 0 "[]"]
    by (simp add: eval_nat_numeral)
qed

end
