(* ===== verification/Polling.thy ===== *)
theory Polling
  imports Prelude
begin

text \<open>
  The polling thread of the queue subscribers of \<open>include/lf_ring/ipc_adapter.hpp\<close>, for any queue
  with \<open>push\<close> and \<open>pop\<close>. \<open>SpscSubscriber::poll_loop\<close> and \<open>SpscByteSubscriber::poll_loop\<close> are the two
  instances (\<open>Ipc_Adapter\<close>).

  The other process publishes while the thread runs: before each \<open>try_pop\<close> of the thread it makes
  the next batch of its pushes, so a list of batches is an interleaving of the two, call by call, with a
  publisher that stops at some time. That a drain ends is shown for such a publisher; one that is always
  faster than the callback keeps the loop busy for ever. A callback is
  modelled by the list of its arguments. Waiting on the condition variable changes no data.
\<close>

record ('m, 'b, 's) polling =
  todo :: "'m list list"
  sent :: "'m list"
  calls :: "'b list"
  buf :: 'b
  shm :: 's

text \<open>A batch of pushes; \<open>sent\<close> collects the messages that were accepted.\<close>

fun publish_all ::
  "('m \<Rightarrow> 's \<Rightarrow> (bool \<times> 's) exec option) \<Rightarrow> 'm list \<Rightarrow> 'm list \<Rightarrow> 's \<Rightarrow> ('m list \<times> 's) exec option"
where
  "publish_all push [] acc s = Some (Inr (acc, s))"
| "publish_all push (m # ms) acc s =
     bindL (push m s) (\<lambda>(ok, s). publish_all push ms (if ok then acc @ [m] else acc) s)"

definition next_batch :: "'m list list \<Rightarrow> 'm list" where
  "next_batch bs = (case bs of [] \<Rightarrow> [] | b # _ \<Rightarrow> b)"

text \<open>
  \<open>while (try_pop(value)) { if (on_message_) on_message_(value); }\<close>, where \<open>on_message\<close> says whether
  the callback is set.
\<close>

definition drain_body ::
  "('m \<Rightarrow> 's \<Rightarrow> (bool \<times> 's) exec option) \<Rightarrow> ('b \<Rightarrow> 's \<Rightarrow> (bool \<times> 'b \<times> 's) exec option) \<Rightarrow> bool \<Rightarrow>
     ('m, 'b, 's) polling \<Rightarrow> (('m, 'b, 's) polling + ('m, 'b, 's) polling) exec option"
where
  "drain_body push pop on_message r =
     bindL (publish_all push (next_batch (todo r)) (sent r) (shm r)) (\<lambda>(acc, s).
     bindL (pop (buf r) s) (\<lambda>(ok, b, s).
       let r1 = r\<lparr>todo := tl (todo r), sent := acc, buf := b, shm := s\<rparr>
       in Some (Inr (if ok then Inl (if on_message then r1\<lparr>calls := calls r1 @ [b]\<rparr> else r1)
                     else Inr r1))))"

definition drain ::
  "('m \<Rightarrow> 's \<Rightarrow> (bool \<times> 's) exec option) \<Rightarrow> ('b \<Rightarrow> 's \<Rightarrow> (bool \<times> 'b \<times> 's) exec option) \<Rightarrow> bool \<Rightarrow>
     ('m, 'b, 's) polling \<Rightarrow> ('m, 'b, 's) polling exec option"
where
  "drain push pop on_message = run_loopL (drain_body push pop on_message)"

text \<open>
  \<open>poll_loop\<close>, when \<open>running_\<close> is found set \<open>turns\<close> times: a drain per turn, and a final drain into
  the variable that \<open>renew\<close> gives.
\<close>

fun poll_loop ::
  "('m \<Rightarrow> 's \<Rightarrow> (bool \<times> 's) exec option) \<Rightarrow> ('b \<Rightarrow> 's \<Rightarrow> (bool \<times> 'b \<times> 's) exec option) \<Rightarrow> bool \<Rightarrow>
     ('b \<Rightarrow> 'b) \<Rightarrow> nat \<Rightarrow> ('m, 'b, 's) polling \<Rightarrow> ('m, 'b, 's) polling exec option"
where
  "poll_loop push pop on_message renew 0 r = drain push pop on_message (r\<lparr>buf := renew (buf r)\<rparr>)"
| "poll_loop push pop on_message renew (Suc turns) r =
     bindL (drain push pop on_message r) (poll_loop push pop on_message renew turns)"

definition poll_start :: "'m list list \<Rightarrow> 'b \<Rightarrow> 's \<Rightarrow> ('m, 'b, 's) polling" where
  "poll_start batches b s = \<lparr>todo = batches, sent = [], calls = [], buf = b, shm = s\<rparr>"

section \<open>What a queue must promise\<close>

text \<open>
  \<open>rep n s q\<close>: the state \<open>s\<close> holds the messages \<open>q\<close> and can take part in \<open>n\<close> more pushes.
  \<open>shown b m b'\<close>: the variable was \<open>b\<close> when the message \<open>m\<close> was popped into it, and is \<open>b'\<close> in the callback.
\<close>

locale polled_queue =
  fixes push :: "'m \<Rightarrow> 's \<Rightarrow> (bool \<times> 's) exec option"
    and pop :: "'b \<Rightarrow> 's \<Rightarrow> (bool \<times> 'b \<times> 's) exec option"
    and rep :: "nat \<Rightarrow> 's \<Rightarrow> 'm list \<Rightarrow> bool"
    and ok :: "'m \<Rightarrow> bool"
    and shown :: "'b \<Rightarrow> 'm \<Rightarrow> 'b \<Rightarrow> bool"
  assumes push_some: "rep (Suc n) s q \<Longrightarrow> ok m \<Longrightarrow>
      \<exists>a s'. push m s = Some (Inr (a, s')) \<and> rep n s' (if a then q @ [m] else q)"
    and pop_none: "rep n s [] \<Longrightarrow> \<exists>s'. pop b s = Some (Inr (False, b, s')) \<and> rep n s' []"
    and pop_some: "rep n s (m # q) \<Longrightarrow>
      \<exists>b' s'. pop b s = Some (Inr (True, b', s')) \<and> shown b m b' \<and> rep n s' q"
begin

lemma publish_all_rep:
  assumes "rep (length ms + n) s q" "list_all ok ms"
  shows "\<exists>xs s'. publish_all push ms acc s = Some (Inr (acc @ xs, s')) \<and> rep n s' (q @ xs) \<and>
    length xs \<le> length ms"
  using assms
proof (induction ms arbitrary: s q acc)
  case (Cons m ms)
  from push_some [of "length ms + n" s q m] Cons.prems obtain a s1 where
    1: "push m s = Some (Inr (a, s1))" "rep (length ms + n) s1 (if a then q @ [m] else q)" by auto
  from Cons.IH [OF 1(2), of "if a then acc @ [m] else acc"] Cons.prems(2) obtain xs s' where
    2: "publish_all push ms (if a then acc @ [m] else acc) s1 =
      Some (Inr ((if a then acc @ [m] else acc) @ xs, s'))"
    "rep n s' ((if a then q @ [m] else q) @ xs)" "length xs \<le> length ms" by auto
  show ?case
    using 1(1) 2 by (intro exI [of _ "if a then m # xs else xs"] exI [of _ s']) (cases a, auto)
qed simp

text \<open>
  Nothing is lost, duplicated or reordered: the messages that were there and those accepted since
  are those called back and those still queued. \<open>P cs b done\<close> is what the client says of the callbacks \<open>cs\<close>
  for the messages \<open>done\<close> and of the variable \<open>b\<close>; every pop has to keep it.
\<close>

definition kept :: "('b list \<Rightarrow> 'b \<Rightarrow> 'm list \<Rightarrow> bool) \<Rightarrow> bool" where
  "kept P \<longleftrightarrow> (\<forall>cs b dn m b'. P cs b dn \<longrightarrow> shown b m b' \<longrightarrow> P (cs @ [b']) b' (dn @ [m]))"

definition follows ::
  "('b list \<Rightarrow> 'b \<Rightarrow> 'm list \<Rightarrow> bool) \<Rightarrow> 'm list \<Rightarrow> 'm list \<Rightarrow> ('m, 'b, 's) polling \<Rightarrow> bool" where
  "follows P q0 q r \<longleftrightarrow> rep (length (concat (todo r))) (shm r) q \<and> list_all ok (concat (todo r)) \<and>
     (\<exists>done. P (calls r) (buf r) done \<and> q0 @ sent r = done @ q)"

lemma drain_body_follows:
  assumes "kept P" "follows P q0 q r"
  shows "\<exists>r'. drain_body push pop True r = Some (Inr (Inr r')) \<and> follows P q0 [] r' \<or>
    (\<exists>q'. drain_body push pop True r = Some (Inr (Inl r')) \<and> follows P q0 q' r' \<and>
      length (concat (todo r')) + length q' < length (concat (todo r)) + length q)"
proof -
  let ?b = "next_batch (todo r)" and ?rest = "concat (tl (todo r))"
  have c: "concat (todo r) = ?b @ ?rest" by (simp add: next_batch_def split: list.splits)
  obtain dn where F: "rep (length ?b + length ?rest) (shm r) q" "list_all ok ?b" "list_all ok ?rest"
    "P (calls r) (buf r) dn" "q0 @ sent r = dn @ q"
    using assms(2) by (auto simp: follows_def c)
  obtain xs s where P: "publish_all push ?b (sent r) (shm r) = Some (Inr (sent r @ xs, s))"
    "rep (length ?rest) s (q @ xs)" "length xs \<le> length ?b"
    using publish_all_rep [OF F(1,2)] by blast
  have all: "q0 @ sent r @ xs = dn @ q @ xs" using F(5) by simp
  show ?thesis
  proof (cases "q @ xs")
    case Nil
    with pop_none [of "length ?rest" s "buf r"] P(2) obtain s' where
      "pop (buf r) s = Some (Inr (False, buf r, s'))" "rep (length ?rest) s' []" by auto
    then show ?thesis
      using P(1) F(3,4) all Nil by (auto simp: drain_body_def Let_def follows_def)
  next
    case (Cons m q')
    with pop_some [of "length ?rest" s m q' "buf r"] P(2) obtain b s' where
      b: "pop (buf r) s = Some (Inr (True, b, s'))" "shown (buf r) m b" "rep (length ?rest) s' q'" by auto
    let ?r = "r\<lparr>todo := tl (todo r), sent := sent r @ xs, buf := b, shm := s', calls := calls r @ [b]\<rparr>"
    have "drain_body push pop True r = Some (Inr (Inl ?r))"
      using P(1) b(1) by (simp add: drain_body_def Let_def)
    moreover have "P (calls r @ [b]) b (dn @ [m])" using assms(1) F(4) b(2) by (simp add: kept_def)
    then have "follows P q0 q' ?r"
      using F(3) b(3) all Cons unfolding follows_def by auto
    moreover have "length q' < length q + length xs" using Cons
      by (metis length_Cons length_append lessI)
    then have "length (concat (todo ?r)) + length q' < length (concat (todo r)) + length q"
      using P(3) by (simp add: c)
    ultimately show ?thesis by blast
  qed
qed

lemma drain_follows:
  assumes "kept P" "follows P q0 q r"
  shows "\<exists>r'. drain push pop True r = Some (Inr r') \<and> follows P q0 [] r'"
  using assms(2)
proof (induction "length (concat (todo r)) + length q" arbitrary: q r rule: less_induct)
  case less
  from drain_body_follows [OF assms(1) less.prems] consider
      r' where "drain_body push pop True r = Some (Inr (Inr r'))" "follows P q0 [] r'"
    | r' q' where "drain_body push pop True r = Some (Inr (Inl r'))" "follows P q0 q' r'"
      "length (concat (todo r')) + length q' < length (concat (todo r)) + length q" by blast
  then show ?case
  proof cases
    case 1
    then show ?thesis by (auto simp: drain_def run_loopL_exit)
  next
    case 2
    from less.hyps [OF 2(3,2)] 2(1) show ?thesis by (simp add: drain_def run_loopL_continue)
  qed
qed

lemma poll_loop_follows:
  assumes "kept P" "\<forall>cs b dn. P cs b dn \<longrightarrow> P cs (renew b) dn"
  shows "follows P q0 q r \<Longrightarrow>
    \<exists>r'. poll_loop push pop True renew turns r = Some (Inr r') \<and> follows P q0 [] r'"
proof (induction turns arbitrary: q r)
  case 0
  then have "follows P q0 q (r\<lparr>buf := renew (buf r)\<rparr>)" using assms(2) by (auto simp: follows_def)
  from drain_follows [OF assms(1) this] show ?case by simp
next
  case (Suc turns)
  from drain_follows [OF assms(1) Suc.prems] obtain r' where
    r': "drain push pop True r = Some (Inr r')" "follows P q0 [] r'" by blast
  from Suc.IH [OF r'(2)] r'(1) show ?case by simp
qed

lemma poll_loop_delivers:
  assumes "rep (length (concat batches)) s q" "list_all ok (concat batches)"
    and "P [] b []" "kept P" "\<forall>cs b dn. P cs b dn \<longrightarrow> P cs (renew b) dn"
  shows "\<exists>r. poll_loop push pop True renew turns (poll_start batches b s) = Some (Inr r) \<and>
    P (calls r) (buf r) (q @ sent r) \<and> rep (length (concat (todo r))) (shm r) []"
proof -
  have "follows P q q (poll_start batches b s)" using assms(1-3) by (simp add: follows_def poll_start_def)
  from poll_loop_follows [OF assms(4,5) this] show ?thesis by (auto simp: follows_def)
qed

end

end
