(* ===== verification/Ipc_Adapter.thy ===== *)
theory Ipc_Adapter
  imports Typed_Message SPSC_Queue Seqlock Polling
begin

text \<open>
  \<open>include/lf_ring/ipc_adapter.hpp\<close>: topics as files, publishers that claim them, and subscribers
  that poll them from a thread.

  A callback is modelled by the list of its arguments. The polling loop of a subscriber is a
  function of what happens around it: for the queues, the pushes of the publisher before each
  \<open>try_pop\<close> (theory \<open>Polling\<close>); for the latest value, the slot at each access. The thread's life is
  a state of its own (\<open>poller\<close>).
\<close>

section \<open>Topics\<close>

text \<open>\<open>operator/\<close> of \<open>std::filesystem::path\<close>.\<close>

definition path_append :: "string \<Rightarrow> string \<Rightarrow> string" where
  "path_append a b =
     (if b \<noteq> [] \<and> hd b = CHR ''/'' then b
      else if a = [] \<or> last a = CHR ''/'' then a @ b
      else a @ ''/'' @ b)"

definition sanitize :: "string \<Rightarrow> string" where
  "sanitize topic = map (\<lambda>c. if c = CHR ''/'' then CHR ''_'' else c) topic"

definition topic_path :: "string \<Rightarrow> string \<Rightarrow> string \<Rightarrow> string" where
  "topic_path base_dir prefix topic = path_append base_dir (prefix @ ''___'' @ sanitize topic)"

definition default_shm_dir :: "(string \<Rightarrow> bool) \<Rightarrow> string \<Rightarrow> string" where
  "default_shm_dir dir_exists temp_directory_path =
     (let shm = ''/dev/shm'' in if dir_exists shm then shm else temp_directory_path)"

section \<open>Publishers\<close>

record publisher =
  pub_path :: string
  last_claim :: ClaimResult
  pub_mapping :: Mapping

text \<open>
  Member initialisation: the path, then \<open>kCreated\<close>, then the claim, which overwrites the claim result
  when it reports one.
\<close>

definition make_publisher ::
  "string \<Rightarrow> ((exn + Mapping) \<times> ClaimResult option \<times> world) exec option \<Rightarrow>
     ((exn + publisher) \<times> world) exec option"
where
  "make_publisher path claimed =
     bindL claimed (\<lambda>(res, result, w).
       case res of
         Inl e \<Rightarrow> Some (Inr (Inl e, w))
       | Inr mp \<Rightarrow> Some (Inr (Inr \<lparr>pub_path = path,
           last_claim = (case result of None \<Rightarrow> kCreated | Some r \<Rightarrow> r), pub_mapping = mp\<rparr>, w)))"

text \<open>\<open>std::chrono::milliseconds{500}\<close> in nanoseconds, the default of \<open>claim\<close>.\<close>

definition default_dead_threshold :: u64 where "default_dead_threshold = 500000000"

definition SharedLatestPublisher ::
  "os_env \<Rightarrow> string \<Rightarrow> string \<Rightarrow> string \<Rightarrow> u64 \<Rightarrow> u64 \<Rightarrow> u64 \<Rightarrow> world \<Rightarrow>
     ((exn + publisher) \<times> world) exec option"
where
  "SharedLatestPublisher env topic prefix base_dir n now cas_value w =
     (let path = topic_path base_dir prefix topic
      in make_publisher path (latest_claim env path n now default_dead_threshold cas_value w))"

definition SpscPublisher ::
  "os_env \<Rightarrow> string \<Rightarrow> string \<Rightarrow> string \<Rightarrow> u64 \<Rightarrow> u64 \<Rightarrow> world \<Rightarrow>
     ((exn + publisher) \<times> world) exec option"
where
  "SpscPublisher env topic prefix base_dir N sz w =
     (let path = topic_path base_dir prefix topic
      in make_publisher path (Some (queue_claim env path N sz w)))"

definition SpscBytePublisher ::
  "os_env \<Rightarrow> string \<Rightarrow> u64 \<Rightarrow> string \<Rightarrow> string \<Rightarrow> world \<Rightarrow>
     ((exn + publisher) \<times> world) exec option"
where
  "SpscBytePublisher env topic bytes prefix base_dir w =
     (let path = topic_path base_dir prefix topic
      in make_publisher path (spsc_claim env path bytes w))"

definition latest_publish :: "publisher \<Rightarrow> u64 \<Rightarrow> byte list \<Rightarrow> world \<Rightarrow> (unit \<times> world) exec option" where
  "latest_publish pub now value w =
     on_ring (pub_mapping pub) (\<lambda>st. Some (bindE (latest_write now value st) (\<lambda>st. Inr ((), st)))) w"

definition spsc_publish :: "u64 \<Rightarrow> u64 \<Rightarrow> publisher \<Rightarrow> byte list \<Rightarrow> world \<Rightarrow> (bool \<times> world) exec option" where
  "spsc_publish N sz pub value w =
     on_ring (pub_mapping pub) (\<lambda>st. Some (queue_try_push N sz value st)) w"

definition byte_publish :: "publisher \<Rightarrow> byte list option \<Rightarrow> u32 \<Rightarrow> u16 \<Rightarrow> world \<Rightarrow> (bool \<times> world) exec option" where
  "byte_publish pub data sz ty w =
     on_ring (pub_mapping pub) (\<lambda>st. spsc_try_push st data sz ty) w"

definition byte_publish_span :: "publisher \<Rightarrow> byte list \<Rightarrow> u16 \<Rightarrow> world \<Rightarrow> (bool \<times> world) exec option" where
  "byte_publish_span pub bs ty w =
     on_ring (pub_mapping pub) (\<lambda>st. push_span spsc_try_push st bs ty) w"

section \<open>Subscribers\<close>

text \<open>Constructors: open the topic's file, throw what \<open>open\<close> throws.\<close>

definition SharedLatestSubscriber ::
  "os_env \<Rightarrow> string \<Rightarrow> string \<Rightarrow> string \<Rightarrow> world \<Rightarrow> ((exn + Mapping) \<times> world) exec" where
  "SharedLatestSubscriber env topic prefix base_dir w = latest_open env (topic_path base_dir prefix topic) w"

definition SpscSubscriber ::
  "os_env \<Rightarrow> string \<Rightarrow> string \<Rightarrow> string \<Rightarrow> u64 \<Rightarrow> u64 \<Rightarrow> world \<Rightarrow> ((exn + Mapping) \<times> world) exec" where
  "SpscSubscriber env topic prefix base_dir N sz w = queue_open env (topic_path base_dir prefix topic) N sz w"

definition SpscByteSubscriber ::
  "os_env \<Rightarrow> string \<Rightarrow> string \<Rightarrow> string \<Rightarrow> world \<Rightarrow> ((exn + Mapping) \<times> world) exec" where
  "SpscByteSubscriber env topic prefix base_dir w = spsc_open env (topic_path base_dir prefix topic) w"

definition try_read_once ::
  "(nat \<Rightarrow> ring_state) \<Rightarrow> (nat \<Rightarrow> u64) \<Rightarrow> nat \<Rightarrow> u64 \<Rightarrow> nat \<Rightarrow> byte list \<Rightarrow> (ReadResult \<times> byte list \<times> nat) exec" where
  "try_read_once \<sigma> clock n dead_threshold k dst = latest_try_read_status \<sigma> clock n dead_threshold 1024 k dst"

text \<open>
  \<open>SpscByteSubscriber::poll_loop\<close>. Its variables are \<open>buf\<close> and \<open>type\<close>, kept from drain to drain; the
  publisher calls \<open>publish\<close> with a span and a type.
\<close>

definition spsc_try_pop ::
  "byte list \<times> u16 \<Rightarrow> ring_state \<Rightarrow> (bool \<times> (byte list \<times> u16) \<times> ring_state) exec option" where
  "spsc_try_pop b st =
     bindL (spsc_try_pop_internal st \<lparr>out = fst b, out_type = snd b, out_sequence = None\<rparr>)
       (\<lambda>(ok, p, st). Some (Inr (ok, (out p, out_type p), st)))"

definition span_push :: "byte list \<times> u16 \<Rightarrow> ring_state \<Rightarrow> (bool \<times> ring_state) exec option" where
  "span_push m st = push_span spsc_try_push st (fst m) (snd m)"

definition byte_drain ::
  "bool \<Rightarrow> (byte list \<times> u16, byte list \<times> u16, ring_state) polling \<Rightarrow>
     (byte list \<times> u16, byte list \<times> u16, ring_state) polling exec option"
where
  "byte_drain = drain span_push spsc_try_pop"

definition byte_poll_loop ::
  "bool \<Rightarrow> nat \<Rightarrow> (byte list \<times> u16) list list \<Rightarrow> ring_state \<Rightarrow>
     (byte list \<times> u16, byte list \<times> u16, ring_state) polling exec option"
where
  "byte_poll_loop on_message turns batches st =
     poll_loop span_push spsc_try_pop on_message (\<lambda>b. b) turns (poll_start batches ([], 0) st)"

text \<open>
  \<open>SpscSubscriber::poll_loop\<close>; \<open>d\<close> is the value of \<open>T value{}\<close>, also of the final drain's
  \<open>T value_drain{}\<close>.
\<close>

definition slot_push :: "u64 \<Rightarrow> u64 \<Rightarrow> byte list \<Rightarrow> ring_state \<Rightarrow> (bool \<times> ring_state) exec option" where
  "slot_push N sz value st = Some (queue_try_push N sz value st)"

definition slot_pop :: "u64 \<Rightarrow> u64 \<Rightarrow> byte list \<Rightarrow> ring_state \<Rightarrow> (bool \<times> byte list \<times> ring_state) exec option" where
  "slot_pop N sz value st = Some (queue_try_pop N sz value st)"

definition slot_drain ::
  "u64 \<Rightarrow> u64 \<Rightarrow> bool \<Rightarrow> (byte list, byte list, ring_state) polling \<Rightarrow>
     (byte list, byte list, ring_state) polling exec option"
where
  "slot_drain N sz = drain (slot_push N sz) (slot_pop N sz)"

definition slot_poll_loop ::
  "u64 \<Rightarrow> u64 \<Rightarrow> byte list \<Rightarrow> bool \<Rightarrow> nat \<Rightarrow> byte list list list \<Rightarrow> ring_state \<Rightarrow>
     (byte list, byte list, ring_state) polling exec option"
where
  "slot_poll_loop N sz d on_message turns batches st =
     poll_loop (slot_push N sz) (slot_pop N sz) on_message (\<lambda>_. d) turns (poll_start batches d st)"

text \<open>
  The latest-value subscriber. One turn at access \<open>k\<close>: a read with status; on success the
  sequence number is loaded once more, and the callback runs if it differs from the last one.
\<close>

record latest_poll =
  poll_at :: nat
  last_seq :: u64
  poll_value :: "byte list"
  messages :: "byte list list"
  deaths :: nat

definition latest_poll_turn ::
  "bool \<Rightarrow> bool \<Rightarrow> (nat \<Rightarrow> ring_state) \<Rightarrow> (nat \<Rightarrow> u64) \<Rightarrow> nat \<Rightarrow> u64 \<Rightarrow> latest_poll \<Rightarrow> latest_poll exec"
where
  "latest_poll_turn on_message on_death \<sigma> clock n dead_threshold s =
     bindE (latest_try_read_status \<sigma> clock n dead_threshold 1024 (poll_at s) (poll_value s))
       (\<lambda>(result, v, k).
         let s1 = s\<lparr>poll_value := v, poll_at := k\<rparr>
         in case result of
              kSuccess \<Rightarrow>
                (let seq = raw_sequence (\<sigma> k);
                     s2 = s1\<lparr>poll_at := k + 1\<rparr>
                 in Inr (if seq \<noteq> last_seq s2
                         then s2\<lparr>last_seq := seq,
                           messages := (if on_message then messages s2 @ [v] else messages s2)\<rparr>
                         else s2))
            | kWriterDead \<Rightarrow> Inr (if on_death then s1\<lparr>deaths := deaths s1 + 1\<rparr> else s1)
            | _ \<Rightarrow> Inr s1)"

fun latest_poll_loop ::
  "bool \<Rightarrow> bool \<Rightarrow> (nat \<Rightarrow> ring_state) \<Rightarrow> (nat \<Rightarrow> u64) \<Rightarrow> nat \<Rightarrow> u64 \<Rightarrow> nat \<Rightarrow> latest_poll \<Rightarrow>
     latest_poll exec"
where
  "latest_poll_loop on_message on_death \<sigma> clock n dead_threshold 0 s = Inr s"
| "latest_poll_loop on_message on_death \<sigma> clock n dead_threshold (Suc turns) s =
     bindE (latest_poll_turn on_message on_death \<sigma> clock n dead_threshold s)
       (latest_poll_loop on_message on_death \<sigma> clock n dead_threshold turns)"

definition latest_poll_start :: "nat \<Rightarrow> latest_poll" where
  "latest_poll_start n =
     \<lparr>poll_at = 0, last_seq = 0, poll_value = replicate n 0, messages = [], deaths = 0\<rparr>"

section \<open>The polling thread\<close>

text \<open>
  \<open>running_\<close> and whether \<open>thread_\<close> is joinable. Assigning to a joinable \<open>std::thread\<close>, and destroying
  one, calls \<open>std::terminate\<close>: \<open>None\<close>. A joined thread has left its loop because \<open>running_\<close> is false.
\<close>

record poller =
  running :: bool
  joinable :: bool

definition new_poller :: poller where
  "new_poller = \<lparr>running = False, joinable = False\<rparr>"

definition poller_start :: "poller \<Rightarrow> poller option" where
  "poller_start s =
     (if running s then Some s
      else let s1 = s\<lparr>running := True\<rparr>
           in if joinable s1 then None else Some (s1\<lparr>joinable := True\<rparr>))"

definition poller_stop :: "poller \<Rightarrow> poller" where
  "poller_stop s =
     (if \<not> running s then s
      else let s1 = s\<lparr>running := False\<rparr>
           in if joinable s1 then s1\<lparr>joinable := False\<rparr> else s1)"

definition poller_destroy :: "poller \<Rightarrow> unit option" where
  "poller_destroy s = (if joinable (poller_stop s) then None else Some ())"

datatype poller_call = Start | Stop

fun poller_calls :: "poller_call list \<Rightarrow> poller \<Rightarrow> poller option" where
  "poller_calls [] s = Some s"
| "poller_calls (Start # cs) s = (case poller_start s of None \<Rightarrow> None | Some s' \<Rightarrow> poller_calls cs s')"
| "poller_calls (Stop # cs) s = poller_calls cs (poller_stop s)"

section \<open>Queue topics\<close>

text \<open>A message as published.\<close>

definition content :: "message \<Rightarrow> byte list \<times> u16" where
  "content m = (payload m, msg_type m)"

definition byte_topic_rep :: "nat \<Rightarrow> nat \<Rightarrow> ring_state \<Rightarrow> (byte list \<times> u16) list \<Rightarrow> bool" where
  "byte_topic_rep c n st q \<longleftrightarrow> length (ring st) = c \<and>
     (\<exists>h t ms. ring_inv st h t ms \<and> map content ms = q \<and> t + n * 2 ^ 34 \<le> 2 ^ 64)"

text \<open>
  The callback sees the payload, followed by what longer messages before left in \<open>buf\<close> beyond its
  end: the variables after popping \<open>m\<close> into \<open>b\<close>, and after each of a list of messages.
\<close>

definition prefix_shown :: "byte list \<times> u16 \<Rightarrow> byte list \<times> u16 \<Rightarrow> bool" where
  "prefix_shown b m \<longleftrightarrow> take (length (fst m)) (fst b) = fst m \<and> snd b = snd m"

definition overlay :: "byte list \<times> u16 \<Rightarrow> byte list \<times> u16 \<Rightarrow> byte list \<times> u16" where
  "overlay b m = (fst m @ drop (length (fst m)) (fst b), snd m)"

fun overlays :: "byte list \<times> u16 \<Rightarrow> (byte list \<times> u16) list \<Rightarrow> (byte list \<times> u16) list" where
  "overlays b [] = []"
| "overlays b (m # ms) = overlay b m # overlays (overlay b m) ms"

lemma overlays_snoc: "overlays b (ms @ [m]) = overlays b ms @ [overlay (last (b # overlays b ms)) m]"
  by (induction ms arbitrary: b) simp_all

lemma overlays_shown: "list_all2 prefix_shown (overlays b ms) ms"
  by (induction ms arbitrary: b) (simp_all add: overlay_def prefix_shown_def)

text \<open>Messages that never get shorter are shown as they are.\<close>

lemma overlays_sorted:
  "sorted (length (fst b) # map (\<lambda>m. length (fst m)) ms) \<Longrightarrow> overlays b ms = ms"
  by (induction ms arbitrary: b) (simp_all add: overlay_def)

lemma byte_topic_repE:
  assumes "byte_topic_rep c n st q"
  obtains h t ms where "length (ring st) = c" "ring_inv st h t ms" "map content ms = q" "t + n * 2 ^ 34 \<le> 2 ^ 64"
  using assms unfolding byte_topic_rep_def by blast

lemma byte_topic_repI:
  "length (ring st) = c \<Longrightarrow> ring_inv st h t ms \<Longrightarrow> map content ms = q \<Longrightarrow> t + n * 2 ^ 34 \<le> 2 ^ 64 \<Longrightarrow>
     byte_topic_rep c n st q"
  unfolding byte_topic_rep_def by blast

lemma span_push_law:
  assumes "byte_topic_rep c (Suc n) st q" "length (fst m) < 2 ^ 32"
  shows "\<exists>a st'. span_push m st = Some (Inr (a, st')) \<and> byte_topic_rep c n st' (if a then q @ [m] else q)"
proof -
  obtain h t ms where len: "length (ring st) = c" and
    R: "ring_inv st h t ms" "map content ms = q" "t + Suc n * 2 ^ 34 \<le> 2 ^ 64"
    using assms(1) by (rule byte_topic_repE)
  let ?n = "ucast (of_nat (length (fst m)) :: u64) :: u32"
  have l: "unat ?n = length (fst m)"
    using assms(2) by (simp add: unsigned_ucast_eq unsigned_of_nat take_bit_nat_eq_self)
  have "readable (Some (fst m)) ?n" "source_bytes (Some (fst m)) ?n = fst m"
    by (simp_all add: readable_def source_bytes_def l)
  moreover have "counter_headroom (length (ring st)) t" using R(3) by (simp add: counter_headroom_def)
  ultimately obtain a st' t' where S: "spsc_try_push st (Some (fst m)) ?n (snd m) = Some (Inr (a, st'))"
    "ring_inv st' h t' (if a then ms @ [next_message st (fst m) (snd m)] else ms)" "t' \<le> t + 2 ^ 34"
    "length (ring st') = c"
    using spsc.push_law [OF R(1), of "Some (fst m)" ?n "snd m"] len by metis
  have "map content (if a then ms @ [next_message st (fst m) (snd m)] else ms) = (if a then q @ [m] else q)"
    using R(2) by (simp add: content_def next_message_def)
  moreover have "t' + n * 2 ^ 34 \<le> 2 ^ 64" using R(3) S(3) by simp
  ultimately have "byte_topic_rep c n st' (if a then q @ [m] else q)"
    using S(2,4) by (intro byte_topic_repI)
  then show ?thesis using S(1) by (simp add: span_push_def push_span_def)
qed

interpretation byte_topic: polled_queue span_push spsc_try_pop "byte_topic_rep c"
  "\<lambda>m. length (fst m) < 2 ^ 32" "\<lambda>b m b'. b' = overlay b m" for c
proof unfold_locales
  show "byte_topic_rep c (Suc n) s q \<Longrightarrow> length (fst m) < 2 ^ 32 \<Longrightarrow>
      \<exists>a s'. span_push m s = Some (Inr (a, s')) \<and> byte_topic_rep c n s' (if a then q @ [m] else q)"
    for n s q m by (rule span_push_law)
  fix n s and b :: "byte list \<times> u16"
  let ?p = "\<lparr>out = fst b, out_type = snd b, out_sequence = None\<rparr>"
  show "\<exists>s'. spsc_try_pop b s = Some (Inr (False, b, s')) \<and> byte_topic_rep c n s' []"
    if rep: "byte_topic_rep c n s []"
  proof -
    obtain h t where R: "ring_inv s h t []" "length (ring s) = c" "t + n * 2 ^ 34 \<le> 2 ^ 64"
      using rep by (auto elim!: byte_topic_repE)
    from spsc.pop_empty_law [OF R(1), of ?p] obtain s' where
      "spsc_try_pop_internal s ?p = Some (Inr (False, ?p, s'))" "ring_inv s' t t []"
      "length (ring s') = length (ring s)" by blast
    with R(2,3) show ?thesis by (auto simp: spsc_try_pop_def intro: byte_topic_repI)
  qed
  show "\<exists>b' s'. spsc_try_pop b s = Some (Inr (True, b', s')) \<and> b' = overlay b m \<and> byte_topic_rep c n s' q"
    if rep: "byte_topic_rep c n s (m # q)" for m q
  proof -
    obtain h t x xs where R: "ring_inv s h t (x # xs)" "content x = m" "map content xs = q"
      "t + n * 2 ^ 34 \<le> 2 ^ 64" "length (ring s) = c"
      using rep by (auto elim!: byte_topic_repE)
    from spsc.pop_first_law [OF R(1), of ?p] obtain s' h' where
      s': "spsc_try_pop_internal s ?p = Some (Inr (True, deliver ?p x, s'))" "ring_inv s' h' t xs"
      "length (ring s') = length (ring s)" by blast
    have "byte_topic_rep c n s' q" using s'(2,3) R(3-5) by (intro byte_topic_repI) simp_all
    moreover have "(out (deliver ?p x), out_type (deliver ?p x)) = overlay b m"
      using R(2) by (auto simp: overlay_def deliver_def content_def)
    ultimately show ?thesis using s'(1) by (simp add: spsc_try_pop_def)
  qed
qed

interpretation slot_topic: polled_queue "slot_push (2 ^ k) (of_nat n)" "slot_pop (2 ^ k) (of_nat n)"
  "\<lambda>_. queue_holds k n" "\<lambda>v. length v = n" "\<lambda>_ m b. b = m" for k n
proof unfold_locales
  fix s q and m :: "byte list"
  assume "queue_holds k n s q" "length m = n"
  then show "\<exists>a s'. slot_push (2 ^ k) (of_nat n) m s = Some (Inr (a, s')) \<and>
      queue_holds k n s' (if a then q @ [m] else q)"
    using slots.push_full [of k n s q m] slots.push_room [of k n s q m] slots.rep_le [of k n s q]
    by (cases "length q = 2 ^ k") (auto simp: slot_push_def)
qed (use slots.pop_none slots.pop_some in \<open>auto simp: slot_pop_def\<close>)

section \<open>Polling the latest value\<close>

lemma status_loop_mono:
  "status_loop \<sigma> clock n thr i retries k dst = Inr (r, v, k') \<Longrightarrow> k \<le> k'"
proof (induction retries arbitrary: i k dst)
  case (Suc retries)
  show ?case
    using Suc.prems Suc.IH by (fastforce simp: Let_def bindE_eq_Inr split: if_splits)
qed simp

lemma status_read_mono:
  "latest_try_read_status \<sigma> clock n thr retries k dst = Inr (r, v, k') \<Longrightarrow> k < k'"
  using status_loop_mono [of \<sigma> clock n thr 0 retries "k + 1"]
  by (fastforce simp: latest_try_read_status_def split: if_splits)

text \<open>
  The commits called back so far: in order, none twice whose number is the last one loaded, and none more
  often than twice. A commit is its position in \<open>hist\<close>; position 0 holds the zeroes of a new file.
\<close>

definition polled_in_order :: "(nat \<Rightarrow> latest_sys) \<Rightarrow> latest_poll \<Rightarrow> nat list \<Rightarrow> bool" where
  "polled_in_order \<sigma> s cs \<longleftrightarrow>
     unat (last_seq s) \<le> latest_ver (\<sigma> (poll_at s)) \<and> sorted cs \<and>
     (\<forall>c \<in> set cs. 1 \<le> c \<and> 2 * c \<le> unat (last_seq s)) \<and>
     (\<forall>c. count_list cs c \<le> (if 2 * c = unat (last_seq s) then 1 else 2)) \<and>
     messages s = map (\<lambda>c. hist (\<sigma> (poll_at s)) ! c) cs"

lemma commit_recorded:
  assumes "observation (latest_init n) (latest_step n) \<sigma>" "2 * c \<le> latest_ver (\<sigma> j)" "j \<le> k"
  shows "c < length (hist (\<sigma> j))" "hist (\<sigma> k) ! c = hist (\<sigma> j) ! c"
proof -
  have "hist (\<sigma> j) \<noteq> []" using seqlock.inv_observed [OF assms(1), of j] by (simp add: latest_inv_def)
  then show c: "c < length (hist (\<sigma> j))"
    using assms(2) by (cases "hist (\<sigma> j)") (auto simp: latest_ver_def split: wpc.splits)
  obtain vs where "hist (\<sigma> k) = hist (\<sigma> j) @ vs"
    using hist_grows observation_steps [OF assms(1,3)] by blast
  with c show "hist (\<sigma> k) ! c = hist (\<sigma> j) ! c" by (simp add: nth_append)
qed

lemma polled_in_order_later:
  assumes obs: "observation (latest_init n) (latest_step n) \<sigma>" and ord: "polled_in_order \<sigma> s cs"
    and "poll_at s \<le> poll_at s'" "messages s' = messages s" "last_seq s' = last_seq s"
  shows "polled_in_order \<sigma> s' cs"
proof -
  have "latest_ver (\<sigma> (poll_at s)) \<le> latest_ver (\<sigma> (poll_at s'))" using seqlock.ver_observed [OF obs assms(3)] .
  moreover have "hist (\<sigma> (poll_at s')) ! c = hist (\<sigma> (poll_at s)) ! c" if "c \<in> set cs" for c
    using ord that by (intro commit_recorded [OF obs _ assms(3)]) (auto simp: polled_in_order_def)
  ultimately show ?thesis
    using ord assms(4,5) by (auto simp: polled_in_order_def)
qed

lemma count_list_0: "c \<notin> set cs \<Longrightarrow> count_list cs c = 0"
  by (simp add: count_list_0_iff)

text \<open>A read at an even number, and the number loaded after it, which is new.\<close>

lemma polled_in_order_snoc:
  assumes obs: "observation (latest_init n) (latest_step n) \<sigma>" and ord: "polled_in_order \<sigma> s cs"
    and at: "poll_at s \<le> i" "i \<le> j" "j \<le> k" "k \<le> poll_at s'"
    and read: "latest_ver (\<sigma> i) \<noteq> 0" "latest_ver (\<sigma> j) = 2 * c"
    and new: "unat (last_seq s') = latest_ver (\<sigma> k)" "last_seq s' \<noteq> last_seq s"
    and msg: "messages s' = messages s @ [hist (\<sigma> j) ! c]"
  shows "polled_in_order \<sigma> s' (cs @ [c])"
proof -
  note V = seqlock.ver_observed [OF obs]
  note O = ord [unfolded polled_in_order_def]
  have L: "unat (last_seq s) \<le> 2 * c" "1 \<le> c" using O V [OF at(1)] V [OF at(2)] read by auto
  have L': "2 * c \<le> unat (last_seq s')" using V [OF at(3)] read(2) new(1) by simp
  have ne: "unat (last_seq s') \<noteq> unat (last_seq s)" using new(2) by (simp add: word_unat_eq_iff)
  have le: "d \<le> c" if "d \<in> set cs" for d using O L(1) that by fastforce
  have "count_list (cs @ [c]) d \<le> (if 2 * d = unat (last_seq s') then 1 else 2)" for d
  proof (cases "d \<in> set cs")
    case True
    then have "2 * d \<le> unat (last_seq s)" using O by blast
    with L L' ne have "2 * d \<noteq> unat (last_seq s')" "d = c \<Longrightarrow> 2 * d = unat (last_seq s)" by auto
    moreover have "count_list cs d \<le> (if 2 * d = unat (last_seq s) then 1 else 2)" using O by blast
    ultimately show ?thesis by (cases "d = c") (auto split: if_splits)
  qed (simp add: count_list_0)
  moreover have "\<forall>d \<in> set (cs @ [c]). 1 \<le> d \<and> 2 * d \<le> unat (last_seq s')" using O L L' by force
  moreover have "sorted (cs @ [c])" using O le by (simp add: sorted_append)
  moreover have "unat (last_seq s') \<le> latest_ver (\<sigma> (poll_at s'))" using V [OF at(4)] new(1) by simp
  moreover have "hist (\<sigma> (poll_at s')) ! d = hist (\<sigma> (poll_at s)) ! d" if "d \<in> set cs" for d
    using O that at by (intro commit_recorded [OF obs]) auto
  moreover have "hist (\<sigma> (poll_at s')) ! c = hist (\<sigma> j) ! c"
    using read(2) at by (intro commit_recorded [OF obs]) auto
  ultimately show ?thesis using O msg unfolding polled_in_order_def by auto
qed

lemma latest_poll_turn_in_order:
  assumes obs: "observation (latest_init n) (latest_step n) \<sigma>" and ord: "polled_in_order \<sigma> s cs"
    and turn: "latest_poll_turn True d (\<lambda>k. slot (\<sigma> k)) clock n thr s = Inr s'"
  shows "\<exists>cs. polled_in_order \<sigma> s' cs"
proof -
  obtain r v k where read: "latest_try_read_status (\<lambda>k. slot (\<sigma> k)) clock n thr 1024 (poll_at s) (poll_value s) =
      Inr (r, v, k)"
    using turn by (auto simp: latest_poll_turn_def bindE_eq_Inr)
  note k = status_read_mono [OF read]
  have q: "sequence (control (slot (\<sigma> j))) = of_nat (latest_ver (\<sigma> j))" "latest_ver (\<sigma> j) < 2 ^ 64" for j
    using seqlock.inv_observed [OF obs, of j] latest_ver_bound [OF seqlock.inv_observed [OF obs, of j]]
    by (simp_all add: latest_inv_def)
  show ?thesis
  proof (cases "r = kSuccess \<and> raw_sequence (slot (\<sigma> k)) \<noteq> last_seq s")
    case True
    with read have loop: "status_loop (\<lambda>k. slot (\<sigma> k)) clock n thr 0 1024 (poll_at s + 1) (poll_value s) =
        Inr (kSuccess, v, k)" and sq: "sequence (control (slot (\<sigma> (poll_at s)))) \<noteq> 0"
      by (auto simp: latest_try_read_status_def split: if_splits)
    have nz: "latest_ver (\<sigma> (poll_at s)) \<noteq> 0" using sq q(1) [of "poll_at s"] by (intro notI) simp
    from status_loop_committed [OF obs loop] obtain j where j: "poll_at s + 1 \<le> j" "j < k"
      "sequence (control (slot (\<sigma> j))) AND 1 = 0" "v = last (hist (\<sigma> j))" by auto
    define c where "c = length (hist (\<sigma> j)) - 1"
    have "even (latest_ver (\<sigma> j))" using j(3) unfolding q(1) word_even_of_nat .
    then have c: "latest_ver (\<sigma> j) = 2 * c" by (auto simp: latest_ver_def c_def split: wpc.splits)
    have "v = hist (\<sigma> j) ! c"
      using j(4) seqlock.inv_observed [OF obs, of j] by (simp add: c_def last_conv_nth latest_inv_def)
    moreover have "s' = s\<lparr>poll_value := v, poll_at := k + 1, last_seq := raw_sequence (slot (\<sigma> k)),
        messages := messages s @ [v]\<rparr>"
      using True turn read by (simp add: latest_poll_turn_def Let_def)
    moreover have "unat (raw_sequence (slot (\<sigma> k))) = latest_ver (\<sigma> k)"
      using q [of k] by (simp add: raw_sequence_def unat_of_nat)
    ultimately have "polled_in_order \<sigma> s' (cs @ [c])"
      using True j(1,2) nz c by (intro polled_in_order_snoc [OF obs ord, of "poll_at s" j k]) simp_all
    then show ?thesis ..
  next
    case False
    with turn read k have "polled_in_order \<sigma> s' cs"
      by (intro polled_in_order_later [OF obs ord])
        (auto simp: latest_poll_turn_def Let_def split: ReadResult.splits)
    then show ?thesis ..
  qed
qed

lemma latest_poll_loop_in_order:
  assumes "observation (latest_init n) (latest_step n) \<sigma>" "polled_in_order \<sigma> s cs"
    and "latest_poll_loop True d (\<lambda>k. slot (\<sigma> k)) clock n thr turns s = Inr s'"
  shows "\<exists>cs. polled_in_order \<sigma> s' cs"
  using assms(2,3)
proof (induction turns arbitrary: s cs)
  case (Suc turns)
  from Suc.prems(2) obtain s1 where s1: "latest_poll_turn True d (\<lambda>k. slot (\<sigma> k)) clock n thr s = Inr s1"
    "latest_poll_loop True d (\<lambda>k. slot (\<sigma> k)) clock n thr turns s1 = Inr s'"
    by (auto simp: bindE_eq_Inr)
  from latest_poll_turn_in_order [OF assms(1) Suc.prems(1) s1(1)] Suc.IH s1(2) show ?case by blast
qed auto

text \<open>Once the slot does not change any more, a subscriber that has seen its number stays silent.\<close>

lemma latest_poll_turn_quiet:
  assumes "\<forall>j \<ge> poll_at s. \<sigma> j = st" "sequence (control st) AND 1 = 0" "sequence (control st) \<noteq> 0"
    and "n \<le> length (ring st)" "last_seq s = sequence (control st)"
  shows "latest_poll_turn a d \<sigma> clock n thr s =
    Inr (s\<lparr>poll_value := take n (ring st), poll_at := poll_at s + n + 4\<rparr>)"
proof -
  have "\<sigma> (poll_at s + n + 3) = st" using assms(1) by simp
  then show ?thesis
    using read_quiet(2) [OF assms(1,2,4), of 1024, OF _ assms(3)] assms(5)
    by (simp add: latest_poll_turn_def Let_def raw_sequence_def)
qed

lemma latest_poll_loop_quiet:
  assumes "\<forall>j \<ge> poll_at s. \<sigma> j = st" "sequence (control st) AND 1 = 0" "sequence (control st) \<noteq> 0"
    and "n \<le> length (ring st)" "last_seq s = sequence (control st)"
  shows "\<exists>s'. latest_poll_loop a d \<sigma> clock n thr turns s = Inr s' \<and> messages s' = messages s"
  using assms(1,5)
proof (induction turns arbitrary: s)
  case (Suc turns)
  let ?s = "s\<lparr>poll_value := take n (ring st), poll_at := poll_at s + n + 4\<rparr>"
  have "\<exists>s'. latest_poll_loop a d \<sigma> clock n thr turns ?s = Inr s' \<and> messages s' = messages ?s"
    using Suc.prems by (intro Suc.IH) auto
  then show ?case
    using latest_poll_turn_quiet [OF Suc.prems(1) assms(2-4) Suc.prems(2), of a d clock thr] by simp
qed simp

section \<open>The life of a polling thread\<close>

lemma poller_calls_joinable:
  "joinable s = running s \<Longrightarrow> \<exists>s'. poller_calls cs s = Some s' \<and> joinable s' = running s'"
proof (induction cs arbitrary: s)
  case (Cons c cs)
  then show ?case by (cases c) (auto simp: poller_start_def poller_stop_def Let_def)
qed simp

section \<open>Properties\<close>

text \<open>
  C12. A byte topic end to end. A publisher creates the topic's file, a subscriber with a descriptor and an
  address of its own opens it and runs its polling thread while the publisher publishes, in any
  interleaving of the calls and with any number of turns before the thread is stopped. The thread
  ends. It has called back once, in order, for each message the ring accepted, with its type and a buffer that
  begins with the message; behind it stand the bytes that longer messages before have left in the buffer. If the
  accepted messages never get shorter, the callbacks are exactly the messages.
\<close>

theorem byte_topic_end_to_end:
  assumes "can_create env" "can_open env'" "separate env env' w"
    and "files w (topic_path base_dir prefix topic) = None" "size_ok bytes"
    and "list_all (\<lambda>m. length (fst m) < 2 ^ 32) (concat batches)" "length (concat batches) * 2 ^ 34 \<le> 2 ^ 64"
  shows "\<exists>pub w1 mp w2 r w3. SpscBytePublisher env topic bytes prefix base_dir w = Some (Inr (Inr pub, w1)) \<and>
    last_claim pub = kCreated \<and>
    SpscByteSubscriber env' topic prefix base_dir w1 = Inr (Inr mp, w2) \<and>
    on_ring mp (\<lambda>st. bindL (byte_poll_loop True turns batches st) (\<lambda>r. Some (Inr (r, shm r)))) w2 =
      Some (Inr (r, w3)) \<and>
    byte_poll_loop True turns batches (empty_ring (unat (align_up bytes kAlignment))) = Some (Inr r) \<and>
    calls r = overlays ([], 0) (sent r) \<and> list_all2 prefix_shown (calls r) (sent r) \<and>
    (sorted (map (\<lambda>m. length (fst m)) (sent r)) \<longrightarrow> calls r = sent r)"
proof -
  define cap where "cap = align_up bytes kAlignment"
  let ?path = "topic_path base_dir prefix topic"
  let ?f = "\<lambda>st. bindL (byte_poll_loop True turns batches st) (\<lambda>r. Some (Inr (r, shm r)))"
  note S = size_okD [OF assms(5), folded cap_def]
  obtain w1 where w1: "create_mapping env ?path bytes kFlagSPSC w =
      Inr (Inr (file_mapping (new_fd env) (new_addr env) cap), w1)"
    "holds_ring ?path cap kFlagSPSC (empty_ring (unat cap)) w1" "fds w1 = (fds w)(new_fd env \<mapsto> ?path)"
    "maps w1 = (maps w)(new_addr env \<mapsto> (?path, 384 + cap))"
    using create_holds [OF assms(1,4,5), of kFlagSPSC] by (auto simp: cap_def)
  have inv: "ring_inv (empty_ring (unat cap)) 0 0 []" using S(8,9) by (intro empty_ring_inv) simp_all
  have room: "0 + length (concat batches) * 2 ^ 34 \<le> 2 ^ 64" unfolding add_0 by (rule assms(7))
  have rep: "byte_topic_rep (unat cap) (length (concat batches)) (empty_ring (unat cap)) []"
    by (rule byte_topic_repI [OF _ inv _ room]) (simp_all add: empty_ring_def)
  obtain r where r: "byte_poll_loop True turns batches (empty_ring (unat cap)) = Some (Inr r)"
    "calls r = overlays ([], 0) (sent r)"
    "byte_topic_rep (unat cap) (length (concat (todo r))) (shm r) []"
    using byte_topic.poll_loop_delivers [OF rep assms(6),
        of "\<lambda>cs b dn. cs = overlays ([], 0) dn \<and> b = last (([], 0) # cs)" "([], 0)" "\<lambda>b. b" turns]
    by (auto simp: byte_poll_loop_def byte_topic.kept_def overlays_snoc)
  have l: "length (ring (shm r)) = unat cap" and c: "capacity (shm r) = cap"
    using r(3) by (auto simp: byte_topic_rep_def ring_inv_def ring_geometry_def)
  obtain w2 where w2: "open_mapping env' ?path kFlagSPSC w1 =
      Inr (Inr (file_mapping (new_fd env') (new_addr env') cap), w2)"
    "holds_ring ?path cap kFlagSPSC (empty_ring (unat cap)) w2"
    "maps w2 (new_addr env') = Some (?path, 384 + cap)"
    using open_holds [OF separate_os_ok [OF assms(3) w1(3,4)] assms(2) w1(2)] by auto
  obtain w3 where w3: "on_ring (file_mapping (new_fd env') (new_addr env') cap) ?f w2 = Some (Inr (r, w3))"
    using on_ring_holds [where f = ?f, OF w2(2,3) _ l c] r(1) by auto
  have "list_all2 prefix_shown (calls r) (sent r)" unfolding r(2) by (rule overlays_shown)
  moreover have "sorted (map (\<lambda>m. length (fst m)) (sent r)) \<longrightarrow> calls r = sent r"
    unfolding r(2) using overlays_sorted [of "([], 0)" "sent r"] by simp
  ultimately show ?thesis
    using w1(1) assms(4) w2(1) w3 r(1,2)
    by (auto simp: SpscBytePublisher_def make_publisher_def spsc_claim_def SpscByteSubscriber_def spsc_open_def cap_def)
qed

text \<open>Two messages are published before the first turn, and the ring takes both.\<close>

lemma example_span_pushes:
  "\<exists>s1 s2 t ms. span_push ([7], 3) (empty_ring 64) = Some (Inr (True, s1)) \<and>
     span_push ([1, 2], 4) s1 = Some (Inr (True, s2)) \<and> ring_inv s2 0 t ms \<and> length ms = 2"
proof -
  note lens = push_fits_def push_len_def pad_len_def rec_len_def room_def
  let ?x = "next_message (empty_ring 64) [7] 3"
  let ?st = "pushed_state (empty_ring 64) 0 ?x"
  have inv: "ring_inv (empty_ring 64) 0 0 []" by (rule empty_ring_inv) simp_all
  have hr: "counter_headroom 64 t" for t by (simp add: counter_headroom_def)
  have l: "length (ring (empty_ring 64)) = 64" by (simp add: empty_ring_def)
  have rd: "readable (Some [7]) 1" "readable (Some [1, 2]) 2" by (simp_all add: readable_def)
  have fits: "push_fits (empty_ring 64) 0 0 (unat (1 :: u32))" by (simp add: lens l)
  have hr0: "counter_headroom (length (ring (empty_ring 64))) 0" unfolding l by (rule hr)
  have p: "length (payload ?x) = unat (1 :: u32)" by (simp add: next_message_def)
  have "ring_inv ?st 0 24 ([] @ [?x])" using pushed_state_inv [OF inv p fits hr0] by (simp add: lens l)
  then have inv': "ring_inv ?st 0 24 [?x]" by simp
  have l': "length (ring ?st) = 64"
    by (simp add: pushed_state_def pushed_memory_def Let_def lens l next_message_def)
  then have hr1: "counter_headroom (length (ring ?st)) 24" by (simp add: hr)
  have fits': "push_fits ?st 0 24 (unat (2 :: u32))" by (simp add: lens l')
  from spsc.push_law [OF inv' rd(2) hr1, of 4] fits' obtain s2 t where
    "spsc_try_push ?st (Some [1, 2]) 2 4 = Some (Inr (True, s2))" "ring_inv s2 0 t ([?x] @ [next_message ?st [1, 2] 4])"
    by (auto simp: source_bytes_def)
  moreover have "spsc_try_push (empty_ring 64) (Some [7]) 1 3 = Some (Inr (True, ?st))"
    using spsc_try_push_eq [OF inv rd(1) hr0, of 3] fits by (simp add: source_bytes_def)
  ultimately show ?thesis
    by (intro exI [of _ ?st] exI [of _ s2] exI [of _ t] exI [of _ "[?x, next_message ?st [1, 2] 4]"])
      (simp add: span_push_def push_span_def)
qed

lemma spsc_try_pop_some:
  "ring_inv st h t (x # xs) \<Longrightarrow> \<exists>b' st' h'. spsc_try_pop b st = Some (Inr (True, b', st')) \<and> ring_inv st' h' t xs"
  using spsc.pop_first_law [of st h t x xs "\<lparr>out = fst b, out_type = snd b, out_sequence = None\<rparr>"]
  by (auto simp: spsc_try_pop_def)

lemma spsc_try_pop_none:
  "ring_inv st h t [] \<Longrightarrow> \<exists>b' st'. spsc_try_pop b st = Some (Inr (False, b', st')) \<and> ring_inv st' t t []"
  using spsc.pop_empty_law [of st h t "\<lparr>out = fst b, out_type = snd b, out_sequence = None\<rparr>"]
  by (auto simp: spsc_try_pop_def)

lemma example_topic:
  "\<exists>r. byte_poll_loop True 1 [[([7], 3), ([1, 2], 4)]] (empty_ring 64) = Some (Inr r) \<and>
     sent r = [([7], 3), ([1, 2], 4)]"
proof -
  obtain s1 s2 t x y where s: "span_push ([7], 3) (empty_ring 64) = Some (Inr (True, s1))"
    "span_push ([1, 2], 4) s1 = Some (Inr (True, s2))" and inv2: "ring_inv s2 0 t [x, y]"
    using example_span_pushes by (auto simp: length_Suc_conv numeral_2_eq_2)
  obtain p1 s3 h where 3: "spsc_try_pop ([], 0) s2 = Some (Inr (True, p1, s3))" and inv3: "ring_inv s3 h t [y]"
    using spsc_try_pop_some [OF inv2] by blast
  obtain p2 s4 h' where 4: "spsc_try_pop p1 s3 = Some (Inr (True, p2, s4))" and inv4: "ring_inv s4 h' t []"
    using spsc_try_pop_some [OF inv3] by blast
  obtain p3 s5 where 5: "spsc_try_pop p2 s4 = Some (Inr (False, p3, s5))" and inv5: "ring_inv s5 t t []"
    using spsc_try_pop_none [OF inv4] by blast
  obtain p4 s6 where 6: "spsc_try_pop p3 s5 = Some (Inr (False, p4, s6))"
    using spsc_try_pop_none [OF inv5] by blast
  note body = drain_body_def next_batch_def Let_def
  show ?thesis
    by (simp add: byte_poll_loop_def poll_start_def drain_def run_loopL_continue run_loopL_exit body s 3 4 5 6)
qed

theorem byte_topic_end_to_end_witness:
  "\<exists>pub w1 mp w2 r w3. SpscBytePublisher example_env ''t'' 64 ''lf'' ''/dev/shm'' no_files = Some (Inr (Inr pub, w1)) \<and>
    SpscByteSubscriber other_env ''t'' ''lf'' ''/dev/shm'' w1 = Inr (Inr mp, w2) \<and>
    on_ring mp (\<lambda>st. bindL (byte_poll_loop True 1 [[([7], 3), ([1, 2], 4)]] st) (\<lambda>r. Some (Inr (r, shm r)))) w2 =
      Some (Inr (r, w3)) \<and> calls r = [([7], 3), ([1, 2], 4)]"
proof -
  let ?b = "[[([7], 3), ([1, 2], 4)]] :: (byte list \<times> u16) list list"
  have s: "size_ok 64" "unat (align_up 64 kAlignment) = 64"
    by (simp_all add: size_ok_def align_up_def kAlignment_def)
  have b: "list_all (\<lambda>m. length (fst m) < 2 ^ 32) (concat ?b)" "length (concat ?b) * 2 ^ 34 \<le> (2 :: nat) ^ 64"
    by simp_all
  from byte_topic_end_to_end [OF example_env_ok(1) other_env_ok example_env_ok(4) s(1) b,
      of "''t''" "''lf''" "''/dev/shm''" 1] example_topic
  show ?thesis unfolding s(2) by auto
qed

text \<open>
  C19. The subscriber of a queue of fixed slots calls back exactly the values that were queued and
  those accepted while it ran, in order and once each, for any interleaving with the publisher and
  any moment of stopping; it ends, and the queue is then empty.
\<close>

theorem slot_subscriber_delivers_all:
  assumes "queue_holds k n st q" "list_all (\<lambda>v. length v = n) (concat batches)"
  shows "\<exists>r. slot_poll_loop (2 ^ k) (of_nat n) d True turns batches st = Some (Inr r) \<and>
    calls r = q @ sent r \<and> queue_holds k n (shm r) []"
  using slot_topic.poll_loop_delivers [OF assms, of "\<lambda>cs b dn. cs = dn" d "\<lambda>_. d" turns]
  by (simp add: slot_poll_loop_def slot_topic.kept_def)

theorem slot_subscriber_delivers_all_witness:
  "queue_holds 1 4 (empty_ring 8) [] \<and>
    (\<exists>r. slot_poll_loop 2 4 [0, 0, 0, 0] True 1 [[[1, 2, 3, 4], [5, 6, 7, 8]]] (empty_ring 8) = Some (Inr r) \<and>
      calls r = sent r)"
proof -
  have h: "queue_holds 1 4 (empty_ring 8) []" by (rule empty_queue_holds) (simp_all add: template_ok_def)
  have "list_all (\<lambda>v. length v = 4) (concat [[[1, 2, 3, 4], [5, 6, 7, 8 :: byte]]])" by simp
  from slot_subscriber_delivers_all [OF h this, of "[0, 0, 0, 0]" 1] h show ?thesis by auto
qed

text \<open>
  C20. What the subscriber of a latest value calls back was committed, in that order and without
  endless repetition: however the writer interleaves and however often the subscriber polls, the callbacks are
  the values of a non-decreasing sequence of commits in which no commit occurs more than twice. The zeroes of
  a new file are never called back.
\<close>

theorem latest_subscriber_in_order:
  assumes "observation (latest_init n) (latest_step n) \<sigma>"
    and "latest_poll_loop True on_death (\<lambda>k. slot (\<sigma> k)) clock n thr turns (latest_poll_start n) = Inr s"
  shows "\<exists>cs. sorted cs \<and> (\<forall>c. count_list cs c \<le> 2) \<and>
    (\<forall>c \<in> set cs. 1 \<le> c \<and> c < length (hist (\<sigma> (poll_at s)))) \<and>
    messages s = map (\<lambda>c. hist (\<sigma> (poll_at s)) ! c) cs"
proof -
  have "polled_in_order \<sigma> (latest_poll_start n) []"
    by (simp add: polled_in_order_def latest_poll_start_def)
  from latest_poll_loop_in_order [OF assms(1) this assms(2)] obtain cs where
    O: "polled_in_order \<sigma> s cs" by blast
  have "c < length (hist (\<sigma> (poll_at s)))" if "c \<in> set cs" for c
    using O that by (intro commit_recorded [OF assms(1) _ order_refl]) (auto simp: polled_in_order_def)
  moreover have "count_list cs c \<le> 2" for c
    using O by (auto simp: polled_in_order_def split: if_splits) (metis le_SucI numeral_2_eq_2)
  ultimately show ?thesis using O by (auto simp: polled_in_order_def)
qed

text \<open>
  The bound is reached: in this run the next write begins after the second read of the first value and
  before the number is loaded, and the value is called back again.
\<close>

definition begun_write :: latest_sys where
  "begun_write = \<lparr>slot = slot_state 3 7 0 [1, 1, 0, 0, 0, 0, 0, 0], wpc = WCopy 2 [2, 2] 0, hist = [[0, 0], [1, 1]]\<rparr>"

definition early_begin :: "nat \<Rightarrow> latest_sys" where
  "early_begin = listed (replicate 11 after_write @ [begun_write])"

lemma early_begin_at: "early_begin k = (if k < 11 then after_write else begun_write)"
  by (simp add: early_begin_def listed_def nth_append)

lemma early_begin_observation: "observation (latest_init 2) (latest_step 2) early_begin"
proof -
  have 1: "(latest_step 2)\<^sup>*\<^sup>* fresh_slot after_write"
    using mid_write_steps after_write_steps by (rule rtranclp_trans)
  have "latest_events 2 [EHeartbeat 7, ELoad [2, 2], EBegin] after_write = Some begun_write"
    by (simp add: slot_run_simps after_write_def begun_write_def)
  from writer_events_steps [OF this] have 2: "(latest_step 2)\<^sup>*\<^sup>* after_write begun_write" by simp
  show ?thesis
    unfolding early_begin_def using fresh_slot_init 1 2
    by (intro observation_listed) (auto simp: nth_append)
qed

lemma early_begin_polled:
  "latest_poll_loop True True (\<lambda>k. slot (early_begin k)) (\<lambda>_. 0) 2 0 2 (latest_poll_start 2) =
     Inr \<lparr>poll_at = 12, last_seq = 3, poll_value = [1, 1], messages = [[1, 1], [1, 1]], deaths = 0\<rparr>"
proof -
  have a: "slot after_write = slot_state 2 0 0 [1, 1, 0, 0, 0, 0, 0, 0]" by (simp add: after_write_def)
  have loop: "status_loop (\<lambda>k. slot (early_begin k)) clock 2 thr 0 (Suc r) k dst = Inr (kSuccess, [1, 1], k + 4)"
    if "k \<in> {1, 7}" for clock thr r k dst
    using that by (auto simp: early_begin_at a slot_state_def copy_observed_def numeral_2_eq_2)
  have "latest_try_read_status (\<lambda>k. slot (early_begin k)) clock 2 thr 1024 k dst = Inr (kSuccess, [1, 1], k + 5)"
    if "k \<in> {0, 6}" for clock thr k dst
    using that loop [of "k + 1" clock thr 1023 dst]
    by (auto simp: latest_try_read_status_def early_begin_at a slot_state_def)
  then show ?thesis
    by (simp add: numeral_2_eq_2 latest_poll_turn_def latest_poll_start_def raw_sequence_def early_begin_at a
        slot_state_def begun_write_def Let_def)
qed

theorem latest_subscriber_in_order_witness:
  "observation (latest_init 2) (latest_step 2) early_begin \<and>
     (\<exists>s cs. latest_poll_loop True True (\<lambda>k. slot (early_begin k)) (\<lambda>_. 0) 2 0 2 (latest_poll_start 2) = Inr s \<and>
        messages s = [[1, 1], [1, 1]] \<and> sorted cs \<and> count_list cs 1 \<le> 2 \<and>
        map (\<lambda>c. hist (early_begin 12) ! c) cs = [[1, 1], [1, 1]])"
  using early_begin_observation latest_subscriber_in_order [OF early_begin_observation early_begin_polled]
  by (auto simp: early_begin_polled)

text \<open>Two committed writes; the second happens while the subscriber is between its read and its load of the number.\<close>

definition second_write :: latest_sys where
  "second_write = \<lparr>slot = slot_state 4 7 0 [2, 2, 0, 0, 0, 0, 0, 0], wpc = WHeart,
     hist = [[0, 0], [1, 1], [2, 2]]\<rparr>"

definition late_write :: "nat \<Rightarrow> latest_sys" where
  "late_write = listed [after_write, after_write, after_write, after_write, after_write, second_write]"

lemma late_write_observation: "observation (latest_init 2) (latest_step 2) late_write"
proof -
  have 1: "(latest_step 2)\<^sup>*\<^sup>* fresh_slot after_write"
    using mid_write_steps after_write_steps by (rule rtranclp_trans)
  have "latest_events 2 [EHeartbeat 7, ELoad [2, 2], EBegin, ECopy, ECopy, ECommit] after_write = Some second_write"
    by (simp add: slot_run_simps after_write_def second_write_def)
  from writer_events_steps [OF this] have 2: "(latest_step 2)\<^sup>*\<^sup>* after_write second_write" by simp
  show ?thesis
    unfolding late_write_def using fresh_slot_init 1 2
    by (intro observation_listed) (auto simp: nth_Cons split: nat.splits)
qed

lemma late_write_turn:
  "latest_poll_turn True d (\<lambda>k. slot (late_write k)) clock 2 thr (latest_poll_start 2) =
     Inr \<lparr>poll_at = 6, last_seq = 4, poll_value = [1, 1], messages = [[1, 1]], deaths = 0\<rparr>"
proof -
  have n: "replicate 2 0 = [0, 0 :: byte]" "sequence (control (slot (late_write 5))) = 4"
    by (simp_all add: numeral_2_eq_2 late_write_def listed_def second_write_def slot_state_def)
  have 1: "status_loop (\<lambda>k. slot (late_write k)) clock 2 thr 0 (Suc r) 1 [0, 0] = Inr (kSuccess, [1, 1], 5)" for r
    by (simp add: late_write_def listed_def numeral_2_eq_2 copy_observed_def after_write_def slot_state_def)
  have "sequence (control (slot (late_write 0))) \<noteq> 0"
    by (simp add: late_write_def listed_def after_write_def slot_state_def)
  then have "latest_try_read_status (\<lambda>k. slot (late_write k)) clock 2 thr 1024 0 [0, 0] = Inr (kSuccess, [1, 1], 5)"
    using 1 [of 1023] by (simp add: latest_try_read_status_def)
  then show ?thesis
    using n by (simp add: latest_poll_turn_def latest_poll_start_def raw_sequence_def)
qed

text \<open>
  C38. There is a run in which the subscriber of a latest value misses the newest value for good. It compares
  the number it loads \<^emph>\<open>after\<close> the read with the last one; here the second and last write is committed in
  between, so the number of the second value is recorded as seen while the first is called back, and
  no later turn, however many follow, reports the second.
\<close>

theorem latest_subscriber_misses_newest:
  "\<exists>\<sigma>. observation (latest_init 2) (latest_step 2) \<sigma> \<and>
     (\<forall>on_death clock thr turns. \<exists>s.
        latest_poll_loop True on_death (\<lambda>k. slot (\<sigma> k)) clock 2 thr (Suc turns) (latest_poll_start 2) = Inr s \<and>
        messages s = [[1, 1]]) \<and>
     (\<forall>k. last (hist (\<sigma> (5 + k))) = [2, 2])"
proof (intro exI [of _ late_write] conjI allI)
  let ?s = "\<lparr>poll_at = 6, last_seq = 4, poll_value = [1, 1], messages = [[1, 1]], deaths = 0\<rparr>"
  have late: "late_write j = second_write" if "5 \<le> j" for j
    using that by (cases "j = 5") (simp_all add: late_write_def listed_def)
  show "last (hist (late_write (5 + k))) = [2, 2]" for k by (simp add: late second_write_def)
  fix on_death clock thr turns
  have "\<exists>s'. latest_poll_loop True on_death (\<lambda>k. slot (late_write k)) clock 2 thr turns ?s = Inr s' \<and>
      messages s' = messages ?s"
    by (rule latest_poll_loop_quiet [where st = "slot second_write"])
      (simp_all add: late second_write_def slot_state_def)
  then show "\<exists>s. latest_poll_loop True on_death (\<lambda>k. slot (late_write k)) clock 2 thr (Suc turns)
      (latest_poll_start 2) = Inr s \<and> messages s = [[1, 1]]"
    by (simp add: late_write_turn)
qed (rule late_write_observation)

text \<open>
  C25. Starting and stopping in any order never calls \<open>std::terminate\<close>: after any sequence of
  \<open>start\<close> and \<open>stop\<close> on a new subscriber the thread is joinable exactly when it is running, so
  that \<open>start\<close> never assigns to a joinable thread, and the destructor leaves none behind.
\<close>

theorem poller_never_terminates:
  "\<exists>s. poller_calls cs new_poller = Some s \<and> joinable s = running s \<and> poller_destroy s = Some ()"
proof -
  obtain s where "poller_calls cs new_poller = Some s" "joinable s = running s"
    using poller_calls_joinable [of new_poller cs] by (auto simp: new_poller_def)
  then show ?thesis by (auto simp: poller_destroy_def poller_stop_def)
qed

lemma topic_path_split: "\<exists>dir. \<forall>topic. topic_path base_dir prefix topic = dir @ sanitize topic"
proof (cases prefix)
  case Nil
  then show ?thesis by (cases "base_dir = [] \<or> last base_dir = CHR ''/''")
      (auto simp: topic_path_def path_append_def)
next
  case (Cons c cs)
  then show ?thesis by (cases "c = CHR ''/''"; cases "base_dir = [] \<or> last base_dir = CHR ''/''")
      (auto simp: topic_path_def path_append_def)
qed

text \<open>
  Topics get files of their own as long as no name contains a slash; but slashes are replaced
  by single underscores (the comment says three), so that topics like \<open>a/b\<close> and \<open>a_b\<close> share a file.
\<close>

theorem topic_path_injective:
  "(CHR ''/'' \<notin> set a \<longrightarrow> CHR ''/'' \<notin> set b \<longrightarrow>
      topic_path base_dir prefix a = topic_path base_dir prefix b \<longrightarrow> a = b) \<and>
    topic_path base_dir prefix (x @ ''/'' @ y) = topic_path base_dir prefix (x @ ''_'' @ y)"
proof -
  have "sanitize c = c" if "CHR ''/'' \<notin> set c" for c
    using that unfolding sanitize_def by (intro map_idI) auto
  moreover have "sanitize (x @ ''/'' @ y) = sanitize (x @ ''_'' @ y)" by (simp add: sanitize_def)
  ultimately show ?thesis using topic_path_split [of base_dir prefix] by auto
qed

theorem topic_path_injective_witness:
  "topic_path ''/dev/shm'' ''lf'' ''a'' \<noteq> topic_path ''/dev/shm'' ''lf'' ''b''"
  using topic_path_injective [of "''a''" "''b''"] by auto

end
