(* ===== verification/Ring_Wellformed.thy ===== *)
theory Ring_Wellformed
  imports Shared_Ring_Buffer Shared_Ring_Buffer_SPSC Shared_Ring_Buffer_MPMC
begin

text \<open>
  Well-formed rings, and that every operation of each of the three kinds of ring takes a well-formed
  ring to a well-formed ring and returns. The kinds share one layout, so the operations may follow one
  another on the same file.
\<close>

text \<open>
  The counters are in order and at most a capacity apart, and the bytes between them are records and
  padding, for a capacity that divides \<open>2^64\<close>.
\<close>

definition well_formed :: "ring_state \<Rightarrow> bool" where
  "well_formed st \<longleftrightarrow> length (ring st) dvd 2 ^ 64 \<and> (\<exists>h t ms. ring_inv st h t ms)"

lemma well_formedI: "ring_inv st h t ms \<Longrightarrow> length (ring st) dvd 2 ^ 64 \<Longrightarrow> well_formed st"
  unfolding well_formed_def by blast

lemma well_formed_capacity: "well_formed st \<Longrightarrow> capacity st = of_nat (length (ring st))"
  by (auto simp: well_formed_def dest: ring_invD(1) ring_geometryD(3))

lemma empty_ring_well_formed: "0 < c \<Longrightarrow> c < 2 ^ 63 \<Longrightarrow> c dvd 2 ^ 64 \<Longrightarrow> well_formed (empty_ring c)"
  using empty_ring_inv [of c] by (intro well_formedI) (auto simp: empty_ring_def)

context byte_ring
begin

lemma push_keeps:
  assumes "well_formed st" "readable data sz"
  shows "\<exists>ok st'. push st data sz ty = Some (Inr (ok, st')) \<and> well_formed st' \<and> capacity st' = capacity st"
proof -
  obtain h t ms where i: "ring_inv st h t ms" and d: "length (ring st) dvd 2 ^ 64" using assms(1) by (auto simp: well_formed_def)
  then have "counter_headroom (length (ring st)) t" by (simp add: counter_headroom_def)
  from push_law [OF i assms(2) this, of ty] obtain st' t' ms' where
    s: "push st data sz ty = Some (Inr (push_fits st h t (unat sz), st'))" "ring_inv st' h t' ms'" "length (ring st') = length (ring st)"
    by blast
  then have "well_formed st'" using d by (auto intro: well_formedI)
  with s assms(1) show ?thesis by (auto simp: well_formed_capacity)
qed

lemma pop_keeps:
  assumes "well_formed st"
  shows "\<exists>ok p' st'. pop st p = Some (Inr (ok, p', st')) \<and> well_formed st' \<and> capacity st' = capacity st"
proof -
  obtain h t ms where i: "ring_inv st h t ms" and d: "length (ring st) dvd 2 ^ 64" using assms by (auto simp: well_formed_def)
  obtain ok p' st' h' t' ms' where
    s: "pop st p = Some (Inr (ok, p', st'))" "ring_inv st' h' t' ms'" "length (ring st') = length (ring st)"
  proof (cases ms)
    case Nil
    with i pop_empty_law [of st h t p] show ?thesis using that by blast
  next
    case (Cons x xs)
    with i pop_first_law [of st h t x xs p] show ?thesis using that by blast
  qed
  then have "well_formed st'" using d by (auto intro: well_formedI)
  with s assms show ?thesis by (auto simp: well_formed_capacity)
qed

end

text \<open>
  C26. Every operation of every kind of ring keeps a ring well-formed, with its capacity, and returns:
  on a well-formed ring the push of any readable data and a pop into any variables neither fault nor
  run for ever.
\<close>

theorem ring_operations_keep_well_formed:
  assumes "well_formed st" "readable data sz"
  shows "(\<forall>push \<in> {SharedRingBuffer_try_push fails, spsc_try_push, mpmc_try_push fails}.
      \<exists>ok st'. push st data sz ty = Some (Inr (ok, st')) \<and> well_formed st' \<and> capacity st' = capacity st) \<and>
    (\<forall>pop \<in> {try_pop_internal, spsc_try_pop_internal, mpmc_try_pop pop_fails}.
      \<exists>ok p' st'. pop st p = Some (Inr (ok, p', st')) \<and> well_formed st' \<and> capacity st' = capacity st)"
  using mpsc.push_keeps [OF assms] spsc.push_keeps [OF assms] mpmc.push_keeps [OF assms]
    mpsc.pop_keeps [OF assms(1)] spsc.pop_keeps [OF assms(1)] mpmc.pop_keeps [OF assms(1)] by blast

theorem ring_operations_keep_well_formed_witness:
  "well_formed (empty_ring 64) \<and> readable (Some [1, 2, 3]) 3 \<and>
   (\<exists>ok st'. spsc_try_push (empty_ring 64) (Some [1, 2, 3]) 3 9 = Some (Inr (ok, st')) \<and> well_formed st' \<and> capacity st' = 64)"
proof -
  have w: "well_formed (empty_ring 64)" by (rule empty_ring_well_formed) simp_all
  have r: "readable (Some [1, 2, 3 :: byte]) 3" by (simp add: readable_def)
  have "capacity (empty_ring 64) = 64" by (simp add: empty_ring_def)
  with w r ring_operations_keep_well_formed [OF w r, of 0 9] show ?thesis by auto
qed

end
