(* ===== verification/MPSC_Steps.thy ===== *)
theory MPSC_Steps
  imports Shared_Ring_Buffer Interleaving "HOL-Library.Code_Target_Nat"
begin

text \<open>
  The multi-producer ring access by access: \<open>detail::try_push\<close> of \<open>ring_writer.hpp\<close> and
  \<open>SharedRingBuffer::try_pop_internal\<close> cut at every load, store and compare-and-swap of shared
  memory, any number of producers and one consumer taking turns. A field of a record header is one
  access, a \<open>memcpy\<close> one access per byte. Memory is sequentially consistent.

  \<open>producer_step\<close> and \<open>consumer_step\<close> give the next access of a thread. The constructors of
  \<open>producer\<close> and \<open>consumer\<close> are the places in the code, with the local variables that are live there.
\<close>

unbundle bit_operations_syntax

text \<open>Equations by which runs are evaluated.\<close>

declare record_size_of_nat [code] sizeof_values(2) [code]

section \<open>Producers\<close>

text \<open>A successful reservation: the message, \<open>start\<close>, \<open>padding\<close>, and the offset of the header.\<close>

record ticket =
  tk_bytes :: "byte list"
  tk_type :: u16
  tk_start :: u64
  tk_padding :: u64
  tk_pos :: u64

datatype producer =
    PIdle
  | PLoadHead "byte list" u16
  | PLoadTail "byte list" u16 u64
  | PReserve "byte list" u16 u64 u64 bool
  | PStore ticket "(nat \<times> byte list) list"
  | PSpin ticket
  | PCount ticket
  | PNumber ticket u64
  | PPublish ticket u64
  | PReturned bool

definition call_size :: "byte list \<Rightarrow> u32" where
  "call_size bs = of_nat (length bs)"

text \<open>
  The check of the size before the loop. The check for a null pointer cannot fail here: a caller passes
  the bytes of a span (\<open>try_push\<close> in \<open>Ring_Writer\<close> has both checks).
\<close>

definition push_entry :: "ring_state \<Rightarrow> byte list \<Rightarrow> u16 \<Rightarrow> producer" where
  "push_entry st bs ty =
     (if record_size (call_size bs) > capacity st then PReturned False else PLoadHead bs ty)"

text \<open>The computation between the loads and the compare-and-swap: \<open>None\<close> for \<open>return false\<close>.\<close>

definition reserve_plan :: "u64 \<Rightarrow> u64 \<Rightarrow> u64 \<Rightarrow> u64 \<Rightarrow> (u64 \<times> bool) option exec" where
  "reserve_plan record_sz cap head tail =
     (let used = tail - head
      in if used > cap then Inr None
         else if cap = 0 then Inl DivideByZero
         else let pos = tail mod cap;
                  remaining = cap - pos;
                  (padding, needs_wrap_record) =
                    (if remaining < sizeof_RecordHeader then (remaining, False)
                     else if remaining < record_sz then (remaining, True)
                     else (0, False));
                  total = padding + record_sz
              in if used + total > cap then Inr None else Inr (Some (padding, needs_wrap_record)))"

text \<open>The stores of a header, of a payload, and of the whole record, in the order of the code.\<close>

definition header_stores :: "nat \<Rightarrow> RecordHeader \<Rightarrow> (nat \<times> byte list) list" where
  "header_stores p h =
     [(p, enc32 (rh_size h)), (p + 4, enc16 (rh_type h)), (p + 6, enc16 (rh_flags h)),
      (p + 8, enc64 (rh_sequence h))]"

definition payload_stores :: "nat \<Rightarrow> byte list \<Rightarrow> (nat \<times> byte list) list" where
  "payload_stores p bs = map (\<lambda>i. (p + i, [bs ! i])) [0..<length bs]"

definition record_pos :: "u64 \<Rightarrow> u64 \<Rightarrow> u64 \<Rightarrow> u64" where
  "record_pos cap start padding = (if padding > 0 then 0 else start mod cap)"

definition record_stores :: "u64 \<Rightarrow> u64 \<Rightarrow> u64 \<Rightarrow> bool \<Rightarrow> byte list \<Rightarrow> u16 \<Rightarrow> (nat \<times> byte list) list" where
  "record_stores cap start padding needs_wrap_record bs ty =
     (let pos = unat (record_pos cap start padding)
      in (if padding > 0 \<and> needs_wrap_record \<and> padding \<ge> sizeof_RecordHeader
          then header_stores (unat (start mod cap)) wrap_header else []) @
         header_stores pos \<lparr>rh_size = call_size bs, rh_type = ty, rh_flags = 0, rh_sequence = 0\<rparr> @
         payload_stores (pos + unat sizeof_RecordHeader) bs)"

text \<open>
  The next access of a producer. \<open>spurious\<close> says whether a compare-and-swap fails although the value
  is the expected one.
\<close>

fun producer_step :: "bool \<Rightarrow> ring_state \<Rightarrow> producer \<Rightarrow> (ring_state \<times> producer) exec" where
  "producer_step spurious st PIdle = Inr (st, PIdle)"
| "producer_step spurious st (PLoadHead bs ty) = Inr (st, PLoadTail bs ty (head_publish (control st)))"
| "producer_step spurious st (PLoadTail bs ty head) =
     (let tail = tail_reserve (control st)
      in bindE (reserve_plan (record_size (call_size bs)) (capacity st) head tail) (\<lambda>plan.
           case plan of
             None \<Rightarrow> Inr (st, PReturned False)
           | Some (padding, needs_wrap_record) \<Rightarrow> Inr (st, PReserve bs ty tail padding needs_wrap_record)))"
| "producer_step spurious st (PReserve bs ty tail padding needs_wrap_record) =
     (if tail_reserve (control st) = tail \<and> \<not> spurious
      then Inr (st\<lparr>control := (control st)\<lparr>tail_reserve := tail + (padding + record_size (call_size bs))\<rparr>\<rparr>,
        PStore \<lparr>tk_bytes = bs, tk_type = ty, tk_start = tail, tk_padding = padding,
            tk_pos = record_pos (capacity st) tail padding\<rparr>
          (record_stores (capacity st) tail padding needs_wrap_record bs ty))
      else Inr (st, PLoadHead bs ty))"
| "producer_step spurious st (PStore tk (s # ss)) =
     bindE (store_bytes (ring st) (fst s) (snd s)) (\<lambda>m. Inr (st\<lparr>ring := m\<rparr>, PStore tk ss))"
| "producer_step spurious st (PStore tk []) = Inr (st, PSpin tk)"
| "producer_step spurious st (PSpin tk) =
     Inr (st, if tail_publish (control st) = tk_start tk then PCount tk else PSpin tk)"
| "producer_step spurious st (PCount tk) =
     (let seq = sequence (control st)
      in Inr (st\<lparr>control := (control st)\<lparr>sequence := seq + 1\<rparr>\<rparr>, PNumber tk (seq + 1)))"
| "producer_step spurious st (PNumber tk seq) =
     bindE (store_rh_sequence (ring st) (tk_pos tk) seq) (\<lambda>m. Inr (st\<lparr>ring := m\<rparr>, PPublish tk seq))"
| "producer_step spurious st (PPublish tk seq) =
     Inr (st\<lparr>control := (control st)\<lparr>tail_publish :=
       tk_start tk + tk_padding tk + record_size (call_size (tk_bytes tk))\<rparr>\<rparr>, PReturned True)"
| "producer_step spurious st (PReturned b) = Inr (st, PReturned b)"

section \<open>The consumer\<close>

datatype consumer =
    CLoadTail
  | CLoadHead u64
  | CFlags u64 u64
  | CSize u64 u64
  | CCopy u64 u32 "byte list"
  | CType u64 u32 "byte list"
  | CSequence u64 u32 "byte list" u16
  | CStoreHead u64 "message option"
  | CStoreReserve u64 "message option"
  | CReturned "message option"

text \<open>The next access of the consumer; the sequence number is asked for.\<close>

fun consumer_step :: "ring_state \<Rightarrow> consumer \<Rightarrow> (ring_state \<times> consumer) exec" where
  "consumer_step st CLoadTail = Inr (st, CLoadHead (tail_publish (control st)))"
| "consumer_step st (CLoadHead tail) =
     (let head = head_publish (control st)
      in if head = tail then Inr (st, CReturned None)
         else if capacity st = 0 then Inl DivideByZero
         else let remaining = capacity st - head mod capacity st
              in if remaining < sizeof_RecordHeader then Inr (st, CStoreHead (head + remaining) None)
                 else Inr (st, CFlags tail head))"
| "consumer_step st (CFlags tail head) =
     bindE (load_rh_flags (ring st) (head mod capacity st)) (\<lambda>flags.
       if flags AND kWrapFlag \<noteq> 0
       then Inr (st, CStoreHead (head + (capacity st - head mod capacity st)) None)
       else Inr (st, CSize tail head))"
| "consumer_step st (CSize tail head) =
     bindE (load_rh_size (ring st) (head mod capacity st)) (\<lambda>payload_size.
       let record_sz = record_size payload_size
       in if record_sz > capacity st - head mod capacity st then Inr (st, CReturned None)
          else if tail - head < record_sz then Inr (st, CReturned None)
          else Inr (st, CCopy head payload_size []))"
| "consumer_step st (CCopy head payload_size bs) =
     (if length bs < unat payload_size
      then bindE (load_bytes (ring st)
             (unat (head mod capacity st) + unat sizeof_RecordHeader + length bs) 1) (\<lambda>b.
             Inr (st, CCopy head payload_size (bs @ b)))
      else Inr (st, CType head payload_size bs))"
| "consumer_step st (CType head payload_size bs) =
     bindE (load_rh_type (ring st) (head mod capacity st)) (\<lambda>ty.
       Inr (st, CSequence head payload_size bs ty))"
| "consumer_step st (CSequence head payload_size bs ty) =
     bindE (load_rh_sequence (ring st) (head mod capacity st)) (\<lambda>seq.
       Inr (st, CStoreHead (head + record_size payload_size)
         (Some \<lparr>payload = bs, msg_type = ty, msg_sequence = seq\<rparr>)))"
| "consumer_step st (CStoreHead head r) =
     Inr (st\<lparr>control := (control st)\<lparr>head_publish := head\<rparr>\<rparr>, CStoreReserve head r)"
| "consumer_step st (CStoreReserve head r) =
     Inr (st\<lparr>control := (control st)\<lparr>head_reserve := head\<rparr>\<rparr>,
       case r of None \<Rightarrow> CLoadTail | Some m \<Rightarrow> CReturned (Some m))"
| "consumer_step st (CReturned r) = Inr (st, CReturned r)"

section \<open>The system\<close>

text \<open>
  Producers are numbered. \<open>published\<close> records the message of each producer at its store of
  \<open>tail_publish\<close>, \<open>popped\<close> what the consumer has read at its store of \<open>head_publish\<close>.
\<close>

record mpsc_sys =
  mem :: ring_state
  prods :: "nat \<Rightarrow> producer"
  cons :: consumer
  published :: "message list"
  popped :: "message list"

fun idle :: "producer \<Rightarrow> bool" where
  "idle PIdle = True"
| "idle (PReturned _) = True"
| "idle _ = False"

fun publishes :: "producer \<Rightarrow> message list" where
  "publishes (PPublish tk seq) = [\<lparr>payload = tk_bytes tk, msg_type = tk_type tk, msg_sequence = seq\<rparr>]"
| "publishes _ = []"

fun pops :: "consumer \<Rightarrow> message list" where
  "pops (CStoreHead _ (Some m)) = [m]"
| "pops _ = []"

text \<open>The tail counter does not come round: runs are followed for \<open>2^64\<close> bytes.\<close>

fun in_range :: "producer \<Rightarrow> bool" where
  "in_range (PReserve bs _ tail padding _) =
     (unat tail + unat padding + unat (record_size (call_size bs)) < 2 ^ 64)"
| "in_range _ = True"

definition mpsc_init :: "nat \<Rightarrow> mpsc_sys \<Rightarrow> bool" where
  "mpsc_init c s \<longleftrightarrow> 0 < c \<and> c < 2 ^ 63 \<and>
     s = \<lparr>mem = empty_ring c, prods = (\<lambda>_. PIdle), cons = CLoadTail, published = [], popped = []\<rparr>"

inductive mpsc_step :: "mpsc_sys \<Rightarrow> mpsc_sys \<Rightarrow> bool" where
  push_call: "idle (prods s i) \<Longrightarrow> length bs < 2 ^ 32 \<Longrightarrow>
    mpsc_step s (s\<lparr>prods := (prods s)(i := push_entry (mem s) bs ty)\<rparr>)"
| produce: "producer_step spurious (mem s) (prods s i) = Inr (st, p) \<Longrightarrow> in_range (prods s i) \<Longrightarrow>
    mpsc_step s (s\<lparr>mem := st, prods := (prods s)(i := p), published := published s @ publishes (prods s i)\<rparr>)"
| pop_call: "cons s = CReturned r \<Longrightarrow> mpsc_step s (s\<lparr>cons := CLoadTail\<rparr>)"
| consume: "consumer_step (mem s) (cons s) = Inr (st, c) \<Longrightarrow>
    mpsc_step s (s\<lparr>mem := st, cons := c, popped := popped s @ pops (cons s)\<rparr>)"

text \<open>With nobody in between, the plan and its compare-and-swap are the turn of the loop.\<close>

lemma reserve_body_plan:
  "reserve_body record_sz (fails, st) =
     bindE (reserve_plan record_sz (capacity st) (head_publish (control st)) (tail_reserve (control st))) (\<lambda>plan.
       case plan of
         None \<Rightarrow> Inr (Inr (None, st))
       | Some (padding, needs_wrap_record) \<Rightarrow>
           (case fails of
              Suc n \<Rightarrow> Inr (Inl (n, st))
            | 0 \<Rightarrow> Inr (Inr (Some (tail_reserve (control st), padding, needs_wrap_record),
                st\<lparr>control := (control st)\<lparr>tail_reserve := tail_reserve (control st) + (padding + record_sz)\<rparr>\<rparr>))))"
  unfolding reserve_body_def reserve_plan_def Let_def by (auto simp: split_beta)

end
