(* ===== verification/MPSC_Stores.thy ===== *)
theory MPSC_Stores
  imports MPSC_Steps
begin

text \<open>
  The memory side of the concurrent ring: what a list of stores does, that the stores of a record
  make the record, and that stores of one reservation leave every other part of the window alone.
\<close>

section \<open>Lists of stores\<close>

definition apply_stores :: "(nat \<times> byte list) list \<Rightarrow> memory \<Rightarrow> memory" where
  "apply_stores ss m = foldl (\<lambda>m s. mem_write m (fst s) (snd s)) m ss"

lemma apply_stores_simps [simp]:
  "apply_stores [] m = m"
  "apply_stores (s # ss) m = apply_stores ss (mem_write m (fst s) (snd s))"
  "apply_stores (ss @ ss') m = apply_stores ss' (apply_stores ss m)"
  by (simp_all add: apply_stores_def)

lemma apply_header_stores:
  assumes "p + 16 \<le> length m"
  shows "apply_stores (header_stores p h) m = mem_write m p (header_bytes h)"
proof -
  let ?a = "enc32 (rh_size h)" and ?b = "enc16 (rh_type h)" and ?c = "enc16 (rh_flags h)"
  have 1: "mem_write (mem_write m p ?a) (p + 4) ?b = mem_write m p (?a @ ?b)"
    using mem_write_append [of p ?a ?b m] assms by simp
  have 2: "mem_write (mem_write m p (?a @ ?b)) (p + 6) ?c = mem_write m p (?a @ ?b @ ?c)"
    using mem_write_append [of p "?a @ ?b" ?c m] assms by simp
  have 3: "mem_write (mem_write m p (?a @ ?b @ ?c)) (p + 8) (enc64 (rh_sequence h)) = mem_write m p (header_bytes h)"
    using mem_write_append [of p "?a @ ?b @ ?c" "enc64 (rh_sequence h)" m] assms by (simp add: header_bytes_def)
  show ?thesis by (simp add: header_stores_def 1 2 3)
qed

lemma apply_payload_stores:
  "p + length bs \<le> length m \<Longrightarrow> apply_stores (payload_stores p bs) m = mem_write m p bs"
proof (induction bs rule: rev_induct)
  case (snoc b bs)
  have "payload_stores p (bs @ [b]) = payload_stores p bs @ [(p + length bs, [b])]"
    by (simp add: payload_stores_def nth_append)
  with snoc show ?case using mem_write_append [of p bs "[b]" m] by simp
qed (simp add: payload_stores_def)

text \<open>All stores lie at positions from \<open>a\<close> to \<open>b\<close>, each without crossing the end of the ring.\<close>

definition stores_in :: "nat \<Rightarrow> nat \<Rightarrow> nat \<Rightarrow> (nat \<times> byte list) list \<Rightarrow> bool" where
  "stores_in c a b ss \<longleftrightarrow> list_all (\<lambda>(ad, bs).
     \<exists>p. a \<le> p \<and> p + length bs \<le> b \<and> ad = p mod c \<and> p mod c + length bs \<le> c) ss"

lemma stores_in_simps [simp]:
  "stores_in c a b []"
  "stores_in c a b (ss @ ss') \<longleftrightarrow> stores_in c a b ss \<and> stores_in c a b ss'"
  by (simp_all add: stores_in_def)

lemma stores_in_ConsE:
  assumes "stores_in c a b (s # ss)"
  obtains p where "a \<le> p" "p + length (snd s) \<le> b" "fst s = p mod c" "p mod c + length (snd s) \<le> c"
    "stores_in c a b ss"
  using assms by (auto simp: stores_in_def split_beta)

text \<open>Stores at offsets \<open>j\<close> of a stretch of \<open>len\<close> bytes that does not cross the end of the ring.\<close>

lemma stores_in_offsets:
  assumes "q mod c + len \<le> c" "a \<le> q" "q + len \<le> b"
    and "\<And>ad bs. (ad, bs) \<in> set ss \<Longrightarrow> \<exists>j. ad = q mod c + j \<and> j + length bs \<le> len \<and> bs \<noteq> []"
  shows "stores_in c a b ss"
  unfolding stores_in_def list_all_iff
proof (clarify)
  fix ad bs assume "(ad, bs) \<in> set ss"
  from assms(4) [OF this] obtain j where j: "ad = q mod c + j" "j + length bs \<le> len" "bs \<noteq> []" by blast
  then have "q mod c + j < c" using assms(1) by (cases bs) auto
  then have "(q + j) mod c = q mod c + j" by (rule mod_add_in_block)
  with j assms(1-3) show "\<exists>p\<ge>a. p + length bs \<le> b \<and> ad = p mod c \<and> p mod c + length bs \<le> c"
    by (intro exI [of _ "q + j"]) auto
qed

lemma enc_nonempty [simp]: "enc16 v \<noteq> []" "enc32 w \<noteq> []" "enc64 x \<noteq> []"
  using length_enc(1) [of v] length_enc(2) [of w] length_enc(3) [of x] by (metis list.size(3) zero_neq_numeral)+

lemma header_stores_offsets:
  "(ad, bs) \<in> set (header_stores p h) \<Longrightarrow> \<exists>j. ad = p + j \<and> j + length bs \<le> 16 \<and> bs \<noteq> []"
  by (auto simp: header_stores_def)

lemma payload_stores_offsets:
  "(ad, bs) \<in> set (payload_stores p d) \<Longrightarrow> \<exists>j. ad = p + j \<and> j + length bs \<le> length d \<and> bs \<noteq> []"
  by (auto simp: payload_stores_def)

section \<open>The stores of a record\<close>

text \<open>
  The model's arithmetic for a reservation of \<open>n\<close> payload bytes at position \<open>t\<close>: the words of the
  code and the positions they stand for.
\<close>

definition call_ok :: "nat \<Rightarrow> byte list \<Rightarrow> bool" where
  "call_ok c bs \<longleftrightarrow> length bs < 2 ^ 32 \<and> rec_len (length bs) \<le> c"

lemma unat_call_size: "call_ok c bs \<Longrightarrow> unat (call_size bs) = length bs"
  by (simp add: call_ok_def call_size_def unat_of_nat)

lemma word_pos:
  fixes k cap :: u64
  assumes "0 < c" "c < 2 ^ 63" "cap = of_nat c"
  shows "unat (k mod cap) = unat k mod c" "unat (cap - k mod cap) = room c (unat k)"
proof -
  have ok: "counter_ok c (unat k)" using unat_lt_pow [of k] by (simp add: counter_ok_def)
  have k: "of_nat (unat k) = k" by simp
  have c: "unat cap = c" using assms(2,3) by (simp add: unat_of_nat_small)
  then show 1: "unat (k mod cap) = unat k mod c" by (simp add: unat_mod)
  have "c < 2 ^ 64" using assms(2) by simp
  then have "room c (unat k) < 2 ^ 64" using room_le [of c "unat k"] by linarith
  then show "unat (cap - k mod cap) = room c (unat k)"
    using pos_word [OF assms ok] unfolding k by (simp only: unat_of_nat_small)
qed

lemma record_pos_eq:
  fixes start :: u64
  assumes c: "0 < c" "c < 2 ^ 63" "cap = of_nat c" and n: "rec_len n \<le> c"
  defines "pad \<equiv> pad_len c (unat start) n"
  shows "record_pos cap start (of_nat pad) = of_nat ((unat start + pad) mod c)"
proof -
  have "unat (start mod cap) = unat start mod c" by (rule word_pos [OF c])
  then have s: "start mod cap = of_nat (unat start mod c)" by (rule word_of_unat)
  have "c < 2 ^ 64" using c(2) by simp
  then have "pad < 2 ^ 64" using room_le [of c "unat start"] by (simp only: pad_def pad_len_def) simp
  then have z: "0 < (of_nat pad :: u64) \<longleftrightarrow> 0 < pad"
    using of_nat_less_word(1) [of 0 pad] by simp
  have pos: "0 < room c (unat start)" using c(1) by simp
  show ?thesis
    using c(1) n
  proof (cases rule: pad_cases [where t = "unat start"])
    case fits
    then show ?thesis by (simp add: record_pos_def pad_def s)
  next
    case short
    then have "0 < pad" using pos by (simp add: pad_def)
    with short z show ?thesis by (simp add: record_pos_def pad_def)
  next
    case wrap
    then have "0 < pad" using pos by (simp add: pad_def)
    with wrap z show ?thesis by (simp add: record_pos_def pad_def)
  qed
qed

definition needs_wrap :: "nat \<Rightarrow> nat \<Rightarrow> nat \<Rightarrow> bool" where
  "needs_wrap c t n \<longleftrightarrow> 16 \<le> room c t \<and> room c t < rec_len n"

lemma record_stores_eq:
  fixes start :: u64
  assumes c: "0 < c" "c < 2 ^ 63" "cap = of_nat c" and bs: "call_ok c bs"
  defines "t \<equiv> unat start" and "n \<equiv> length bs"
  shows "record_stores cap start (of_nat (pad_len c t n)) (needs_wrap c t n) bs ty =
    (if needs_wrap c t n then header_stores (t mod c) wrap_header else []) @
    header_stores ((t + pad_len c t n) mod c)
      \<lparr>rh_size = of_nat n, rh_type = ty, rh_flags = 0, rh_sequence = 0\<rparr> @
    payload_stores ((t + pad_len c t n) mod c + 16) bs"
proof -
  have n: "rec_len n \<le> c" using bs by (simp add: call_ok_def n_def)
  have pad: "pad_len c t n < 2 ^ 64" using room_le [of c t] c(2) by (simp add: pad_len_def)
  have "(t + pad_len c t n) mod c < 2 ^ 64" using mod_less_divisor [OF c(1)] c(2) by (rule less_trans [OF _ less_trans]) simp
  then have pos: "unat (record_pos cap start (of_nat (pad_len c t n))) = (t + pad_len c t n) mod c"
    unfolding t_def record_pos_eq [OF c n] by (rule unat_of_nat_small)
  have w: "0 < (of_nat (pad_len c t n) :: u64) \<and> sizeof_RecordHeader \<le> (of_nat (pad_len c t n) :: u64)"
    if "needs_wrap c t n"
    using that of_nat_less_word [of 0 "pad_len c t n"] of_nat_less_word [of 16 "pad_len c t n"] pad
    by (simp add: needs_wrap_def pad_len_def)
  show ?thesis
    using w word_pos(1) [OF c, of start] pos
    by (auto simp: record_stores_def Let_def call_size_def n_def t_def)
qed

lemma record_stores_memory:
  assumes "0 < c" "length m = c" "call_ok c bs"
  defines "n \<equiv> length bs"
  shows "apply_stores ((if needs_wrap c t n then header_stores (t mod c) wrap_header else []) @
      header_stores ((t + pad_len c t n) mod c)
        \<lparr>rh_size = of_nat n, rh_type = ty, rh_flags = 0, rh_sequence = 0\<rparr> @
      payload_stores ((t + pad_len c t n) mod c + 16) bs) m =
    pushed_memory m t \<lparr>payload = bs, msg_type = ty, msg_sequence = 0\<rparr>"
proof -
  let ?q = "(t + pad_len c t n) mod c"
  let ?h = "\<lparr>rh_size = of_nat n, rh_type = ty, rh_flags = 0, rh_sequence = 0\<rparr> :: RecordHeader"
  define m1 where "m1 = (if needs_wrap c t n then mem_write m (t mod c) (header_bytes wrap_header) else m)"
  have len1: "length m1 = c" "needs_wrap c t n \<Longrightarrow> t mod c + 16 \<le> c"
    using add_le_room [OF assms(1), of 16 t] assms(2) by (auto simp: m1_def needs_wrap_def)
  have place: "?q + 16 + length bs \<le> c"
    using pushed_place [OF assms(1), of n t] rec_len_bounds(1) [of n] add_le_room [OF assms(1)] assms(3)
    by (simp add: call_ok_def n_def add.assoc)
  have 1: "apply_stores (if needs_wrap c t n then header_stores (t mod c) wrap_header else []) m = m1"
    using len1(2) assms(2) by (simp add: m1_def apply_header_stores)
  have 2: "apply_stores (header_stores ?q ?h) m1 = mem_write m1 ?q (header_bytes ?h)"
    using place len1(1) by (simp add: apply_header_stores)
  have 3: "apply_stores (payload_stores (?q + 16) bs) (mem_write m1 ?q (header_bytes ?h)) =
      mem_write m1 ?q (header_bytes ?h @ bs)"
    using place len1(1) mem_write_append [of ?q "header_bytes ?h" bs m1] by (simp add: apply_payload_stores)
  show ?thesis
    by (simp only: apply_stores_simps 1 2 3)
      (simp add: pushed_memory_def Let_def m1_def needs_wrap_def n_def assms(2))
qed

lemma record_stores_in:
  assumes "0 < c" "call_ok c bs"
  defines "n \<equiv> length bs"
  shows "stores_in c t (t + push_len c t n)
    ((if needs_wrap c t n then header_stores (t mod c) wrap_header else []) @
      header_stores ((t + pad_len c t n) mod c) h @ payload_stores ((t + pad_len c t n) mod c + 16) bs)"
proof -
  let ?q = "t + pad_len c t n"
  have len: "16 + n \<le> rec_len n" by (rule rec_len_bounds)
  have place: "?q mod c + (16 + n) \<le> c"
    using pushed_place [OF assms(1), of n t] len add_le_room [OF assms(1)] assms(2)
    by (simp add: call_ok_def n_def)
  have "stores_in c t (t + push_len c t n) (header_stores (t mod c) wrap_header)" if w: "needs_wrap c t n"
  proof (rule stores_in_offsets [where q = t and len = 16])
    show "t mod c + 16 \<le> c" using w add_le_room [OF assms(1), of 16 t] by (simp add: needs_wrap_def)
    show "t + 16 \<le> t + push_len c t n" using len by (simp add: push_len_def)
    show "\<exists>j. ad = t mod c + j \<and> j + length d \<le> 16 \<and> d \<noteq> []"
      if "(ad, d) \<in> set (header_stores (t mod c) wrap_header)" for ad d
      using that by (rule header_stores_offsets)
  qed simp
  moreover have "stores_in c t (t + push_len c t n) (header_stores (?q mod c) h @ payload_stores (?q mod c + 16) bs)"
  proof (rule stores_in_offsets [OF place])
    show "?q + (16 + n) \<le> t + push_len c t n" using len by (simp add: push_len_def)
    fix ad d assume "(ad, d) \<in> set (header_stores (?q mod c) h @ payload_stores (?q mod c + 16) bs)"
    then consider "(ad, d) \<in> set (header_stores (?q mod c) h)" | "(ad, d) \<in> set (payload_stores (?q mod c + 16) bs)"
      by auto
    then show "\<exists>j. ad = ?q mod c + j \<and> j + length d \<le> 16 + n \<and> d \<noteq> []"
    proof cases
      case 1
      from header_stores_offsets [OF this] show ?thesis by force
    next
      case 2
      from payload_stores_offsets [OF this] obtain j where
        "ad = ?q mod c + 16 + j" "j + length d \<le> length bs" "d \<noteq> []" by blast
      then show ?thesis by (intro exI [of _ "16 + j"]) (simp add: n_def)
    qed
  qed simp
  ultimately show ?thesis by simp
qed

section \<open>Frame\<close>

text \<open>A store into a later or an earlier part of one turn of the ring leaves the rest alone.\<close>

lemma agree_write_after:
  assumes "p + length bs \<le> a" "b \<le> p + length m" "p mod length m + length bs \<le> length m" "0 < length m"
  shows "agree m (mem_write m (p mod length m) bs) a b"
  unfolding agree_def
proof (intro conjI allI impI)
  show "length (mem_write m (p mod length m) bs) = length m" using assms by simp
  fix k assume k: "a \<le> k" "k < b"
  have "\<not> (p mod length m \<le> k mod length m \<and> k mod length m < p mod length m + length bs)"
  proof
    assume r: "p mod length m \<le> k mod length m \<and> k mod length m < p mod length m + length bs"
    define i where "i = k mod length m - p mod length m"
    have i: "i < length bs" using r by (auto simp: i_def)
    then have "(p + i) mod length m = p mod length m + i"
      using assms(3) by (intro mod_add_in_block) linarith
    also have "\<dots> = k mod length m" using r by (simp add: i_def)
    finally have "p + i = k"
      by (rule mod_window_inj) (use k assms i in linarith)+
    with k assms(1) i show False by linarith
  qed
  then show "mem_write m (p mod length m) bs ! (k mod length m) = m ! (k mod length m)"
    using assms by (subst nth_mem_write) auto
qed

lemma agree_same_store:
  assumes "agree m m' a b" "ad + length bs \<le> length m" "0 < length m"
  shows "agree (mem_write m ad bs) (mem_write m' ad bs) a b"
proof -
  have l: "length m' = length m" using assms(1) by (simp add: agree_def)
  have "mem_write m' ad bs ! (k mod length m) = mem_write m ad bs ! (k mod length m)"
    if "a \<le> k" "k < b" for k
    using that assms l by (simp add: nth_mem_write agree_def)
  with assms(2) l show ?thesis by (simp add: agree_def)
qed

lemma stores_in_agree:
  assumes "stores_in (length m) x y ss" "agree m m' a b" "0 < length m"
  shows "agree (apply_stores ss m) (apply_stores ss m') a b"
  using assms
proof (induction ss arbitrary: m m')
  case (Cons s ss)
  from Cons.prems(1) obtain p where
    p: "fst s = p mod length m" "p mod length m + length (snd s) \<le> length m" "stores_in (length m) x y ss"
    by (rule stores_in_ConsE)
  have "agree (mem_write m (fst s) (snd s)) (mem_write m' (fst s) (snd s)) a b"
    using Cons.prems(2,3) p(1,2) by (intro agree_same_store) simp_all
  moreover have "length (mem_write m (fst s) (snd s)) = length m" using p(1,2) by simp
  ultimately show ?case using Cons.IH [of "mem_write m (fst s) (snd s)"] p(3) Cons.prems(3) by simp
qed simp

lemma length_apply_stores: "stores_in (length m) x y ss \<Longrightarrow> length (apply_stores ss m) = length m"
proof (induction ss arbitrary: m)
  case (Cons s ss)
  from Cons.prems obtain p where
    "fst s = p mod length m" "p mod length m + length (snd s) \<le> length m" "stores_in (length m) x y ss"
    by (rule stores_in_ConsE)
  with Cons.IH [of "mem_write m (fst s) (snd s)"] show ?case by simp
qed simp

section \<open>A record that has been written\<close>

text \<open>
  From position \<open>t\<close> on the memory is as a push of \<open>x\<close> leaves it, whatever the rest holds.
\<close>

definition written :: "memory \<Rightarrow> nat \<Rightarrow> message \<Rightarrow> bool" where
  "written m t x \<longleftrightarrow> (\<exists>m0. length m0 = length m \<and>
     agree (pushed_memory m0 t x) m t (t + push_len (length m) t (length (payload x))))"

definition fits_ring :: "nat \<Rightarrow> nat \<Rightarrow> byte list \<Rightarrow> bool" where
  "fits_ring c t bs \<longleftrightarrow> 0 < c \<and> call_ok c bs \<and> push_len c t (length bs) \<le> c"

lemma length_pushed_memory:
  assumes "fits_ring (length m) t (payload x)"
  shows "length (pushed_memory m t x) = length m"
  by (rule pushed_memory_seg(1) [where h = t and ms = "[]", OF seg_nil])
    (use assms in \<open>simp_all add: fits_ring_def call_ok_def\<close>)

lemma written_agree:
  assumes "written m t x" "agree m m' t (t + push_len (length m) t (length (payload x)))"
    and "fits_ring (length m) t (payload x)"
  shows "written m' t x"
proof -
  obtain m0 where m0: "length m0 = length m"
    "agree (pushed_memory m0 t x) m t (t + push_len (length m) t (length (payload x)))"
    using assms(1) by (auto simp: written_def)
  have "length m' = length m" using assms(2) by (simp add: agree_def)
  with m0 agree_trans [OF m0(2) assms(2)] show ?thesis by (auto simp: written_def)
qed

lemma written_seg:
  assumes "written m t x" "fits_ring (length m) t (payload x)"
  shows "ring_seg m t (t + push_len (length m) t (length (payload x))) [x]"
proof -
  obtain m0 where m0: "length m0 = length m"
    "agree (pushed_memory m0 t x) m t (t + push_len (length m) t (length (payload x)))"
    using assms(1) by (auto simp: written_def)
  have "ring_seg (pushed_memory m0 t x) t (t + push_len (length m0) t (length (payload x))) ([] @ [x])"
    by (rule pushed_memory_seg(2) [OF seg_nil]) (use assms(2) m0(1) in \<open>simp_all add: fits_ring_def call_ok_def\<close>)
  moreover have "0 < length (pushed_memory m0 t x)"
    using length_pushed_memory [of m0 t x] assms(2) m0(1) by (simp add: fits_ring_def)
  ultimately show ?thesis using seg_agree m0 by (metis append_Nil)
qed

lemma written_number:
  assumes "written m t x" "fits_ring (length m) t (payload x)" "length m < 2 ^ 63"
  defines "q \<equiv> (t + pad_len (length m) t (length (payload x))) mod length m"
  shows "\<exists>m'. store_rh_sequence m (of_nat q) s = Inr m' \<and> m' = mem_write m (q + 8) (enc64 s) \<and>
    q + 16 \<le> length m \<and> written m' t (x\<lparr>msg_sequence := s\<rparr>)"
proof -
  obtain m0 where m0: "length m0 = length m"
    "agree (pushed_memory m0 t x) m t (t + push_len (length m) t (length (payload x)))"
    using assms(1) by (auto simp: written_def)
  have F: "0 < length m" "call_ok (length m) (payload x)" using assms(2) by (simp_all add: fits_ring_def)
  have place: "q + 16 \<le> length m"
    using pushed_place [OF F(1), of "length (payload x)" t] rec_len_ge [of "length (payload x)"]
      add_le_room [OF F(1)] F(2) unfolding q_def call_ok_def by (metis dual_order.trans)
  have lp: "length (pushed_memory m0 t x) = length m"
    using length_pushed_memory [of m0 t x] assms(2) m0(1) by simp
  have q: "unat (of_nat q :: u64) = q" using place assms(3) by (intro unat_of_nat_small) simp
  have st: "store_rh_sequence k (of_nat q) s = Inr (mem_write k (q + 8) (enc64 s))" if "length k = length m" for k
    using that place by (simp add: store_rh_sequence_def store_u64_def q store_bytes_ok)
  have "store_rh_sequence (pushed_memory m0 t x) (of_nat q) s = Inr (pushed_memory m0 t (x\<lparr>msg_sequence := s\<rparr>))"
    using store_sequence_pushed [of m0 x t s] F assms(3) m0(1) by (simp add: q_def call_ok_def)
  then have "pushed_memory m0 t (x\<lparr>msg_sequence := s\<rparr>) = mem_write (pushed_memory m0 t x) (q + 8) (enc64 s)"
    using st [OF lp] by simp
  moreover have "agree (mem_write (pushed_memory m0 t x) (q + 8) (enc64 s)) (mem_write m (q + 8) (enc64 s)) t
      (t + push_len (length m) t (length (payload x)))"
    by (rule agree_same_store [OF m0(2)]) (use place lp F(1) in simp_all)
  ultimately have "written (mem_write m (q + 8) (enc64 s)) t (x\<lparr>msg_sequence := s\<rparr>)"
    unfolding written_def using place m0(1) by (intro exI [of _ m0]) simp
  with st [of m] place show ?thesis by simp
qed

section \<open>Planning a reservation\<close>

lemma reserve_plan_eq:
  fixes head tail :: u64
  assumes c: "0 < c" "c < 2 ^ 63" "cap = of_nat c" and bs: "call_ok c bs" and le: "unat head \<le> unat tail"
  defines "t \<equiv> unat tail" and "n \<equiv> length bs"
  shows "reserve_plan (record_size (call_size bs)) cap head tail =
    Inr (if t - unat head + push_len c t n \<le> c then Some (of_nat (pad_len c t n), needs_wrap c t n) else None)"
proof (cases "t - unat head \<le> c")
  case True
  let ?st = "\<lparr>control = \<lparr>head_reserve = 0, head_publish = head, tail_reserve = tail, tail_publish = 0,
    sequence = 0\<rparr>, ring = replicate c 0, capacity = cap\<rparr>"
  have w: "unat (call_size bs) = n" using unat_call_size [OF bs] by (simp add: n_def)
  have geo: "ring_geometry ?st (unat head) t"
    using c le True unat_lt_pow [of tail] by (simp add: ring_geometry_def t_def counter_ok_def)
  have "rec_len (unat (call_size bs)) \<le> length (ring ?st)" using bs w by (simp add: call_ok_def n_def)
  note E = reserve_body_inv [OF geo this, of 0, unfolded reserve_body_plan]
  show ?thesis
  proof (cases "push_fits ?st (unat head) t n")
    case True
    then show ?thesis
      using E bs by (cases "reserve_plan (record_size (call_size bs)) cap head tail")
        (auto simp: w push_fits_def call_ok_def n_def needs_wrap_def split: option.splits)
  next
    case False
    then show ?thesis
      using E bs by (cases "reserve_plan (record_size (call_size bs)) cap head tail")
        (auto simp: w push_fits_def call_ok_def n_def split: option.splits)
  qed
next
  case False
  have "tail - head = of_nat (t - unat head)" using le by (simp add: t_def of_nat_diff)
  moreover have "c < 2 ^ 64" "t - unat head < 2 ^ 64" using c(2) unat_lt_pow [of tail] by (simp_all add: t_def)
  then have "cap < of_nat (t - unat head)"
    using of_nat_less_word(1) [of c "t - unat head"] False c(3) by simp
  ultimately show ?thesis using False by (simp add: reserve_plan_def Let_def)
qed

end
