(* ===== verification/MPSC_Concurrent.thy ===== *)
theory MPSC_Concurrent
  imports MPSC_Stores
begin

text \<open>
  Any number of producers and one consumer on one ring, access by access: the invariant of the
  system and what follows from it. The consumer reads exactly the published messages, in order and
  whole; no access faults; and whoever waits, waits for a producer that is on its way.
\<close>

unbundle bit_operations_syntax

section \<open>The invariant\<close>

abbreviation hpos :: "ring_state \<Rightarrow> nat" where "hpos st \<equiv> unat (head_publish (control st))"
abbreviation tpos :: "ring_state \<Rightarrow> nat" where "tpos st \<equiv> unat (tail_publish (control st))"
abbreviation rpos :: "ring_state \<Rightarrow> nat" where "rpos st \<equiv> unat (tail_reserve (control st))"

fun ticket_of :: "producer \<Rightarrow> ticket option" where
  "ticket_of (PStore tk _) = Some tk"
| "ticket_of (PSpin tk) = Some tk"
| "ticket_of (PCount tk) = Some tk"
| "ticket_of (PNumber tk _) = Some tk"
| "ticket_of (PPublish tk _) = Some tk"
| "ticket_of _ = None"

fun numbering :: "producer \<Rightarrow> bool" where
  "numbering (PNumber _ _) = True"
| "numbering (PPublish _ _) = True"
| "numbering _ = False"

definition t_start :: "ticket \<Rightarrow> nat" where
  "t_start tk = unat (tk_start tk)"

definition t_end :: "nat \<Rightarrow> ticket \<Rightarrow> nat" where
  "t_end c tk = t_start tk + push_len c (t_start tk) (length (tk_bytes tk))"

definition tk_msg :: "ticket \<Rightarrow> u64 \<Rightarrow> message" where
  "tk_msg tk s = \<lparr>payload = tk_bytes tk, msg_type = tk_type tk, msg_sequence = s\<rparr>"

definition ticket_ok :: "nat \<Rightarrow> nat \<Rightarrow> nat \<Rightarrow> ticket \<Rightarrow> bool" where
  "ticket_ok c T R tk \<longleftrightarrow>
     fits_ring c (t_start tk) (tk_bytes tk) \<and>
     tk_padding tk = of_nat (pad_len c (t_start tk) (length (tk_bytes tk))) \<and>
     tk_pos tk = of_nat ((t_start tk + pad_len c (t_start tk) (length (tk_bytes tk))) mod c) \<and>
     T \<le> t_start tk \<and> t_end c tk \<le> R"

text \<open>
  What holds at each place of a producer, given the memory \<open>m\<close>, the positions \<open>H\<close>, \<open>T\<close>, \<open>R\<close> of
  \<open>head_publish\<close>, \<open>tail_publish\<close> and \<open>tail_reserve\<close>, and the sequence counter \<open>q\<close>. What it loaded of
  the head may be old.
\<close>

fun prod_ok :: "memory \<Rightarrow> nat \<Rightarrow> nat \<Rightarrow> nat \<Rightarrow> u64 \<Rightarrow> producer \<Rightarrow> bool" where
  "prod_ok m H T R q (PLoadHead bs ty) = call_ok (length m) bs"
| "prod_ok m H T R q (PLoadTail bs ty head) = (call_ok (length m) bs \<and> unat head \<le> H)"
| "prod_ok m H T R q (PReserve bs ty tail padding w) =
     (call_ok (length m) bs \<and> padding = of_nat (pad_len (length m) (unat tail) (length bs)) \<and>
      w = needs_wrap (length m) (unat tail) (length bs) \<and>
      (\<exists>h \<le> H. h \<le> unat tail \<and> unat tail - h + push_len (length m) (unat tail) (length bs) \<le> length m))"
| "prod_ok m H T R q (PStore tk ss) =
     (ticket_ok (length m) T R tk \<and> stores_in (length m) (t_start tk) (t_end (length m) tk) ss \<and>
      written (apply_stores ss m) (t_start tk) (tk_msg tk 0))"
| "prod_ok m H T R q (PSpin tk) =
     (ticket_ok (length m) T R tk \<and> written m (t_start tk) (tk_msg tk 0))"
| "prod_ok m H T R q (PCount tk) =
     (ticket_ok (length m) T R tk \<and> written m (t_start tk) (tk_msg tk 0) \<and> t_start tk = T)"
| "prod_ok m H T R q (PNumber tk s) =
     (ticket_ok (length m) T R tk \<and> written m (t_start tk) (tk_msg tk 0) \<and> t_start tk = T \<and> s = q)"
| "prod_ok m H T R q (PPublish tk s) =
     (ticket_ok (length m) T R tk \<and> written m (t_start tk) (tk_msg tk s) \<and> t_start tk = T \<and> s = q)"
| "prod_ok m H T R q _ = True"

text \<open>What the consumer has found at the head: padding to skip, or a whole record.\<close>

definition skip_ready :: "memory \<Rightarrow> nat \<Rightarrow> nat \<Rightarrow> bool" where
  "skip_ready m H T \<longleftrightarrow> H + room (length m) H \<le> T \<and>
     (room (length m) H < 16 \<or> 16 \<le> room (length m) H \<and> wrap_at m (H mod length m))"

definition rec_ready :: "memory \<Rightarrow> nat \<Rightarrow> nat \<Rightarrow> message \<Rightarrow> bool" where
  "rec_ready m H T x \<longleftrightarrow> rec_at m (H mod length m) x \<and>
     rec_len (length (payload x)) \<le> room (length m) H \<and> H + rec_len (length (payload x)) \<le> T"

definition seen_tail :: "memory \<Rightarrow> nat \<Rightarrow> nat \<Rightarrow> u64 \<Rightarrow> bool" where
  "seen_tail m H T tail \<longleftrightarrow> unat tail \<le> T \<and> (\<exists>ms. ring_seg m H (unat tail) ms)"

fun cons_ok :: "memory \<Rightarrow> nat \<Rightarrow> nat \<Rightarrow> consumer \<Rightarrow> bool" where
  "cons_ok m H T (CLoadHead tail) = seen_tail m H T tail"
| "cons_ok m H T (CFlags tail head) =
     (unat head = H \<and> seen_tail m H T tail \<and> H \<noteq> unat tail \<and> 16 \<le> room (length m) H)"
| "cons_ok m H T (CSize tail head) =
     (unat head = H \<and> seen_tail m H T tail \<and> H \<noteq> unat tail \<and> 16 \<le> room (length m) H \<and>
      \<not> wrap_at m (H mod length m))"
| "cons_ok m H T (CCopy head sz bs) =
     (unat head = H \<and> (\<exists>x. rec_ready m H T x \<and> unat sz = length (payload x) \<and>
        length bs \<le> length (payload x) \<and> bs = take (length bs) (payload x)))"
| "cons_ok m H T (CType head sz bs) =
     (unat head = H \<and> (\<exists>x. rec_ready m H T x \<and> unat sz = length (payload x) \<and> bs = payload x))"
| "cons_ok m H T (CSequence head sz bs ty) =
     (unat head = H \<and> (\<exists>x. rec_ready m H T x \<and> unat sz = length (payload x) \<and> bs = payload x \<and> ty = msg_type x))"
| "cons_ok m H T (CStoreHead head None) = (skip_ready m H T \<and> unat head = H + room (length m) H)"
| "cons_ok m H T (CStoreHead head (Some x)) =
     (rec_ready m H T x \<and> unat head = H + rec_len (length (payload x)))"
| "cons_ok m H T _ = True"

definition geometry_ok :: "nat \<Rightarrow> ring_state \<Rightarrow> bool" where
  "geometry_ok c st \<longleftrightarrow> length (ring st) = c \<and> 0 < c \<and> c < 2 ^ 63 \<and> capacity st = of_nat c \<and>
     hpos st \<le> tpos st \<and> tpos st \<le> rpos st \<and> rpos st \<le> hpos st + c"

text \<open>The reservations do not overlap, and they cover all that is reserved and not yet published.\<close>

definition tickets_ok :: "nat \<Rightarrow> nat \<Rightarrow> nat \<Rightarrow> (nat \<Rightarrow> producer) \<Rightarrow> bool" where
  "tickets_ok c T R P \<longleftrightarrow>
     (\<forall>i j a b. i \<noteq> j \<longrightarrow> ticket_of (P i) = Some a \<longrightarrow> ticket_of (P j) = Some b \<longrightarrow>
        t_end c a \<le> t_start b \<or> t_end c b \<le> t_start a) \<and>
     (\<forall>k. T \<le> k \<longrightarrow> k < R \<longrightarrow> (\<exists>i a. ticket_of (P i) = Some a \<and> t_start a \<le> k \<and> k < t_end c a))"

definition numbers_ok :: "u64 \<Rightarrow> message list \<Rightarrow> (nat \<Rightarrow> producer) \<Rightarrow> bool" where
  "numbers_ok q ms P \<longleftrightarrow>
     q = of_nat (length ms + (if \<exists>i. numbering (P i) then 1 else 0)) \<and>
     (\<forall>k < length ms. msg_sequence (ms ! k) = of_nat (k + 1))"

definition mpsc_inv :: "nat \<Rightarrow> mpsc_sys \<Rightarrow> bool" where
  "mpsc_inv c s \<longleftrightarrow>
     (let st = mem s; m = ring st; H = hpos st; T = tpos st; R = rpos st; q = sequence (control st)
      in geometry_ok c st \<and> (\<exists>ms. ring_seg m H T ms \<and> published s = popped s @ ms) \<and>
         cons_ok m H T (cons s) \<and> (\<forall>i. prod_ok m H T R q (prods s i)) \<and>
         tickets_ok c T R (prods s) \<and> numbers_ok q (published s) (prods s))"

section \<open>Frame lemmas\<close>

lemma prod_ok_ticket: "prod_ok m H T R q p \<Longrightarrow> ticket_of p = Some tk \<Longrightarrow> ticket_ok (length m) T R tk"
  by (cases p) auto

lemma t_start_less: "t_start tk < t_end c tk"
  unfolding t_end_def push_len_def using rec_len_ge [of "length (tk_bytes tk)"] by linarith

lemma prod_ok_frame:
  assumes ok: "prod_ok m H T R q p" and "H \<le> H'" "R \<le> R'" "length m' = length m" "0 < length m"
    and tk: "\<And>tk. ticket_of p = Some tk \<Longrightarrow> T' \<le> t_start tk \<and>
      agree m m' (t_start tk) (t_end (length m) tk) \<and> (t_start tk = T \<longrightarrow> T' = T \<and> q' = q)"
  shows "prod_ok m' H' T' R' q' p"
proof -
  have keep: "ticket_ok (length m) T' R' tk \<and> (written m (t_start tk) (tk_msg tk s) \<longrightarrow> written m' (t_start tk) (tk_msg tk s))"
    if "ticket_of p = Some tk" for tk s
  proof -
    note K = prod_ok_ticket [OF ok that]
    have "written m' (t_start tk) (tk_msg tk s)" if "written m (t_start tk) (tk_msg tk s)"
      using that tk [OF \<open>ticket_of p = Some tk\<close>] K
      by (intro written_agree [OF that]) (simp_all add: tk_msg_def t_end_def ticket_ok_def)
    then show ?thesis using K tk [OF that] \<open>R \<le> R'\<close> by (auto simp: ticket_ok_def)
  qed
  show ?thesis
  proof (cases p)
    case (PStore tk ss)
    then have in': "stores_in (length m) (t_start tk) (t_end (length m) tk) ss"
      and w: "written (apply_stores ss m) (t_start tk) (tk_msg tk 0)" using ok by auto
    have "written (apply_stores ss m') (t_start tk) (tk_msg tk 0)"
    proof (rule written_agree [OF w])
      show "agree (apply_stores ss m) (apply_stores ss m') (t_start tk) (t_start tk +
          push_len (length (apply_stores ss m)) (t_start tk) (length (payload (tk_msg tk 0))))"
        using stores_in_agree [OF in' _ \<open>0 < length m\<close>, of m'] tk [of tk] PStore length_apply_stores [OF in']
        by (simp add: t_end_def tk_msg_def)
      show "fits_ring (length (apply_stores ss m)) (t_start tk) (payload (tk_msg tk 0))"
        using prod_ok_ticket [OF ok, of tk] PStore length_apply_stores [OF in']
        by (simp add: ticket_ok_def tk_msg_def)
    qed
    then show ?thesis using PStore keep [of tk] in' assms(4) by simp
  next
    case (PReserve bs ty tail padding w)
    with ok assms(2,4) show ?thesis by (auto intro: le_trans)
  qed (use ok keep tk assms in auto)
qed

lemma rec_ready_frame:
  assumes "rec_ready m H T x" "agree m m' H T" "T \<le> T'" "0 < length m"
  shows "rec_ready m' H T' x"
proof -
  let ?n = "length (payload x)"
  have l: "length m' = length m" using assms(2) by (simp add: agree_def)
  have b: "H + 16 + ?n \<le> T" "H mod length m + 16 + ?n \<le> length m" "16 \<le> room (length m) H"
    using assms(1,4) rec_len_bounds(1) [of ?n] add_le_room [of "length m" "rec_len ?n" H] rec_len_ge [of ?n]
    unfolding rec_ready_def by linarith+
  have "header_at m' (H mod length m) = header_at m (H mod length m)"
    using assms(2,4) b by (intro agree_header [of m m' H T]) auto
  moreover have "mem_read m' (H mod length m + 16) ?n = mem_read m (H mod length m + 16) ?n"
    using assms(2,4) b by (intro agree_read [of m m' H T]) auto
  ultimately show ?thesis using assms(1,3) l by (auto simp: rec_ready_def rec_at_def wrap_at_def)
qed

lemma wrap_at_frame:
  assumes "agree m m' H T" "H + 16 \<le> T" "16 \<le> room (length m) H" "0 < length m"
  shows "wrap_at m' (H mod length m) = wrap_at m (H mod length m)"
  using agree_header [OF assms(1,4), of H] assms(2,3) by (simp add: wrap_at_def)

lemma skip_ready_frame:
  assumes "skip_ready m H T" "agree m m' H T" "T \<le> T'" "0 < length m"
  shows "skip_ready m' H T'"
proof -
  have l: "length m' = length m" using assms(2) by (simp add: agree_def)
  show ?thesis
    using assms(1,3) wrap_at_frame [OF assms(2) _ _ assms(4)] l by (auto simp: skip_ready_def)
qed

lemma seen_tail_frame:
  assumes "seen_tail m H T tail" "agree m m' H T" "T \<le> T'" "0 < length m"
  shows "seen_tail m' H T' tail"
  using assms seg_agree [OF _ agree_sub [OF assms(2)] assms(4)]
  by (auto simp: seen_tail_def)

lemma seen_tail_room:
  assumes "seen_tail m H T tail" "H \<noteq> unat tail" "16 \<le> room (length m) H"
  shows "H + 16 \<le> T"
proof -
  obtain ms where s: "ring_seg m H (unat tail) ms" "unat tail \<le> T" using assms(1) by (auto simp: seen_tail_def)
  show ?thesis
  proof (cases "wrap_at m (H mod length m)")
    case True
    from seg_le [OF seg_wrap_next [OF s(1) assms(2,3) True]] s(2) assms(3) show ?thesis by linarith
  next
    case False
    obtain x xs where x: "ms = x # xs" "rec_len (length (payload x)) \<le> room (length m) H"
      "rec_at m (H mod length m) x" "ring_seg m (H + rec_len (length (payload x))) (unat tail) xs"
      by (rule seg_rec_next [OF s(1) assms(2,3) False])
    from seg_le [OF x(4)] s(2) rec_len_ge [of "length (payload x)"] show ?thesis by linarith
  qed
qed

lemma cons_ok_frame:
  assumes ok: "cons_ok m H T p" and ag: "agree m m' H T" "T \<le> T'" "0 < length m"
  shows "cons_ok m' H T' p"
proof -
  have l: "length m' = length m" using ag(1) by (simp add: agree_def)
  note F = rec_ready_frame [OF _ ag] skip_ready_frame [OF _ ag] seen_tail_frame [OF _ ag]
  show ?thesis
  proof (cases p)
    case (CSize tail head)
    with ok have "H + 16 \<le> T" using seen_tail_room by auto
    with CSize ok l F(3) wrap_at_frame [OF ag(1) _ _ ag(3)] show ?thesis by simp
  next
    case (CStoreHead head r)
    with ok l F show ?thesis by (cases r) auto
  qed (use ok l F in auto)
qed

lemma rec_at_unique: "rec_at m p x \<Longrightarrow> rec_at m p y \<Longrightarrow> x = y"
  by (cases x; cases y) (auto simp: rec_at_def)

lemma rec_ready_first:
  assumes "rec_ready m H T x" "ring_seg m H T ms"
  shows "\<exists>xs. ms = x # xs \<and> ring_seg m (H + rec_len (length (payload x))) T xs"
proof -
  have n: "H \<noteq> T" "16 \<le> room (length m) H" "\<not> wrap_at m (H mod length m)"
    using assms(1) rec_len_ge [of "length (payload x)"] unfolding rec_ready_def rec_at_def by linarith+
  obtain y ys where y: "ms = y # ys" "rec_len (length (payload y)) \<le> room (length m) H"
    "rec_at m (H mod length m) y" "ring_seg m (H + rec_len (length (payload y))) T ys"
    by (rule seg_rec_next [OF assms(2) n])
  have "y = x" using rec_at_unique [OF y(3), of x] assms(1) by (simp add: rec_ready_def)
  with y show ?thesis by blast
qed

lemma skip_ready_next:
  assumes "skip_ready m H T" "ring_seg m H T ms" "0 < length m"
  shows "ring_seg m (H + room (length m) H) T ms"
proof -
  have "H \<noteq> T" using assms(1) room_pos [OF assms(3), of H] by (auto simp: skip_ready_def)
  then show ?thesis
    using assms seg_short_next [OF assms(2)] seg_wrap_next [OF assms(2)] by (auto simp: skip_ready_def)
qed

section \<open>Steps of a producer\<close>

lemma mpsc_invD:
  assumes "mpsc_inv c s"
  shows "geometry_ok c (mem s)"
    and "\<exists>ms. ring_seg (ring (mem s)) (hpos (mem s)) (tpos (mem s)) ms \<and> published s = popped s @ ms"
    and "cons_ok (ring (mem s)) (hpos (mem s)) (tpos (mem s)) (cons s)"
    and "prod_ok (ring (mem s)) (hpos (mem s)) (tpos (mem s)) (rpos (mem s)) (sequence (control (mem s))) (prods s i)"
    and "tickets_ok c (tpos (mem s)) (rpos (mem s)) (prods s)"
    and "numbers_ok (sequence (control (mem s))) (published s) (prods s)"
  using assms by (simp_all add: mpsc_inv_def Let_def)

lemma geometry_okD:
  assumes "geometry_ok c st"
  shows "length (ring st) = c" "0 < c" "c < 2 ^ 63" "capacity st = of_nat c"
    "hpos st \<le> tpos st" "tpos st \<le> rpos st" "rpos st \<le> hpos st + c"
  using assms by (simp_all add: geometry_ok_def)

text \<open>A producer moves on without touching memory and without a change of its reservation.\<close>

lemma tickets_ok_update:
  assumes "tickets_ok c T R P" "ticket_of p = ticket_of (P i)"
  shows "tickets_ok c T R (P(i := p))"
proof -
  have "ticket_of ((P(i := p)) j) = ticket_of (P j)" for j using assms(2) by simp
  with assms(1) show ?thesis by (simp only: tickets_ok_def)
qed

lemma tickets_ok_add:
  assumes ok: "tickets_ok c T R P" and i: "ticket_of (P i) = None"
    and a: "ticket_of p = Some a" "t_start a = R" "t_end c a = R'"
    and le: "\<And>j b. ticket_of (P j) = Some b \<Longrightarrow> t_end c b \<le> R"
  shows "tickets_ok c T R' (P(i := p))"
  unfolding tickets_ok_def
proof (intro conjI allI impI)
  fix j k x y assume "j \<noteq> k" "ticket_of ((P(i := p)) j) = Some x" "ticket_of ((P(i := p)) k) = Some y"
  then show "t_end c x \<le> t_start y \<or> t_end c y \<le> t_start x"
    using ok a le unfolding tickets_ok_def by (auto split: if_splits)
next
  fix k assume k: "T \<le> k" "k < R'"
  show "\<exists>j x. ticket_of ((P(i := p)) j) = Some x \<and> t_start x \<le> k \<and> k < t_end c x"
  proof (cases "k < R")
    case True
    with ok k obtain j x where "ticket_of (P j) = Some x" "t_start x \<le> k" "k < t_end c x"
      unfolding tickets_ok_def by blast
    moreover from this i have "j \<noteq> i" by auto
    ultimately show ?thesis by (intro exI [of _ j] exI [of _ x]) simp
  next
    case False
    with a k show ?thesis by (intro exI [of _ i] exI [of _ a]) simp
  qed
qed

lemma tickets_ok_remove:
  assumes ok: "tickets_ok c T R P" and a: "ticket_of (P i) = Some a" "T \<le> t_end c a" and p: "ticket_of p = None"
  shows "tickets_ok c (t_end c a) R (P(i := p))"
  unfolding tickets_ok_def
proof (intro conjI allI impI)
  fix j k x y assume "j \<noteq> k" "ticket_of ((P(i := p)) j) = Some x" "ticket_of ((P(i := p)) k) = Some y"
  then show "t_end c x \<le> t_start y \<or> t_end c y \<le> t_start x"
    using ok p unfolding tickets_ok_def by (auto split: if_splits)
next
  fix k assume k: "t_end c a \<le> k" "k < R"
  then obtain j x where x: "ticket_of (P j) = Some x" "t_start x \<le> k" "k < t_end c x"
    using ok a(2) unfolding tickets_ok_def by (meson le_trans)
  moreover have "j \<noteq> i" using x k a(1) by auto
  ultimately show "\<exists>j x. ticket_of ((P(i := p)) j) = Some x \<and> t_start x \<le> k \<and> k < t_end c x"
    by (intro exI [of _ j] exI [of _ x]) simp
qed

lemma numbers_ok_update:
  assumes "numbers_ok q ms P" "numbering p = numbering (P i)"
  shows "numbers_ok q ms (P(i := p))"
proof -
  have "numbering ((P(i := p)) j) = numbering (P j)" for j using assms(2) by simp
  then have e: "(\<exists>j. numbering ((P(i := p)) j)) = (\<exists>j. numbering (P j))" by (simp only:)
  show ?thesis using assms(1) unfolding numbers_ok_def e .
qed

lemma inv_local:
  assumes inv: "mpsc_inv c s" and p: "ticket_of p = ticket_of (prods s i)" "numbering p = numbering (prods s i)"
    and ok: "prod_ok (ring (mem s)) (hpos (mem s)) (tpos (mem s)) (rpos (mem s)) (sequence (control (mem s))) p"
  shows "mpsc_inv c (s\<lparr>prods := (prods s)(i := p)\<rparr>)"
  using mpsc_invD [OF inv] ok tickets_ok_update [OF mpsc_invD(5) [OF inv] p(1)]
    numbers_ok_update [OF mpsc_invD(6) [OF inv] p(2)]
  by (simp add: mpsc_inv_def)

text \<open>The reservations of the others: apart from one's own, and all behind the one at the tail.\<close>

lemma other_ticket:
  assumes "mpsc_inv c s" "ticket_of (prods s i) = Some a" "ticket_of (prods s j) = Some b" "i \<noteq> j"
  shows "t_end c a \<le> t_start b \<or> t_end c b \<le> t_start a"
  using mpsc_invD(5) [OF assms(1)] assms(2-4) unfolding tickets_ok_def by blast

lemma ticket_bounds:
  assumes "mpsc_inv c s" "ticket_of (prods s i) = Some a"
  shows "fits_ring c (t_start a) (tk_bytes a)" "tpos (mem s) \<le> t_start a" "t_end c a \<le> rpos (mem s)"
    "ticket_ok c (tpos (mem s)) (rpos (mem s)) a"
  using prod_ok_ticket [OF mpsc_invD(4) [OF assms(1)] assms(2)] geometry_okD(1) [OF mpsc_invD(1) [OF assms(1)]]
  by (simp_all add: ticket_ok_def)

lemma later_ticket:
  assumes inv: "mpsc_inv c s" and i: "ticket_of (prods s i) = Some a" "t_start a = tpos (mem s)"
    and j: "ticket_of (prods s j) = Some b" "i \<noteq> j"
  shows "t_end c a \<le> t_start b"
  using other_ticket [OF inv i(1) j] ticket_bounds(2) [OF inv j(1)] i(2) t_start_less [of b c] by linarith

text \<open>A store into one's own reservation disturbs neither the window nor the other reservations.\<close>

lemma own_store_agree:
  assumes inv: "mpsc_inv c s" and i: "ticket_of (prods s i) = Some a"
    and p: "t_start a \<le> p" "p + length bs \<le> t_end c a" "p mod c + length bs \<le> c"
    and w: "hpos (mem s) \<le> x" "y \<le> hpos (mem s) + c" "t_end c a \<le> x \<or> y \<le> t_start a"
  shows "agree (ring (mem s)) (mem_write (ring (mem s)) (p mod c) bs) x y"
proof -
  note G = geometry_okD [OF mpsc_invD(1) [OF inv]]
  note B = ticket_bounds(2,3) [OF inv i]
  show ?thesis
  proof (cases "y \<le> t_start a")
    case True
    show ?thesis unfolding G(1) [symmetric]
      by (rule agree_write; (unfold G(1))?; use True p w G B in linarith)
  next
    case False
    show ?thesis unfolding G(1) [symmetric]
      by (rule agree_write_after; (unfold G(1))?; use False p w G B in linarith)
  qed
qed

lemma own_store_inv:
  assumes inv: "mpsc_inv c s" and i: "ticket_of (prods s i) = Some a"
    and p: "t_start a \<le> p" "p + length bs \<le> t_end c a" "p mod c + length bs \<le> c"
    and new: "ticket_of p' = Some a" "numbering p' = numbering (prods s i)"
  defines "m' \<equiv> mem_write (ring (mem s)) (p mod c) bs"
  assumes ok: "prod_ok m' (hpos (mem s)) (tpos (mem s)) (rpos (mem s)) (sequence (control (mem s))) p'"
  shows "mpsc_inv c (s\<lparr>mem := (mem s)\<lparr>ring := m'\<rparr>, prods := (prods s)(i := p')\<rparr>)"
proof -
  let ?H = "hpos (mem s)" and ?T = "tpos (mem s)" and ?R = "rpos (mem s)" and ?m = "ring (mem s)"
  let ?q = "sequence (control (mem s))"
  note G = geometry_okD [OF mpsc_invD(1) [OF inv]]
  note B = ticket_bounds(2,3) [OF inv i]
  have len: "length m' = length ?m" using p(3) G(1) by (simp add: m'_def)
  have win: "agree ?m m' ?H ?T"
    unfolding m'_def by (rule own_store_agree [OF inv i p]) (use G B in linarith)+
  have "prod_ok m' ?H ?T ?R ?q (((prods s)(i := p')) j)" for j
  proof (cases "j = i")
    case False
    have "prod_ok m' ?H ?T ?R ?q (prods s j)"
    proof (rule prod_ok_frame [OF mpsc_invD(4) [OF inv]])
      fix b assume b: "ticket_of (prods s j) = Some b"
      have "agree ?m m' (t_start b) (t_end c b)"
        unfolding m'_def
        by (rule own_store_agree [OF inv i p])
          (use G ticket_bounds(2,3) [OF inv b] other_ticket [OF inv i b] False in linarith)+
      then show "?T \<le> t_start b \<and> agree ?m m' (t_start b) (t_end (length ?m) b) \<and>
          (t_start b = ?T \<longrightarrow> ?T = ?T \<and> ?q = ?q)"
        using ticket_bounds(2) [OF inv b] G(1) by simp
    qed (use len G in auto)
    with False show ?thesis by simp
  qed (use ok in simp)
  moreover obtain ms where "ring_seg ?m ?H ?T ms" "published s = popped s @ ms"
    using mpsc_invD(2) [OF inv] by blast
  then have "\<exists>ms. ring_seg m' ?H ?T ms \<and> published s = popped s @ ms"
    using seg_agree [OF _ win] G by blast
  moreover have "cons_ok m' ?H ?T (cons s)"
    using cons_ok_frame [OF mpsc_invD(3) [OF inv] win order_refl] G by simp
  ultimately show ?thesis
    using mpsc_invD(1) [OF inv] tickets_ok_update [OF mpsc_invD(5) [OF inv], of p' i]
      numbers_ok_update [OF mpsc_invD(6) [OF inv] new(2)] new(1) i len
    by (simp add: mpsc_inv_def geometry_ok_def)
qed

text \<open>Frame of the others when only counters change.\<close>

lemma others_frame:
  assumes inv: "mpsc_inv c s" and "j \<noteq> i" "hpos (mem s) \<le> H'" "rpos (mem s) \<le> R'"
    and tk: "\<And>b. ticket_of (prods s j) = Some b \<Longrightarrow> T' \<le> t_start b \<and>
      (t_start b = tpos (mem s) \<longrightarrow> T' = tpos (mem s) \<and> q' = sequence (control (mem s)))"
  shows "prod_ok (ring (mem s)) H' T' R' q' (((prods s)(i := p)) j)"
proof -
  note G = geometry_okD [OF mpsc_invD(1) [OF inv]]
  have "prod_ok (ring (mem s)) H' T' R' q' (prods s j)"
    by (rule prod_ok_frame [OF mpsc_invD(4) [OF inv] assms(3,4)]) (use tk G in auto)
  with \<open>j \<noteq> i\<close> show ?thesis by simp
qed

text \<open>The compare-and-swap.\<close>

lemma inv_reserve:
  assumes inv: "mpsc_inv c s" and at: "prods s i = PReserve bs ty tail padding w"
    and cas: "tail_reserve (control (mem s)) = tail" and rng: "in_range (prods s i)"
  defines "st \<equiv> (mem s)\<lparr>control := (control (mem s))\<lparr>tail_reserve := tail + (padding + record_size (call_size bs))\<rparr>\<rparr>"
    and "tk \<equiv> \<lparr>tk_bytes = bs, tk_type = ty, tk_start = tail, tk_padding = padding,
      tk_pos = record_pos (capacity (mem s)) tail padding\<rparr>"
  shows "mpsc_inv c (s\<lparr>mem := st, prods := (prods s)(i :=
    PStore tk (record_stores (capacity (mem s)) tail padding w bs ty))\<rparr>)"
proof -
  let ?m = "ring (mem s)" and ?t = "unat tail" and ?n = "length bs"
  let ?ss = "record_stores (capacity (mem s)) tail padding w bs ty"
  let ?x = "\<lparr>payload = bs, msg_type = ty, msg_sequence = 0\<rparr>"
  note G = geometry_okD [OF mpsc_invD(1) [OF inv]]
  obtain h where P: "call_ok c bs" "padding = of_nat (pad_len c ?t ?n)" "w = needs_wrap c ?t ?n"
    and h: "h \<le> hpos (mem s)" "h \<le> ?t" "?t - h + push_len c ?t ?n \<le> c"
    using mpsc_invD(4) [OF inv, of i] at G(1) by auto
  have n: "rec_len ?n \<le> c" using P(1) by (simp add: call_ok_def)
  have fits: "fits_ring c ?t bs" using h(3) P(1) G(2) by (simp add: fits_ring_def)
  have pad: "unat padding = pad_len c ?t ?n" "unat (record_size (call_size bs)) = rec_len ?n"
    using room_le [of c ?t] G(3) P(2) unat_call_size [OF P(1)]
    by (simp_all add: pad_len_def unat_of_nat unat_record_size)
  have sum: "?t + (pad_len c ?t ?n + rec_len ?n) < 2 ^ 64" using rng by (simp add: at pad)
  have R': "unat (tail + (padding + record_size (call_size bs))) = ?t + push_len c ?t ?n"
  proof -
    have "tail + (padding + record_size (call_size bs)) = of_nat (?t + (pad_len c ?t ?n + rec_len ?n))"
      using P(2) word_of_unat [OF pad(2)] by simp
    then show ?thesis using unat_of_nat_small [OF sum] by (simp add: push_len_def)
  qed
  have tk: "t_start tk = ?t" "t_end c tk = ?t + push_len c ?t ?n" "tk_msg tk 0 = ?x"
    by (simp_all add: tk_def t_start_def t_end_def tk_msg_def)
  note S = record_stores_eq [OF G(2-4) P(1), where start = tail and ty = ty, folded P(2,3)]
  have "apply_stores ?ss ?m = pushed_memory ?m ?t ?x"
    unfolding S unfolding P(3) by (rule record_stores_memory [OF G(2,1) P(1)])
  then have wr: "written (apply_stores ?ss ?m) ?t ?x"
    using fits G(1) length_pushed_memory [of ?m ?t ?x]
    by (auto simp: written_def intro!: exI [of _ ?m])
  have sin: "stores_in c ?t (?t + push_len c ?t ?n) ?ss"
    unfolding S unfolding P(3) by (rule record_stores_in [OF G(2) P(1)])
  have "ticket_ok c (tpos (mem s)) (?t + push_len c ?t ?n) tk"
    using fits P(2) G(6) cas record_pos_eq [OF G(2-4) n, of tail] tk
    by (simp add: ticket_ok_def) (simp add: tk_def)
  with wr sin tk G(1) have new: "prod_ok ?m (hpos (mem s)) (tpos (mem s)) (?t + push_len c ?t ?n)
      (sequence (control (mem s))) (PStore tk ?ss)" by simp
  have R: "rpos (mem s) = ?t" using cas by simp
  have others: "prod_ok ?m (hpos (mem s)) (tpos (mem s)) (?t + push_len c ?t ?n) (sequence (control (mem s)))
      (((prods s)(i := PStore tk ?ss)) j)" for j
    using new others_frame [OF inv, of j i "hpos (mem s)" "?t + push_len c ?t ?n" "tpos (mem s)"] R
      ticket_bounds(2) [OF inv, of j] by (cases "j = i") auto
  have "tickets_ok c (tpos (mem s)) (?t + push_len c ?t ?n) ((prods s)(i := PStore tk ?ss))"
    by (rule tickets_ok_add [OF mpsc_invD(5) [OF inv], where a = tk])
      (use at R tk ticket_bounds(3) [OF inv] in simp_all)
  then show ?thesis
    using mpsc_invD [OF inv] others R R' h numbers_ok_update [OF mpsc_invD(6) [OF inv], of "PStore tk ?ss" i] at
    by (simp add: mpsc_inv_def geometry_ok_def st_def)
qed

text \<open>Only the producer at the tail counts and numbers.\<close>

lemma only_numbering:
  assumes inv: "mpsc_inv c s" and i: "ticket_of (prods s i) = Some a" "t_start a = tpos (mem s)" and "j \<noteq> i"
  shows "\<not> numbering (prods s j)" "ticket_of (prods s j) = Some b \<Longrightarrow> t_start b \<noteq> tpos (mem s)"
proof -
  have "t_start b \<noteq> tpos (mem s)" if "ticket_of (prods s j) = Some b" for b
    using later_ticket [OF inv i that] \<open>j \<noteq> i\<close> t_start_less [of a c] i(2) by simp
  then show "ticket_of (prods s j) = Some b \<Longrightarrow> t_start b \<noteq> tpos (mem s)"
    "\<not> numbering (prods s j)"
    using mpsc_invD(4) [OF inv, of j] by (auto elim!: numbering.elims(2))
qed

lemma inv_count:
  assumes inv: "mpsc_inv c s" and at: "prods s i = PCount tk"
  defines "q \<equiv> sequence (control (mem s)) + 1"
  shows "mpsc_inv c (s\<lparr>mem := (mem s)\<lparr>control := (control (mem s))\<lparr>sequence := q\<rparr>\<rparr>,
    prods := (prods s)(i := PNumber tk q)\<rparr>)"
proof -
  let ?m = "ring (mem s)" and ?P = "(prods s)(i := PNumber tk q)"
  have i: "ticket_of (prods s i) = Some tk" "t_start tk = tpos (mem s)"
    using mpsc_invD(4) [OF inv, of i] at by auto
  note only = only_numbering [OF inv i]
  have "prod_ok ?m (hpos (mem s)) (tpos (mem s)) (rpos (mem s)) q (?P j)" for j
  proof (cases "j = i")
    case True
    with mpsc_invD(4) [OF inv, of i] at show ?thesis by auto
  next
    case False
    show ?thesis
      by (rule others_frame [OF inv False]) (use only [OF False] ticket_bounds(2) [OF inv] in auto)
  qed
  moreover have "\<not> numbering (prods s j)" for j using only(1) [of j] at by (cases "j = i") simp_all
  then have "\<not> (\<exists>j. numbering (prods s j))" by blast
  then have "numbers_ok q (published s) ?P"
    using mpsc_invD(6) [OF inv] by (auto simp: numbers_ok_def q_def)
  ultimately show ?thesis
    using mpsc_invD [OF inv] tickets_ok_update [OF mpsc_invD(5) [OF inv], of "PNumber tk q" i] i
    by (simp add: mpsc_inv_def geometry_ok_def)
qed

lemma published_tail:
  assumes inv: "mpsc_inv c s" and i: "ticket_of (prods s i) = Some tk"
  shows "unat (tk_start tk + tk_padding tk + record_size (call_size (tk_bytes tk))) = t_end c tk"
proof -
  note B = ticket_bounds [OF inv i]
  have call: "call_ok c (tk_bytes tk)" using B(1) by (simp add: fits_ring_def)
  have "tk_start tk + tk_padding tk + record_size (call_size (tk_bytes tk)) = of_nat (t_end c tk)"
    using B(4) unat_call_size [OF call]
    by (simp add: t_end_def push_len_def ticket_ok_def record_size_of_nat t_start_def)
  moreover have "t_end c tk < 2 ^ 64" using B(3) unat_lt_pow [of "tail_reserve (control (mem s))"] by simp
  ultimately show ?thesis by (simp add: unat_of_nat)
qed

lemma inv_publish:
  assumes inv: "mpsc_inv c s" and at: "prods s i = PPublish tk q"
  defines "t' \<equiv> tk_start tk + tk_padding tk + record_size (call_size (tk_bytes tk))"
  shows "mpsc_inv c (s\<lparr>mem := (mem s)\<lparr>control := (control (mem s))\<lparr>tail_publish := t'\<rparr>\<rparr>,
    prods := (prods s)(i := PReturned True), published := published s @ [tk_msg tk q]\<rparr>)"
proof -
  let ?m = "ring (mem s)" and ?P = "(prods s)(i := PReturned True)"
  note G = geometry_okD [OF mpsc_invD(1) [OF inv]]
  have i: "ticket_of (prods s i) = Some tk" "t_start tk = tpos (mem s)"
    and w: "written ?m (t_start tk) (tk_msg tk q)" and q: "q = sequence (control (mem s))"
    using mpsc_invD(4) [OF inv, of i] at by auto
  note B = ticket_bounds [OF inv i(1)]
  note only = only_numbering [OF inv i]
  have fit: "fits_ring (length ?m) (t_start tk) (payload (tk_msg tk q))" using B(1) G(1) by (simp add: tk_msg_def)
  have t': "unat t' = t_end c tk" unfolding t'_def by (rule published_tail [OF inv i(1)])
  have le: "tpos (mem s) \<le> t_end c tk" using t_start_less [of tk c] i(2) by simp
  have "ring_seg ?m (tpos (mem s)) (t_end c tk) [tk_msg tk q]"
    using written_seg [OF w fit] i(2) G(1) by (simp add: t_end_def tk_msg_def)
  then have seg: "\<exists>ms. ring_seg ?m (hpos (mem s)) (t_end c tk) ms \<and> published s @ [tk_msg tk q] = popped s @ ms"
    using mpsc_invD(2) [OF inv] by (metis append.assoc seg_append)
  have "prod_ok ?m (hpos (mem s)) (t_end c tk) (rpos (mem s)) (sequence (control (mem s))) (?P j)" for j
  proof (cases "j = i")
    case False
    show ?thesis
      by (rule others_frame [OF inv False]) (use only [OF False] later_ticket [OF inv i] False in auto)
  qed simp
  moreover have "cons_ok ?m (hpos (mem s)) (t_end c tk) (cons s)"
    using cons_ok_frame [OF mpsc_invD(3) [OF inv] agree_refl le] G by simp
  moreover have "tickets_ok c (t_end c tk) (rpos (mem s)) ?P"
    using mpsc_invD(5) [OF inv] i(1) le by (rule tickets_ok_remove) simp
  moreover have "\<not> numbering (?P j)" for j using only [of j] by simp
  then have none: "\<not> (\<exists>j. numbering (?P j))" by blast
  have "\<exists>j. numbering (prods s j)" using at by (intro exI [of _ i]) simp
  then have "numbers_ok (sequence (control (mem s))) (published s @ [tk_msg tk q]) ?P"
    using mpsc_invD(6) [OF inv] q unfolding numbers_ok_def if_not_P [OF none]
    by (auto simp: nth_append less_Suc_eq tk_msg_def)
  ultimately show ?thesis
    using mpsc_invD(1) [OF inv] seg t' B(3) le G by (simp add: mpsc_inv_def geometry_ok_def)
qed

text \<open>The store of the number into the header lies in the reservation.\<close>

lemma number_store_place:
  assumes inv: "mpsc_inv c s" and at: "prods s i = PNumber tk q"
  obtains p where "t_start tk \<le> p" "p + 8 \<le> t_end c tk" "p mod c + 8 \<le> c"
    "store_rh_sequence (ring (mem s)) (tk_pos tk) q = Inr (mem_write (ring (mem s)) (p mod c) (enc64 q))"
    "written (mem_write (ring (mem s)) (p mod c) (enc64 q)) (t_start tk) (tk_msg tk q)"
proof -
  let ?m = "ring (mem s)" and ?x = "tk_msg tk 0"
  note G = geometry_okD [OF mpsc_invD(1) [OF inv]]
  have i: "ticket_of (prods s i) = Some tk" and w: "written ?m (t_start tk) ?x"
    using mpsc_invD(4) [OF inv, of i] at by auto
  note B = ticket_bounds [OF inv i]
  let ?r = "t_start tk + pad_len c (t_start tk) (length (tk_bytes tk))"
  have fit: "fits_ring (length ?m) (t_start tk) (payload ?x)" using B(1) G(1) by (simp add: tk_msg_def)
  have pos: "tk_pos tk = of_nat (?r mod c)" using B(4) by (simp add: ticket_ok_def)
  from written_number [OF w fit, of q] G(1,3) pos obtain
    st: "store_rh_sequence ?m (tk_pos tk) q = Inr (mem_write ?m (?r mod c + 8) (enc64 q))"
    and place: "?r mod c + 16 \<le> c"
    and wr: "written (mem_write ?m (?r mod c + 8) (enc64 q)) (t_start tk) (tk_msg tk q)"
    by (auto simp: tk_msg_def)
  have r: "(?r + 8) mod c = ?r mod c + 8" using place by (intro mod_add_in_block) simp
  have e: "?r + 8 + 8 \<le> t_end c tk"
    unfolding t_end_def push_len_def using rec_len_ge [of "length (tk_bytes tk)"] by linarith
  show ?thesis by (rule that [of "?r + 8"]) (use st wr place e r in auto)
qed

lemma sequence_store_inv:
  assumes inv: "mpsc_inv c s" and at: "prods s i = PNumber tk q"
  shows "\<exists>m. store_rh_sequence (ring (mem s)) (tk_pos tk) q = Inr m \<and>
    mpsc_inv c (s\<lparr>mem := (mem s)\<lparr>ring := m\<rparr>, prods := (prods s)(i := PPublish tk q)\<rparr>)"
proof -
  let ?m = "ring (mem s)"
  note G = geometry_okD [OF mpsc_invD(1) [OF inv]]
  have i: "ticket_of (prods s i) = Some tk"
    and rest: "t_start tk = tpos (mem s)" "q = sequence (control (mem s))"
    using mpsc_invD(4) [OF inv, of i] at by auto
  obtain p where p: "t_start tk \<le> p" "p + 8 \<le> t_end c tk" "p mod c + 8 \<le> c"
    "store_rh_sequence ?m (tk_pos tk) q = Inr (mem_write ?m (p mod c) (enc64 q))"
    "written (mem_write ?m (p mod c) (enc64 q)) (t_start tk) (tk_msg tk q)"
    by (rule number_store_place [OF inv at])
  have "mpsc_inv c (s\<lparr>mem := (mem s)\<lparr>ring := mem_write ?m (p mod c) (enc64 q)\<rparr>,
      prods := (prods s)(i := PPublish tk q)\<rparr>)"
    by (rule own_store_inv [OF inv i p(1)])
      (use p at rest ticket_bounds(4) [OF inv i] G(1) in auto)
  with p(4) show ?thesis by simp
qed

text \<open>Every access of a producer is possible and keeps the invariant.\<close>

lemma producer_inv:
  assumes inv: "mpsc_inv c s"
  shows "\<exists>st p. producer_step spurious (mem s) (prods s i) = Inr (st, p) \<and>
    (in_range (prods s i) \<longrightarrow> mpsc_inv c
      (s\<lparr>mem := st, prods := (prods s)(i := p), published := published s @ publishes (prods s i)\<rparr>))"
proof -
  note G = geometry_okD [OF mpsc_invD(1) [OF inv]]
  note ok = mpsc_invD(4) [OF inv, of i]
  have same: "s\<lparr>mem := mem s, prods := (prods s)(i := p), published := published s\<rparr> = s\<lparr>prods := (prods s)(i := p)\<rparr>" for p
    by simp
  note L = inv_local [OF inv, of _ i]
  show ?thesis
  proof (cases "prods s i")
    case (PLoadTail bs ty head)
    have le: "unat head \<le> rpos (mem s)" and call: "call_ok c bs" using ok PLoadTail G by auto
    let ?t = "rpos (mem s)"
    have plan: "reserve_plan (record_size (call_size bs)) (capacity (mem s)) head (tail_reserve (control (mem s))) =
        Inr (if ?t - unat head + push_len c ?t (length bs) \<le> c
          then Some (of_nat (pad_len c ?t (length bs)), needs_wrap c ?t (length bs)) else None)"
      by (rule reserve_plan_eq [OF G(2-4) call le])
    show ?thesis
    proof (cases "?t - unat head + push_len c ?t (length bs) \<le> c")
      case True
      let ?p = "PReserve bs ty (tail_reserve (control (mem s))) (of_nat (pad_len c ?t (length bs)))
        (needs_wrap c ?t (length bs))"
      have "producer_step spurious (mem s) (prods s i) = Inr (mem s, ?p)"
        using PLoadTail plan True by (simp add: Let_def)
      moreover have "mpsc_inv c (s\<lparr>prods := (prods s)(i := ?p)\<rparr>)"
        by (rule L) (use PLoadTail ok True G(1) call le in auto)
      ultimately show ?thesis using PLoadTail by (simp add: same)
    next
      case False
      then have "producer_step spurious (mem s) (prods s i) = Inr (mem s, PReturned False)"
        using PLoadTail plan by (simp add: Let_def)
      with PLoadTail L [of "PReturned False"] show ?thesis by (simp add: same)
    qed
  next
    case (PReserve bs ty tail padding w)
    then show ?thesis
      using inv_reserve [OF inv PReserve] L ok by (auto simp: same)
  next
    case (PStore tk ss)
    show ?thesis
    proof (cases ss)
      case Nil
      with PStore ok show ?thesis using L by (auto simp: same)
    next
      case (Cons x xs)
      have "stores_in c (t_start tk) (t_end c tk) (x # xs)" using ok PStore Cons G(1) by auto
      then obtain p where p: "t_start tk \<le> p" "p + length (snd x) \<le> t_end c tk" "fst x = p mod c"
        "p mod c + length (snd x) \<le> c" "stores_in c (t_start tk) (t_end c tk) xs"
        by (rule stores_in_ConsE)
      have "mpsc_inv c (s\<lparr>mem := (mem s)\<lparr>ring := mem_write (ring (mem s)) (p mod c) (snd x)\<rparr>,
          prods := (prods s)(i := PStore tk xs)\<rparr>)"
        by (rule own_store_inv [OF inv _ p(1,2,4), of i]) (use PStore Cons p ok G(1) in auto)
      then show ?thesis using PStore Cons p G(1) by (simp add: store_bytes_ok)
    qed
  next
    case (PSpin tk)
    then show ?thesis using L ok by (auto simp: same t_start_def)
  next
    case (PCount tk)
    then show ?thesis using inv_count [OF inv PCount] by (simp add: Let_def)
  next
    case (PNumber tk q)
    then show ?thesis using sequence_store_inv [OF inv PNumber] by auto
  next
    case (PPublish tk q)
    then show ?thesis using inv_publish [OF inv PPublish] by (simp add: tk_msg_def)
  qed (use L ok inv in \<open>auto simp: same\<close>)
qed

text \<open>A producer leaves the published records alone, and the head.\<close>

lemma producer_step_head:
  assumes "producer_step spurious st p = Inr (st', p')"
  shows "head_publish (control st') = head_publish (control st)"
    "head_reserve (control st') = head_reserve (control st)" "capacity st' = capacity st"
  using assms
  by (cases "(spurious, st, p)" rule: producer_step.cases;
    auto simp: Let_def bindE_def split: sum.splits option.splits if_splits)+

lemma producer_frame:
  assumes inv: "mpsc_inv c s" and step: "producer_step spurious (mem s) (prods s i) = Inr (st, p)"
  shows "agree (ring (mem s)) (ring st) (hpos (mem s)) (tpos (mem s))" "tpos (mem s) \<le> tpos st"
    "head_publish (control st) = head_publish (control (mem s))"
    "head_reserve (control st) = head_reserve (control (mem s))" "capacity st = capacity (mem s)"
proof -
  note G = geometry_okD [OF mpsc_invD(1) [OF inv]]
  have own: "agree (ring (mem s)) (mem_write (ring (mem s)) (x mod c) bs) (hpos (mem s)) (tpos (mem s))"
    if "ticket_of (prods s i) = Some tk" "t_start tk \<le> x" "x + length bs \<le> t_end c tk" "x mod c + length bs \<le> c"
    for tk x bs
    using own_store_agree [OF inv that] G ticket_bounds(2) [OF inv that(1)] by simp
  show "agree (ring (mem s)) (ring st) (hpos (mem s)) (tpos (mem s))"
  proof (cases "prods s i")
    case (PStore tk ss)
    show ?thesis
    proof (cases ss)
      case (Cons x xs)
      have "stores_in c (t_start tk) (t_end c tk) (x # xs)" using mpsc_invD(4) [OF inv, of i] PStore Cons G(1) by auto
      then obtain k where k: "t_start tk \<le> k" "k + length (snd x) \<le> t_end c tk" "fst x = k mod c"
        "k mod c + length (snd x) \<le> c" "stores_in c (t_start tk) (t_end c tk) xs"
        by (rule stores_in_ConsE)
      with step PStore Cons G(1) own [of tk k "snd x"] show ?thesis by (auto simp: store_bytes_ok)
    qed (use step PStore in simp)
  next
    case (PNumber tk q)
    obtain k where k: "t_start tk \<le> k" "k + 8 \<le> t_end c tk" "k mod c + 8 \<le> c"
      "store_rh_sequence (ring (mem s)) (tk_pos tk) q = Inr (mem_write (ring (mem s)) (k mod c) (enc64 q))"
      "written (mem_write (ring (mem s)) (k mod c) (enc64 q)) (t_start tk) (tk_msg tk q)"
      by (rule number_store_place [OF inv PNumber])
    with step PNumber own [of tk k "enc64 q"] show ?thesis by auto
  qed (use step in \<open>auto simp: Let_def bindE_def split: sum.splits option.splits if_splits\<close>)
  show "tpos (mem s) \<le> tpos st"
  proof (cases "prods s i")
    case (PPublish tk q)
    then have "ticket_of (prods s i) = Some tk" by simp
    with step PPublish published_tail [OF inv this] ticket_bounds(2) [OF inv this] t_start_less [of tk c]
    show ?thesis by auto
  next
    case (PStore tk ss)
    with step show ?thesis by (cases ss) (auto simp: bindE_def split: sum.splits)
  qed (use step in \<open>auto simp: Let_def bindE_def split: sum.splits option.splits if_splits\<close>)
qed (use producer_step_head [OF step] in auto)

section \<open>Steps of the consumer\<close>

lemma inv_cons_local:
  assumes "mpsc_inv c s" "cons_ok (ring (mem s)) (hpos (mem s)) (tpos (mem s)) k"
  shows "mpsc_inv c (s\<lparr>cons := k\<rparr>)"
  using assms by (simp add: mpsc_inv_def Let_def)

text \<open>Moving the head from one boundary of the published records to a later one.\<close>

lemma inv_head:
  assumes inv: "mpsc_inv c s" and "unat head \<le> tpos (mem s)" "hpos (mem s) \<le> unat head"
    and seg: "ring_seg (ring (mem s)) (unat head) (tpos (mem s)) ms" "published s = popped s @ xs @ ms"
  shows "mpsc_inv c (s\<lparr>mem := (mem s)\<lparr>control := (control (mem s))\<lparr>head_publish := head\<rparr>\<rparr>,
    cons := CStoreReserve head r, popped := popped s @ xs\<rparr>)"
proof -
  note G = geometry_okD [OF mpsc_invD(1) [OF inv]]
  have "prod_ok (ring (mem s)) (unat head) (tpos (mem s)) (rpos (mem s)) (sequence (control (mem s))) (prods s j)" for j
    by (rule prod_ok_frame [OF mpsc_invD(4) [OF inv] assms(3)])
      (use G ticket_bounds(2) [OF inv] in auto)
  with mpsc_invD(5,6) [OF inv] assms G show ?thesis
    by (auto simp: mpsc_inv_def geometry_ok_def)
qed

lemma inv_reserve_head:
  assumes "mpsc_inv c s" "cons_ok (ring (mem s)) (hpos (mem s)) (tpos (mem s)) k"
  shows "mpsc_inv c (s\<lparr>mem := (mem s)\<lparr>control := (control (mem s))\<lparr>head_reserve := head\<rparr>\<rparr>, cons := k\<rparr>)"
  using assms by (simp add: mpsc_inv_def geometry_ok_def Let_def)

text \<open>The decision after both loads.\<close>

lemma consumer_load_head:
  assumes inv: "mpsc_inv c s" and at: "cons s = CLoadHead tail"
  shows "\<exists>k. consumer_step (mem s) (cons s) = Inr (mem s, k) \<and>
    cons_ok (ring (mem s)) (hpos (mem s)) (tpos (mem s)) k"
proof -
  let ?head = "head_publish (control (mem s))" and ?m = "ring (mem s)" and ?H = "hpos (mem s)"
  note G = geometry_okD [OF mpsc_invD(1) [OF inv]]
  note W = word_pos [OF G(2-4), of ?head]
  have seen: "seen_tail ?m ?H (tpos (mem s)) tail" using mpsc_invD(3) [OF inv] at by simp
  then obtain ms where ms: "ring_seg ?m ?H (unat tail) ms" "unat tail \<le> tpos (mem s)" by (auto simp: seen_tail_def)
  have cap: "capacity (mem s) \<noteq> 0" using G(2-4) by (simp add: unat_eq_0 [symmetric] unat_of_nat)
  show ?thesis
  proof (cases "?head = tail")
    case True
    with at show ?thesis by simp
  next
    case False
    then have ne: "?H \<noteq> unat tail" by (simp add: word_unat_eq_iff)
    have r: "capacity (mem s) - ?head mod capacity (mem s) < sizeof_RecordHeader \<longleftrightarrow> room c ?H < 16"
      using W(2) by (simp add: word_less_nat_alt)
    show ?thesis
    proof (cases "room c ?H < 16")
      case True
      have le: "?H + room c ?H \<le> unat tail"
        using seg_le [OF seg_short_next [OF ms(1) ne]] True G(1) by simp
      have "unat (?head + (capacity (mem s) - ?head mod capacity (mem s))) = ?H + room c ?H"
        using W(2) le unat_lt_pow [of tail] by (simp add: unat_plus_if')
      with le ms(2) True False at r cap show ?thesis
        by (simp add: Let_def skip_ready_def G(1))
    next
      case False
      with \<open>?head \<noteq> tail\<close> at r cap seen ne show ?thesis by (simp add: Let_def G(1))
    qed
  qed
qed

lemma consumer_flags:
  assumes inv: "mpsc_inv c s" and at: "cons s = CFlags tail head"
  shows "\<exists>k. consumer_step (mem s) (cons s) = Inr (mem s, k) \<and>
    cons_ok (ring (mem s)) (hpos (mem s)) (tpos (mem s)) k"
proof -
  let ?m = "ring (mem s)" and ?H = "hpos (mem s)"
  note G = geometry_okD [OF mpsc_invD(1) [OF inv]]
  note W = word_pos [OF G(2-4), of head]
  have seen: "seen_tail ?m ?H (tpos (mem s)) tail" and ne: "?H \<noteq> unat tail" and h: "unat head = ?H"
    and room: "16 \<le> room c ?H" using mpsc_invD(3) [OF inv] at G(1) by auto
  then obtain ms where ms: "ring_seg ?m ?H (unat tail) ms" "unat tail \<le> tpos (mem s)" by (auto simp: seen_tail_def)
  have "unat (head mod capacity (mem s)) + 16 \<le> length ?m"
    using room W(1) h G(1) add_le_room [OF G(2), of 16 ?H] by simp
  then have fl: "load_rh_flags ?m (head mod capacity (mem s)) = Inr (rh_flags (header_at ?m (?H mod c)))"
    using load_rh_ok(3) W(1) h by simp
  show ?thesis
  proof (cases "wrap_at ?m (?H mod c)")
    case True
    have le: "?H + room c ?H \<le> unat tail"
      using seg_le [OF seg_wrap_next [OF ms(1) ne]] True G(1) room by simp
    have "unat (head + (capacity (mem s) - head mod capacity (mem s))) = ?H + room c ?H"
      using W(2) le unat_lt_pow [of tail] h by (simp add: unat_plus_if')
    with le ms(2) True at fl room show ?thesis
      by (simp add: wrap_at_def skip_ready_def G(1))
  next
    case False
    with at fl seen ne room h show ?thesis by (simp add: wrap_at_def G(1))
  qed
qed

lemma consumer_size:
  assumes inv: "mpsc_inv c s" and at: "cons s = CSize tail head"
  shows "\<exists>k. consumer_step (mem s) (cons s) = Inr (mem s, CCopy head k []) \<and>
    cons_ok (ring (mem s)) (hpos (mem s)) (tpos (mem s)) (CCopy head k [])"
proof -
  let ?m = "ring (mem s)" and ?H = "hpos (mem s)"
  note G = geometry_okD [OF mpsc_invD(1) [OF inv]]
  note W = word_pos [OF G(2-4), of head]
  have seen: "seen_tail ?m ?H (tpos (mem s)) tail" and ne: "?H \<noteq> unat tail" and h: "unat head = ?H"
    and room: "16 \<le> room (length ?m) ?H" and nw: "\<not> wrap_at ?m (?H mod length ?m)"
    using mpsc_invD(3) [OF inv] at by auto
  then obtain ms where ms: "ring_seg ?m ?H (unat tail) ms" "unat tail \<le> tpos (mem s)" by (auto simp: seen_tail_def)
  obtain x xs where x: "ms = x # xs" "rec_len (length (payload x)) \<le> room (length ?m) ?H"
    "rec_at ?m (?H mod length ?m) x" "ring_seg ?m (?H + rec_len (length (payload x))) (unat tail) xs"
    by (rule seg_rec_next [OF ms(1) ne room nw])
  let ?sz = "rh_size (header_at ?m (?H mod c))"
  have sz: "unat ?sz = length (payload x)" using x(3) G(1) by (simp add: rec_at_def)
  have "unat (head mod capacity (mem s)) + 16 \<le> length ?m"
    using room W(1) h G(1) add_le_room [OF G(2), of 16 ?H] by simp
  then have fl: "load_rh_size ?m (head mod capacity (mem s)) = Inr ?sz"
    using load_rh_ok(1) W(1) h by simp
  have rs: "unat (record_size ?sz) = rec_len (length (payload x))" by (simp add: unat_record_size sz)
  note le = seg_le [OF x(4)]
  have "\<not> record_size ?sz > capacity (mem s) - head mod capacity (mem s)"
    using W(2) x(2) h rs G(1) by (simp add: word_less_nat_alt)
  moreover have "unat (tail - head) = unat tail - ?H" using le h by (simp add: unat_sub_if')
  then have "\<not> tail - head < record_size ?sz" using le rs by (simp add: word_less_nat_alt)
  moreover have "rec_ready ?m ?H (tpos (mem s)) x" using x(2,3) le ms(2) by (simp add: rec_ready_def)
  ultimately show ?thesis using at fl h sz by (auto simp: Let_def)
qed

text \<open>Reading the record: payload byte by byte, type, number.\<close>

lemma rec_ready_loads:
  assumes inv: "mpsc_inv c s" and r: "rec_ready (ring (mem s)) (hpos (mem s)) T x" and h: "unat head = hpos (mem s)"
  shows "load_rh_type (ring (mem s)) (head mod capacity (mem s)) = Inr (msg_type x)"
    and "load_rh_sequence (ring (mem s)) (head mod capacity (mem s)) = Inr (msg_sequence x)"
    and "i < length (payload x) \<Longrightarrow>
      load_bytes (ring (mem s)) (unat (head mod capacity (mem s)) + 16 + i) 1 = Inr [payload x ! i]"
proof -
  let ?m = "ring (mem s)" and ?H = "hpos (mem s)" and ?n = "length (payload x)"
  note G = geometry_okD [OF mpsc_invD(1) [OF inv]]
  have p: "unat (head mod capacity (mem s)) = ?H mod c" using word_pos(1) [OF G(2-4), of head] h by simp
  have b: "?H mod c + 16 + ?n \<le> c"
    using r rec_len_bounds(1) [of ?n] add_le_room [OF G(2), of "rec_len ?n" ?H]
    unfolding rec_ready_def G(1) by linarith
  have at: "rec_at ?m (?H mod c) x" using r G(1) by (simp add: rec_ready_def)
  show "load_rh_type ?m (head mod capacity (mem s)) = Inr (msg_type x)"
    "load_rh_sequence ?m (head mod capacity (mem s)) = Inr (msg_sequence x)"
    using load_rh_ok(2,4) [of "head mod capacity (mem s)" ?m] at b p G(1) by (simp_all add: rec_at_def)
  show "load_bytes ?m (unat (head mod capacity (mem s)) + 16 + i) 1 = Inr [payload x ! i]" if i: "i < ?n"
  proof -
    have "mem_read ?m (?H mod c + 16 + i) 1 = [?m ! (?H mod c + 16 + i)]"
      using i b G(1) by (simp add: mem_read_def take_Suc hd_drop_conv_nth)
    also have "?m ! (?H mod c + 16 + i) = payload x ! i"
      using nth_mem_read [of "?H mod c + 16" ?n ?m i] at i b G(1) by (simp add: rec_at_def)
    finally show ?thesis using i b p G(1) by (simp add: load_bytes_ok)
  qed
qed

text \<open>Every access of the consumer is possible and keeps the invariant.\<close>

lemma consumer_inv:
  assumes inv: "mpsc_inv c s"
  shows "\<exists>st k. consumer_step (mem s) (cons s) = Inr (st, k) \<and>
    mpsc_inv c (s\<lparr>mem := st, cons := k, popped := popped s @ pops (cons s)\<rparr>)"
proof -
  let ?m = "ring (mem s)" and ?H = "hpos (mem s)" and ?T = "tpos (mem s)"
  note G = geometry_okD [OF mpsc_invD(1) [OF inv]]
  note ok = mpsc_invD(3) [OF inv]
  obtain ms where ms: "ring_seg ?m ?H ?T ms" "published s = popped s @ ms" using mpsc_invD(2) [OF inv] by blast
  have stay: ?thesis if "consumer_step (mem s) (cons s) = Inr (mem s, k)" "cons_ok ?m ?H ?T k" "pops (cons s) = []" for k
    using that inv_cons_local [OF inv that(2)] by simp
  note loads = rec_ready_loads [OF inv]
  show ?thesis
  proof (cases "cons s")
    case CLoadTail
    with ms show ?thesis by (intro stay) (auto simp: seen_tail_def)
  next
    case (CLoadHead tail)
    with consumer_load_head [OF inv] stay show ?thesis by auto
  next
    case (CFlags tail head)
    with consumer_flags [OF inv] stay show ?thesis by auto
  next
    case (CSize tail head)
    with consumer_size [OF inv] stay show ?thesis by fastforce
  next
    case (CCopy head sz bs)
    then obtain x where x: "unat head = ?H" "rec_ready ?m ?H ?T x" "unat sz = length (payload x)"
      "length bs \<le> length (payload x)" "bs = take (length bs) (payload x)" using ok by auto
    show ?thesis
    proof (cases "length bs < length (payload x)")
      case True
      have "bs @ [payload x ! length bs] = take (Suc (length bs)) (payload x)"
        using x(5) True by (metis take_Suc_conv_app_nth)
      with CCopy x True loads(3) [OF x(2,1) True] show ?thesis by (intro stay) (auto intro!: exI [of _ x])
    next
      case False
      with x(4,5) have "bs = payload x" by simp
      with CCopy x False show ?thesis by (intro stay) auto
    qed
  next
    case (CType head sz bs)
    then obtain x where x: "unat head = ?H" "rec_ready ?m ?H ?T x" "unat sz = length (payload x)" "bs = payload x"
      using ok by auto
    with CType loads(1) [OF x(2,1)] show ?thesis by (intro stay) auto
  next
    case (CSequence head sz bs ty)
    then obtain x where x: "unat head = ?H" "rec_ready ?m ?H ?T x" "unat sz = length (payload x)"
      "bs = payload x" "ty = msg_type x" using ok by auto
    have "unat (head + record_size sz) = ?H + rec_len (length (payload x))"
      using x unat_lt_pow [of "tail_publish (control (mem s))"]
      by (simp add: unat_plus_if' unat_record_size rec_ready_def)
    moreover have "rec_ready ?m ?H ?T \<lparr>payload = payload x, msg_type = msg_type x, msg_sequence = msg_sequence x\<rparr>"
      using x(2) by (cases x) simp
    ultimately show ?thesis using CSequence x loads(2) [OF x(2,1)] by (intro stay) auto
  next
    case (CStoreHead head r)
    show ?thesis
    proof (cases r)
      case None
      then have h: "skip_ready ?m ?H ?T" "unat head = ?H + room c ?H" using ok CStoreHead G(1) by auto
      with skip_ready_next [OF h(1) ms(1)] have seg: "ring_seg ?m (unat head) ?T ms" using G by simp
      show ?thesis
        using inv_head [OF inv _ _ seg, where xs = "[]"] seg_le [OF seg] ms(2) CStoreHead None h(2) by simp
    next
      case (Some x)
      then have x: "rec_ready ?m ?H ?T x" "unat head = ?H + rec_len (length (payload x))" using ok CStoreHead by auto
      from rec_ready_first [OF x(1) ms(1)] obtain xs where
        xs: "ms = x # xs" "ring_seg ?m (unat head) ?T xs" using x(2) by auto
      show ?thesis
        using inv_head [OF inv _ _ xs(2), where xs = "[x]"] seg_le [OF xs(2)] ms(2) xs(1) CStoreHead Some x(2) by simp
    qed
  next
    case (CStoreReserve head r)
    then show ?thesis using inv_reserve_head [OF inv] by (auto split: option.splits)
  next
    case (CReturned r)
    then show ?thesis by (intro stay) auto
  qed
qed

lemma mpsc_init_inv: "mpsc_init c s \<Longrightarrow> mpsc_inv c s"
  by (auto simp: mpsc_init_def mpsc_inv_def geometry_ok_def empty_ring_def tickets_ok_def numbers_ok_def
      intro: seg_nil)

lemma push_call_inv:
  assumes inv: "mpsc_inv c s" and "idle (prods s i)" "length bs < 2 ^ 32"
  shows "mpsc_inv c (s\<lparr>prods := (prods s)(i := push_entry (mem s) bs ty)\<rparr>)"
proof -
  note G = geometry_okD [OF mpsc_invD(1) [OF inv]]
  have "unat (record_size (call_size bs)) = rec_len (length bs)"
    using assms(3) by (simp add: unat_record_size call_size_def unat_of_nat)
  then have "\<not> record_size (call_size bs) > capacity (mem s) \<Longrightarrow> call_ok (length (ring (mem s))) bs"
    using assms(3) G by (simp add: word_less_nat_alt call_ok_def unat_of_nat)
  then show ?thesis
    using assms(2) by (intro inv_local [OF inv]) (auto simp: push_entry_def elim: idle.elims)
qed

interpretation mpsc_run: invariant_system "mpsc_init c" mpsc_step "mpsc_inv c" for c
proof
  show "mpsc_init c s \<Longrightarrow> mpsc_inv c s" for s by (rule mpsc_init_inv)
  show "mpsc_inv c s'" if inv: "mpsc_inv c s" and "mpsc_step s s'" for s s'
    using that(2)
  proof cases
    case (push_call i bs ty)
    then show ?thesis using push_call_inv [OF inv] by simp
  next
    case (produce spurious i st p)
    then show ?thesis using producer_inv [OF inv, of spurious i] by auto
  next
    case (pop_call r)
    then show ?thesis using inv_cons_local [OF inv, of CLoadTail] by simp
  next
    case (consume st k)
    then show ?thesis using consumer_inv [OF inv] by auto
  qed
qed

end
