(* ===== verification/MPSC_Properties.thy ===== *)
theory MPSC_Properties
  imports MPSC_Concurrent
begin

text \<open>
  The properties of the multi-producer ring under concurrency, and a run that shows them at work.
\<close>

section \<open>Running a schedule\<close>

datatype mpsc_event = EPush nat "byte list" u16 | EProduce nat bool | EPop | EConsume

fun mpsc_access :: "mpsc_event \<Rightarrow> mpsc_sys \<Rightarrow> mpsc_sys option" where
  "mpsc_access (EPush i bs ty) s =
     (if idle (prods s i) \<and> length bs < 2 ^ 32
      then Some (s\<lparr>prods := (prods s)(i := push_entry (mem s) bs ty)\<rparr>) else None)"
| "mpsc_access (EProduce i spurious) s =
     (case producer_step spurious (mem s) (prods s i) of
        Inl _ \<Rightarrow> None
      | Inr (st, p) \<Rightarrow> if in_range (prods s i)
          then Some (s\<lparr>mem := st, prods := (prods s)(i := p), published := published s @ publishes (prods s i)\<rparr>)
          else None)"
| "mpsc_access EPop s = (case cons s of CReturned _ \<Rightarrow> Some (s\<lparr>cons := CLoadTail\<rparr>) | _ \<Rightarrow> None)"
| "mpsc_access EConsume s =
     (case consumer_step (mem s) (cons s) of
        Inl _ \<Rightarrow> None
      | Inr (st, k) \<Rightarrow> Some (s\<lparr>mem := st, cons := k, popped := popped s @ pops (cons s)\<rparr>))"

fun mpsc_schedule :: "mpsc_event list \<Rightarrow> mpsc_sys \<Rightarrow> mpsc_sys option" where
  "mpsc_schedule [] s = Some s"
| "mpsc_schedule (e # es) s = (case mpsc_access e s of None \<Rightarrow> None | Some s' \<Rightarrow> mpsc_schedule es s')"

lemma mpsc_access_step: "mpsc_access e s = Some s' \<Longrightarrow> mpsc_step s s'"
  by (cases e) (auto split: if_splits sum.splits consumer.splits intro: mpsc_step.intros)

lemma mpsc_schedule_reachable:
  assumes "mpsc_init c s" "mpsc_schedule es s = Some s'"
  shows "reachable (mpsc_init c) mpsc_step s'"
proof -
  have "mpsc_schedule es s = Some s' \<Longrightarrow> mpsc_step\<^sup>*\<^sup>* s s'" for s
    by (induction es arbitrary: s)
      (auto split: option.splits intro: converse_rtranclp_into_rtranclp mpsc_access_step)
  with assms show ?thesis by (auto simp: reachable_def)
qed

text \<open>
  A run of two producers and the consumer on a ring of 64 bytes: producer 0 pushes a message that is
  popped and then reserves room for a second one; producer 1 overtakes it, with a record that wraps
  around, and waits.
\<close>

definition fresh_mpsc :: mpsc_sys where
  "fresh_mpsc = \<lparr>mem = empty_ring 64, prods = (\<lambda>_. PIdle), cons = CLoadTail, published = [], popped = []\<rparr>"

definition two_producers :: "mpsc_event list" where
  "two_producers = EPush 0 [7] 9 # replicate 13 (EProduce 0 False) @ replicate 9 EConsume @
     EPush 0 [6] 4 # replicate 3 (EProduce 0 False) @ EPush 1 [8] 5 # replicate 14 (EProduce 1 False)"

definition overtaken :: mpsc_sys where
  "overtaken = the (mpsc_schedule two_producers fresh_mpsc)"

fun spins_at :: "producer \<Rightarrow> u64 option" where
  "spins_at (PSpin tk) = Some (tk_start tk)"
| "spins_at _ = None"

lemma two_producers_run:
  "map_option (\<lambda>s. (map payload (published s), map payload (popped s), spins_at (prods s 1)))
     (mpsc_schedule two_producers fresh_mpsc) = Some ([[7]], [[7]], Some 48)"
  by code_simp

lemma overtaken_run:
  "mpsc_schedule two_producers fresh_mpsc = Some overtaken"
  "map payload (published overtaken) = [[7]]" "map payload (popped overtaken) = [[7]]"
  "spins_at (prods overtaken 1) = Some 48"
  using two_producers_run by (auto simp: overtaken_def)

lemma overtaken_reachable: "reachable (mpsc_init 64) mpsc_step overtaken"
  by (rule mpsc_schedule_reachable [OF _ overtaken_run(1)]) (simp add: mpsc_init_def fresh_mpsc_def)

section \<open>First in, first out\<close>

text \<open>
  C1. For every interleaving of any number of producers with the consumer, cut at every access to
  shared memory: the messages popped so far are the first of the messages published so far, with
  their payloads, types and numbers; the records of the others are in the ring between
  \<open>head_publish\<close> and \<open>tail_publish\<close>; and the numbers follow the order of publication from 1.
\<close>

theorem mpsc_concurrent_fifo:
  assumes "reachable (mpsc_init c) mpsc_step s"
  shows "(\<exists>rest. published s = popped s @ rest \<and>
       ring_seg (ring (mem s)) (unat (head_publish (control (mem s)))) (unat (tail_publish (control (mem s)))) rest) \<and>
     map msg_sequence (published s) = map (\<lambda>k. of_nat (k + 1)) [0..<length (published s)]"
proof -
  have inv: "mpsc_inv c s" using assms by (rule mpsc_run.inv_reachable)
  have "map msg_sequence (published s) = map (\<lambda>k. of_nat (k + 1)) [0..<length (published s)]"
    using mpsc_invD(6) [OF inv] by (intro nth_equalityI) (auto simp: numbers_ok_def)
  with mpsc_invD(2) [OF inv] show ?thesis by blast
qed

theorem mpsc_concurrent_fifo_witness:
  "(\<exists>rest. published overtaken = popped overtaken @ rest) \<and> map payload (popped overtaken) = [[7]] \<and>
   map msg_sequence (published overtaken) = map (\<lambda>k. of_nat (k + 1)) [0..<length (published overtaken)]"
  using mpsc_concurrent_fifo [OF overtaken_reachable] overtaken_run by blast

section \<open>Safety\<close>

text \<open>
  C13. In every reachable state of the producers and the consumer, the next access of each of them is
  possible: none reads or writes outside the ring, none divides by zero. And the consumer reports an
  empty ring only when the position it reads is the tail it has loaded: the checks of a record's size
  against the room and against the tail never fail.
\<close>

theorem mpsc_concurrent_safe:
  assumes "reachable (mpsc_init c) mpsc_step s"
  shows "(\<exists>r. producer_step spurious (mem s) (prods s i) = Inr r) \<and>
    (\<exists>st k. consumer_step (mem s) (cons s) = Inr (st, k) \<and>
      (k = CReturned None \<longrightarrow> cons s \<in> {CReturned None, CLoadHead (head_publish (control (mem s)))}))"
proof -
  have inv: "mpsc_inv c s" using assms by (rule mpsc_run.inv_reachable)
  obtain st k where k: "consumer_step (mem s) (cons s) = Inr (st, k)" using consumer_inv [OF inv] by blast
  have "cons s \<in> {CReturned None, CLoadHead (head_publish (control (mem s)))}" if "k = CReturned None"
  proof (cases "cons s")
    case (CSize tail head)
    with consumer_size [OF inv CSize] k that show ?thesis by auto
  qed (use k that in \<open>auto simp: Let_def bindE_def split: if_splits sum.splits option.splits\<close>)
  with producer_inv [OF inv, of spurious i] k show ?thesis by blast
qed

theorem mpsc_concurrent_safe_witness:
  "\<exists>r. producer_step False (mem overtaken) (prods overtaken 1) = Inr r"
  using mpsc_concurrent_safe [OF overtaken_reachable, of False 1] by blast

section \<open>Progress\<close>

fun accesses_left :: "producer \<Rightarrow> nat" where
  "accesses_left (PStore _ ss) = length ss + 5"
| "accesses_left (PSpin _) = 4"
| "accesses_left (PCount _) = 3"
| "accesses_left (PNumber _ _) = 2"
| "accesses_left (PPublish _ _) = 1"
| "accesses_left _ = 0"

text \<open>The producer whose reservation starts at the published tail is not kept waiting.\<close>

lemma front_access:
  assumes inv: "mpsc_inv c s" and i: "ticket_of (prods s i) = Some tk" "t_start tk = tpos (mem s)"
  obtains s' where "mpsc_access (EProduce i False) s = Some s'" "mpsc_inv c s'"
    "published s' = published s \<and> ticket_of (prods s' i) = Some tk \<and> tpos (mem s') = tpos (mem s) \<and>
       accesses_left (prods s i) = Suc (accesses_left (prods s' i)) \<or>
     accesses_left (prods s i) = 1 \<and> (\<exists>q. published s' = published s @ [tk_msg tk q])"
proof -
  have range: "in_range (prods s i)" using i(1) by (cases "prods s i") auto
  obtain st p where st: "producer_step False (mem s) (prods s i) = Inr (st, p)"
    "mpsc_inv c (s\<lparr>mem := st, prods := (prods s)(i := p), published := published s @ publishes (prods s i)\<rparr>)"
    using producer_inv [OF inv, of False i] range by blast
  have start: "tail_publish (control (mem s)) = tk_start tk" using i(2) by (simp add: t_start_def word_unat_eq_iff)
  show ?thesis
  proof (rule that [OF _ st(2)])
    show "mpsc_access (EProduce i False) s =
      Some (s\<lparr>mem := st, prods := (prods s)(i := p), published := published s @ publishes (prods s i)\<rparr>)"
      using st(1) range by simp
  next
    let ?s = "s\<lparr>mem := st, prods := (prods s)(i := p), published := published s @ publishes (prods s i)\<rparr>"
    show "published ?s = published s \<and> ticket_of (prods ?s i) = Some tk \<and> tpos (mem ?s) = tpos (mem s) \<and>
         accesses_left (prods s i) = Suc (accesses_left (prods ?s i)) \<or>
       accesses_left (prods s i) = 1 \<and> (\<exists>q. published ?s = published s @ [tk_msg tk q])"
    proof (cases "prods s i")
      case (PStore tk' ss)
      then show ?thesis
        using st(1) i(1) by (cases ss) (auto simp: bindE_def split: sum.splits)
    next
      case (PReturned b)
      with i(1) show ?thesis by simp
    qed (use st(1) i(1) start in \<open>auto simp: Let_def bindE_def tk_msg_def split: sum.splits\<close>)
  qed
qed

lemma front_publishes:
  assumes "mpsc_inv c s" "ticket_of (prods s i) = Some tk" "t_start tk = tpos (mem s)"
  shows "\<exists>s' q. mpsc_schedule (replicate (accesses_left (prods s i)) (EProduce i False)) s = Some s' \<and>
    published s' = published s @ [tk_msg tk q]"
  using assms
proof (induction "accesses_left (prods s i)" arbitrary: s)
  case 0
  then show ?case by (cases "prods s i") auto
next
  case (Suc n)
  obtain s' where s': "mpsc_access (EProduce i False) s = Some s'" "mpsc_inv c s'"
    "published s' = published s \<and> ticket_of (prods s' i) = Some tk \<and> tpos (mem s') = tpos (mem s) \<and>
       accesses_left (prods s i) = Suc (accesses_left (prods s' i)) \<or>
     accesses_left (prods s i) = 1 \<and> (\<exists>q. published s' = published s @ [tk_msg tk q])"
    by (rule front_access [OF Suc.prems])
  from s'(3) show ?case
  proof
    assume A: "published s' = published s \<and> ticket_of (prods s' i) = Some tk \<and> tpos (mem s') = tpos (mem s) \<and>
      accesses_left (prods s i) = Suc (accesses_left (prods s' i))"
    then have "n = accesses_left (prods s' i)" using Suc.hyps(2) by simp
    from Suc.hyps(1) [OF this s'(2)] A Suc.prems(3) s'(1) show ?thesis by auto
  next
    assume "accesses_left (prods s i) = 1 \<and> (\<exists>q. published s' = published s @ [tk_msg tk q])"
    with s'(1) show ?thesis by auto
  qed
qed

text \<open>
  C14. No deadlock among the producers: whenever some reservation is not yet published, there is a
  producer that publishes its message by its own accesses alone, however many others wait behind it.
\<close>

theorem mpsc_concurrent_progress:
  assumes "reachable (mpsc_init c) mpsc_step s"
    and "tail_publish (control (mem s)) \<noteq> tail_reserve (control (mem s))"
  shows "\<exists>i n s' m. mpsc_schedule (replicate n (EProduce i False)) s = Some s' \<and> published s' = published s @ [m]"
proof -
  have inv: "mpsc_inv c s" using assms(1) by (rule mpsc_run.inv_reachable)
  have "tpos (mem s) < rpos (mem s)"
    using geometry_okD(6) [OF mpsc_invD(1) [OF inv]] assms(2) by (simp add: le_less word_unat_eq_iff)
  then obtain i tk where i: "ticket_of (prods s i) = Some tk" "t_start tk \<le> tpos (mem s)"
    using mpsc_invD(5) [OF inv] unfolding tickets_ok_def by blast
  then have "t_start tk = tpos (mem s)" using ticket_bounds(2) [OF inv i(1)] by simp
  from front_publishes [OF inv i(1) this] show ?thesis by blast
qed

lemma spins_reserved:
  assumes "reachable (mpsc_init c) mpsc_step s" "spins_at (prods s i) = Some p"
  shows "tail_publish (control (mem s)) \<noteq> tail_reserve (control (mem s))"
proof -
  have inv: "mpsc_inv c s" using assms(1) by (rule mpsc_run.inv_reachable)
  obtain tk where tk: "ticket_of (prods s i) = Some tk" using assms(2) by (cases "prods s i") auto
  show ?thesis using ticket_bounds(2,3) [OF inv tk] t_start_less [of tk c] by auto
qed

theorem mpsc_concurrent_progress_witness:
  "spins_at (prods overtaken 1) = Some 48 \<and>
   (\<exists>i n s' m. mpsc_schedule (replicate n (EProduce i False)) overtaken = Some s' \<and>
     published s' = published overtaken @ [m])"
  using mpsc_concurrent_progress [OF overtaken_reachable spins_reserved [OF overtaken_reachable overtaken_run(4)]]
    overtaken_run(4) by blast

end
