(* ===== verification/SPSC_Concurrent.thy ===== *)
theory SPSC_Concurrent
  imports MPSC_Concurrent Shared_Ring_Buffer_SPSC
begin

text \<open>
  The single-producer byte ring access by access: \<open>SharedRingBufferSPSC::try_push\<close> and
  \<open>try_pop_internal\<close> cut at every load and store of shared memory, one producer and one consumer
  taking turns in any order. The places of the consumer are those of the multi-producer ring's
  (\<open>consumer\<close>); it stores \<open>head_reserve\<close> before \<open>head_publish\<close>. Unlike there, the producer publishes
  padding on its own.
\<close>

unbundle bit_operations_syntax

section \<open>The two participants\<close>

datatype sproducer =
    SLoadHead "byte list" u16
  | SLoadTail "byte list" u16 u64
  | SWrap "byte list" u16 u64 "(nat \<times> byte list) list"
  | SRecord "byte list" u16 u64 "(nat \<times> byte list) list"
  | SCount "byte list" u16 u64
  | SNumber "byte list" u16 u64 u64
  | SReserve "byte list" u16 u64 "u64 option"
  | SPublish "byte list" u16 u64 "u64 option"
  | SReturned bool

text \<open>The check of the size; the caller passes the bytes of a span, so the pointer is not null.\<close>

definition spush_entry :: "ring_state \<Rightarrow> byte list \<Rightarrow> u16 \<Rightarrow> sproducer" where
  "spush_entry st bs ty =
     (if record_size (call_size bs) > capacity st then SReturned False else SLoadHead bs ty)"

text \<open>
  The next access of the producer. \<open>SReserve\<close> and \<open>SPublish\<close> are the two stores of the tail, after
  padding (\<open>None\<close>) or after the record with the given number.
\<close>

fun sproducer_step :: "ring_state \<Rightarrow> sproducer \<Rightarrow> (ring_state \<times> sproducer) exec" where
  "sproducer_step st (SLoadHead bs ty) = Inr (st, SLoadTail bs ty (head_publish (control st)))"
| "sproducer_step st (SLoadTail bs ty head) =
     (let tail = tail_publish (control st);
          record_sz = record_size (call_size bs);
          used = tail - head
      in if used > capacity st then Inr (st, SReturned False)
         else if capacity st = 0 then Inl DivideByZero
         else let pos = tail mod capacity st;
                  remaining = capacity st - pos
              in if remaining < sizeof_RecordHeader then
                   (if used + remaining > capacity st then Inr (st, SReturned False)
                    else Inr (st, SReserve bs ty (tail + remaining) None))
                 else if remaining < record_sz then
                   (if used + remaining + record_sz > capacity st then Inr (st, SReturned False)
                    else Inr (st, SWrap bs ty (tail + remaining)
                           (if remaining \<ge> sizeof_RecordHeader then header_stores (unat pos) wrap_header else [])))
                 else if used + record_sz > capacity st then Inr (st, SReturned False)
                 else Inr (st, SRecord bs ty tail
                        (header_stores (unat pos) \<lparr>rh_size = call_size bs, rh_type = ty, rh_flags = 0, rh_sequence = 0\<rparr> @
                         payload_stores (unat pos + unat sizeof_RecordHeader) bs)))"
| "sproducer_step st (SWrap bs ty tail (x # xs)) =
     bindE (store_bytes (ring st) (fst x) (snd x)) (\<lambda>m. Inr (st\<lparr>ring := m\<rparr>, SWrap bs ty tail xs))"
| "sproducer_step st (SWrap bs ty tail []) = Inr (st, SReserve bs ty tail None)"
| "sproducer_step st (SRecord bs ty tail (x # xs)) =
     bindE (store_bytes (ring st) (fst x) (snd x)) (\<lambda>m. Inr (st\<lparr>ring := m\<rparr>, SRecord bs ty tail xs))"
| "sproducer_step st (SRecord bs ty tail []) = Inr (st, SCount bs ty tail)"
| "sproducer_step st (SCount bs ty tail) =
     (let seq = sequence (control st)
      in Inr (st\<lparr>control := (control st)\<lparr>sequence := seq + 1\<rparr>\<rparr>, SNumber bs ty tail (seq + 1)))"
| "sproducer_step st (SNumber bs ty tail seq) =
     bindE (store_rh_sequence (ring st) (tail mod capacity st) seq) (\<lambda>m.
       Inr (st\<lparr>ring := m\<rparr>, SReserve bs ty (tail + record_size (call_size bs)) (Some seq)))"
| "sproducer_step st (SReserve bs ty tail r) =
     Inr (st\<lparr>control := (control st)\<lparr>tail_reserve := tail\<rparr>\<rparr>, SPublish bs ty tail r)"
| "sproducer_step st (SPublish bs ty tail r) =
     Inr (st\<lparr>control := (control st)\<lparr>tail_publish := tail\<rparr>\<rparr>,
       case r of None \<Rightarrow> SLoadHead bs ty | Some _ \<Rightarrow> SReturned True)"
| "sproducer_step st (SReturned b) = Inr (st, SReturned b)"

fun sconsumer_step :: "ring_state \<Rightarrow> consumer \<Rightarrow> (ring_state \<times> consumer) exec" where
  "sconsumer_step st CLoadTail = Inr (st, CLoadHead (tail_publish (control st)))"
| "sconsumer_step st (CLoadHead tail) =
     (let head = head_publish (control st)
      in if head = tail then Inr (st, CReturned None)
         else if capacity st = 0 then Inl DivideByZero
         else let remaining = capacity st - head mod capacity st
              in if remaining < sizeof_RecordHeader then Inr (st, CStoreReserve (head + remaining) None)
                 else Inr (st, CFlags tail head))"
| "sconsumer_step st (CFlags tail head) =
     bindE (load_rh_flags (ring st) (head mod capacity st)) (\<lambda>flags.
       if flags AND kWrapFlag \<noteq> 0
       then Inr (st, CStoreReserve (head + (capacity st - head mod capacity st)) None)
       else Inr (st, CSize tail head))"
| "sconsumer_step st (CSize tail head) =
     bindE (load_rh_size (ring st) (head mod capacity st)) (\<lambda>payload_size.
       let record_sz = record_size payload_size
       in if record_sz > capacity st - head mod capacity st then Inr (st, CReturned None)
          else if tail - head < record_sz then Inr (st, CReturned None)
          else Inr (st, CCopy head payload_size []))"
| "sconsumer_step st (CCopy head payload_size bs) =
     (if length bs < unat payload_size
      then bindE (load_bytes (ring st)
             (unat (head mod capacity st) + unat sizeof_RecordHeader + length bs) 1) (\<lambda>b.
             Inr (st, CCopy head payload_size (bs @ b)))
      else Inr (st, CType head payload_size bs))"
| "sconsumer_step st (CType head payload_size bs) =
     bindE (load_rh_type (ring st) (head mod capacity st)) (\<lambda>ty.
       Inr (st, CSequence head payload_size bs ty))"
| "sconsumer_step st (CSequence head payload_size bs ty) =
     bindE (load_rh_sequence (ring st) (head mod capacity st)) (\<lambda>seq.
       Inr (st, CStoreReserve (head + record_size payload_size)
         (Some \<lparr>payload = bs, msg_type = ty, msg_sequence = seq\<rparr>)))"
| "sconsumer_step st (CStoreReserve head r) =
     Inr (st\<lparr>control := (control st)\<lparr>head_reserve := head\<rparr>\<rparr>, CStoreHead head r)"
| "sconsumer_step st (CStoreHead head r) =
     Inr (st\<lparr>control := (control st)\<lparr>head_publish := head\<rparr>\<rparr>,
       case r of None \<Rightarrow> CLoadTail | Some m \<Rightarrow> CReturned (Some m))"
| "sconsumer_step st (CReturned r) = Inr (st, CReturned r)"

section \<open>The system\<close>

record spsc_sys =
  smem :: ring_state
  sprod :: sproducer
  scons :: consumer
  spublished :: "message list"
  spopped :: "message list"

fun spublishes :: "sproducer \<Rightarrow> message list" where
  "spublishes (SPublish bs ty _ (Some seq)) = [\<lparr>payload = bs, msg_type = ty, msg_sequence = seq\<rparr>]"
| "spublishes _ = []"

text \<open>The tail counter does not come round: runs are followed for \<open>2^64\<close> bytes.\<close>

fun spsc_in_range :: "ring_state \<Rightarrow> sproducer \<Rightarrow> bool" where
  "spsc_in_range st (SLoadTail _ _ _) = (unat (tail_publish (control st)) + unat (capacity st) < 2 ^ 64)"
| "spsc_in_range st _ = True"

definition fresh_spsc :: "nat \<Rightarrow> spsc_sys" where
  "fresh_spsc c = \<lparr>smem = empty_ring c, sprod = SReturned False, scons = CReturned None, spublished = [], spopped = []\<rparr>"

definition spsc_init :: "nat \<Rightarrow> spsc_sys \<Rightarrow> bool" where
  "spsc_init c s \<longleftrightarrow> 0 < c \<and> c < 2 ^ 63 \<and> s = fresh_spsc c"

datatype spsc_event = SPushCall "byte list" u16 | SProduce | SPopCall | SConsume

fun spsc_access :: "spsc_event \<Rightarrow> spsc_sys \<Rightarrow> spsc_sys option" where
  "spsc_access (SPushCall bs ty) s =
     (case sprod s of
        SReturned _ \<Rightarrow> if length bs < 2 ^ 32 then Some (s\<lparr>sprod := spush_entry (smem s) bs ty\<rparr>) else None
      | _ \<Rightarrow> None)"
| "spsc_access SProduce s =
     (case sproducer_step (smem s) (sprod s) of
        Inl _ \<Rightarrow> None
      | Inr (st, p) \<Rightarrow> if spsc_in_range (smem s) (sprod s)
          then Some (s\<lparr>smem := st, sprod := p, spublished := spublished s @ spublishes (sprod s)\<rparr>) else None)"
| "spsc_access SPopCall s = (case scons s of CReturned _ \<Rightarrow> Some (s\<lparr>scons := CLoadTail\<rparr>) | _ \<Rightarrow> None)"
| "spsc_access SConsume s =
     (case sconsumer_step (smem s) (scons s) of
        Inl _ \<Rightarrow> None
      | Inr (st, k) \<Rightarrow> Some (s\<lparr>smem := st, scons := k, spopped := spopped s @ pops (scons s)\<rparr>))"

definition spsc_step :: "spsc_sys \<Rightarrow> spsc_sys \<Rightarrow> bool" where
  "spsc_step s s' \<longleftrightarrow> (\<exists>e. spsc_access e s = Some s')"

fun spsc_schedule :: "spsc_event list \<Rightarrow> spsc_sys \<Rightarrow> spsc_sys option" where
  "spsc_schedule [] s = Some s"
| "spsc_schedule (e # es) s = (case spsc_access e s of None \<Rightarrow> None | Some s' \<Rightarrow> spsc_schedule es s')"

section \<open>The invariant\<close>

text \<open>For its consumer the ring is a multi-producer ring at rest.\<close>

definition quiet :: "spsc_sys \<Rightarrow> consumer \<Rightarrow> mpsc_sys" where
  "quiet s k = \<lparr>mem = (smem s)\<lparr>control := (control (smem s))\<lparr>tail_reserve := tail_publish (control (smem s)),
       sequence := of_nat (length (spublished s))\<rparr>\<rparr>,
     prods = (\<lambda>_. PIdle), cons = k, published = spublished s, popped = spopped s\<rparr>"

lemma quiet_inv:
  "mpsc_inv c (quiet s k) \<longleftrightarrow>
     length (ring (smem s)) = c \<and> 0 < c \<and> c < 2 ^ 63 \<and> capacity (smem s) = of_nat c \<and>
     hpos (smem s) \<le> tpos (smem s) \<and> tpos (smem s) \<le> hpos (smem s) + c \<and>
     (\<exists>ms. ring_seg (ring (smem s)) (hpos (smem s)) (tpos (smem s)) ms \<and> spublished s = spopped s @ ms) \<and>
     cons_ok (ring (smem s)) (hpos (smem s)) (tpos (smem s)) k \<and>
     (\<forall>i < length (spublished s). msg_sequence (spublished s ! i) = of_nat (i + 1))"
  by (auto simp: mpsc_inv_def quiet_def geometry_ok_def tickets_ok_def numbers_ok_def Let_def)

text \<open>Before its two stores of the head the consumer knows what it will know between them.\<close>

fun undirect :: "consumer \<Rightarrow> consumer" where
  "undirect (CStoreReserve head r) = CStoreHead head r"
| "undirect k = k"

fun numbered :: "sproducer \<Rightarrow> u64 option" where
  "numbered (SNumber _ _ _ s) = Some s"
| "numbered (SReserve _ _ _ r) = r"
| "numbered (SPublish _ _ _ r) = r"
| "numbered _ = None"

text \<open>The message on the way, and what is published with the tail.\<close>

definition smsg :: "byte list \<Rightarrow> u16 \<Rightarrow> u64 \<Rightarrow> message" where
  "smsg bs ty s = \<lparr>payload = bs, msg_type = ty, msg_sequence = s\<rparr>"

definition smsgs :: "byte list \<Rightarrow> u16 \<Rightarrow> u64 option \<Rightarrow> message list" where
  "smsgs bs ty r = (case r of None \<Rightarrow> [] | Some s \<Rightarrow> [smsg bs ty s])"

text \<open>A record of \<open>bs\<close> fits at \<open>T\<close> without padding.\<close>

definition placed :: "nat \<Rightarrow> nat \<Rightarrow> nat \<Rightarrow> u64 \<Rightarrow> byte list \<Rightarrow> bool" where
  "placed c H T tail bs \<longleftrightarrow> call_ok c bs \<and> unat tail = T \<and> rec_len (length bs) \<le> room c T \<and>
     T + rec_len (length bs) \<le> H + c \<and> T + c < 2 ^ 64"

fun sprod_ok :: "memory \<Rightarrow> nat \<Rightarrow> nat \<Rightarrow> sproducer \<Rightarrow> bool" where
  "sprod_ok m H T (SLoadHead bs ty) = call_ok (length m) bs"
| "sprod_ok m H T (SLoadTail bs ty head) = (call_ok (length m) bs \<and> unat head \<le> H)"
| "sprod_ok m H T (SWrap bs ty tail ss) =
     (call_ok (length m) bs \<and> unat tail \<le> H + length m \<and> stores_in (length m) T (unat tail) ss \<and>
      ring_seg (apply_stores ss m) T (unat tail) [])"
| "sprod_ok m H T (SRecord bs ty tail ss) =
     (placed (length m) H T tail bs \<and> stores_in (length m) T (T + rec_len (length bs)) ss \<and>
      written (apply_stores ss m) T (smsg bs ty 0))"
| "sprod_ok m H T (SCount bs ty tail) = (placed (length m) H T tail bs \<and> written m T (smsg bs ty 0))"
| "sprod_ok m H T (SNumber bs ty tail s) = (placed (length m) H T tail bs \<and> written m T (smsg bs ty 0))"
| "sprod_ok m H T (SReserve bs ty tail r) =
     (call_ok (length m) bs \<and> unat tail \<le> H + length m \<and> ring_seg m T (unat tail) (smsgs bs ty r))"
| "sprod_ok m H T (SPublish bs ty tail r) =
     (call_ok (length m) bs \<and> unat tail \<le> H + length m \<and> ring_seg m T (unat tail) (smsgs bs ty r))"
| "sprod_ok m H T (SReturned b) = True"

definition counted_ok :: "u64 \<Rightarrow> nat \<Rightarrow> sproducer \<Rightarrow> bool" where
  "counted_ok q n p \<longleftrightarrow> (case numbered p of None \<Rightarrow> q = of_nat n | Some s \<Rightarrow> q = of_nat (n + 1) \<and> s = q)"

definition spsc_inv :: "nat \<Rightarrow> spsc_sys \<Rightarrow> bool" where
  "spsc_inv c s \<longleftrightarrow> mpsc_inv c (quiet s (undirect (scons s))) \<and>
     sprod_ok (ring (smem s)) (hpos (smem s)) (tpos (smem s)) (sprod s) \<and>
     counted_ok (sequence (control (smem s))) (length (spublished s)) (sprod s)"

section \<open>Steps of the producer\<close>

text \<open>A store behind the published records.\<close>

lemma quiet_store:
  assumes inv: "mpsc_inv c (quiet s k)"
    and p: "tpos (smem s) \<le> p" "p + length bs \<le> hpos (smem s) + c" "p mod c + length bs \<le> c"
  defines "m' \<equiv> mem_write (ring (smem s)) (p mod c) bs"
  shows "mpsc_inv c (quiet (s\<lparr>smem := (smem s)\<lparr>ring := m'\<rparr>, sprod := p'\<rparr>) k)" "length m' = c"
proof -
  note Q = inv [unfolded quiet_inv]
  have l: "length (ring (smem s)) = c" "0 < c" using Q by auto
  show len: "length m' = c" using p(3) l by (simp add: m'_def)
  have win: "agree (ring (smem s)) m' (hpos (smem s)) (tpos (smem s))"
    unfolding m'_def l(1) [symmetric] by (rule agree_write; (unfold l(1))?; use p l(2) in linarith)
  have "\<exists>ms. ring_seg m' (hpos (smem s)) (tpos (smem s)) ms \<and> spublished s = spopped s @ ms"
    using Q seg_agree [OF _ win] l by auto
  moreover have "cons_ok m' (hpos (smem s)) (tpos (smem s)) k"
    using Q cons_ok_frame [OF _ win order_refl] l by auto
  ultimately show "mpsc_inv c (quiet (s\<lparr>smem := (smem s)\<lparr>ring := m'\<rparr>, sprod := p'\<rparr>) k)"
    using Q len by (simp add: quiet_inv)
qed

text \<open>The store of the tail.\<close>

lemma quiet_publish:
  assumes inv: "mpsc_inv c (quiet s k)" and t: "unat tail \<le> hpos (smem s) + c"
    and seg: "ring_seg (ring (smem s)) (tpos (smem s)) (unat tail) xs"
    and num: "\<forall>i < length xs. msg_sequence (xs ! i) = of_nat (length (spublished s) + i + 1)"
  shows "mpsc_inv c (quiet (s\<lparr>smem := (smem s)\<lparr>control := (control (smem s))\<lparr>tail_publish := tail\<rparr>\<rparr>, sprod := p',
    spublished := spublished s @ xs\<rparr>) k)"
proof -
  note Q = inv [unfolded quiet_inv]
  note le = seg_le [OF seg]
  obtain ms where ms: "ring_seg (ring (smem s)) (hpos (smem s)) (tpos (smem s)) ms" "spublished s = spopped s @ ms"
    using Q by auto
  have "ring_seg (ring (smem s)) (hpos (smem s)) (unat tail) (ms @ xs)" by (rule seg_append [OF ms(1) seg])
  moreover have "cons_ok (ring (smem s)) (hpos (smem s)) (unat tail) k"
    using Q cons_ok_frame [OF _ agree_refl le] by auto
  moreover have "msg_sequence ((spublished s @ xs) ! i) = of_nat (i + 1)" if "i < length (spublished s) + length xs" for i
    using that Q num [rule_format, of "i - length (spublished s)"] by (cases "i < length (spublished s)") (auto simp: nth_append)
  ultimately show ?thesis using Q le t ms(2) by (auto simp: quiet_inv intro!: exI [of _ "ms @ xs"])
qed

text \<open>The comparisons of the producer, for a head that may be old.\<close>

lemma spsc_words:
  fixes head tail cap :: u64
  assumes c: "0 < c" "c < 2 ^ 63" "cap = of_nat c" and bs: "call_ok c bs" and le: "unat head \<le> unat tail"
    and used: "\<not> tail - head > cap" and nowrap: "unat tail + c < 2 ^ 64"
  defines "u \<equiv> unat tail - unat head" and "r \<equiv> room c (unat tail)" and "n \<equiv> rec_len (length bs)"
    and "remaining \<equiv> cap - tail mod cap"
  shows "u \<le> c" "remaining < sizeof_RecordHeader \<longleftrightarrow> r < 16" "remaining < record_size (call_size bs) \<longleftrightarrow> r < n"
    "tail - head + remaining > cap \<longleftrightarrow> u + r > c"
    "r < n \<Longrightarrow> tail - head + remaining + record_size (call_size bs) > cap \<longleftrightarrow> u + r + n > c"
    "tail - head + record_size (call_size bs) > cap \<longleftrightarrow> u + n > c"
    "unat (tail + remaining) = unat tail + r" "unat (tail + record_size (call_size bs)) = unat tail + n"
    "unat (tail mod cap) = unat tail mod c"
proof -
  have uc: "unat cap = c" using c(2,3) by (simp add: unat_of_nat_small)
  have uu: "unat (tail - head) = u" using le by (simp add: u_def unat_sub_if')
  show uc': "u \<le> c" using used uu uc by (simp add: word_less_nat_alt)
  have ur: "unat remaining = r" unfolding remaining_def r_def by (rule word_pos(2) [OF c])
  have un: "unat (record_size (call_size bs)) = n" using unat_call_size [OF bs] by (simp add: unat_record_size n_def)
  have rc: "r \<le> c" unfolding r_def by (rule room_le)
  have nc: "n \<le> c" using bs by (simp add: call_ok_def n_def)
  have n34: "n < 2 ^ 34" using rec_len_lt [of "call_size bs"] unat_call_size [OF bs] by (simp add: n_def)
  have c64: "c + c < 2 ^ 64" using c(2) by simp
  show "remaining < sizeof_RecordHeader \<longleftrightarrow> r < 16" "remaining < record_size (call_size bs) \<longleftrightarrow> r < n"
    using ur un by (simp_all add: word_less_nat_alt)
  have s1: "unat (tail - head + remaining) = u + r"
    using uu ur uc' rc c64 by (subst unat_plus_simple [THEN iffD1]) (simp_all add: word_le_nat_alt unat_plus_if')
  show "tail - head + remaining > cap \<longleftrightarrow> u + r > c" using s1 uc by (simp add: word_less_nat_alt)
  show "tail - head + record_size (call_size bs) > cap \<longleftrightarrow> u + n > c"
    using uu un uc' nc c64 uc by (simp add: word_less_nat_alt unat_plus_if')
  show "tail - head + remaining + record_size (call_size bs) > cap \<longleftrightarrow> u + r + n > c" if "r < n"
  proof -
    have "u + r + n < 2 ^ 64" using that n34 uc' c(2) by simp
    then have "unat (tail - head + remaining + record_size (call_size bs)) = u + r + n"
      using s1 un by (simp add: unat_plus_if')
    then show ?thesis using uc by (simp add: word_less_nat_alt)
  qed
  show "unat (tail + remaining) = unat tail + r" "unat (tail + record_size (call_size bs)) = unat tail + n"
    using ur un rc nc nowrap by (simp_all add: unat_plus_if')
  show "unat (tail mod cap) = unat tail mod c" by (rule word_pos(1) [OF c])
qed

lemma wrap_stores:
  assumes "0 < c" "length m = c" "16 \<le> room c T"
  shows "stores_in c T (T + room c T) (header_stores (T mod c) wrap_header)"
    "ring_seg (apply_stores (header_stores (T mod c) wrap_header) m) T (T + room c T) []"
proof -
  have place: "T mod c + 16 \<le> c" using assms(3) add_le_room [OF assms(1), of 16 T] by simp
  show "stores_in c T (T + room c T) (header_stores (T mod c) wrap_header)"
    by (rule stores_in_offsets [OF place]) (use assms(3) header_stores_offsets in auto)
  let ?m = "mem_write m (T mod c) (header_bytes wrap_header)"
  have "apply_stores (header_stores (T mod c) wrap_header) m = ?m" using place assms(2) by (simp add: apply_header_stores)
  moreover have "wrap_at ?m (T mod c)"
    using place assms(2) by (simp add: wrap_at_def header_at_write wrap_header_flags)
  moreover have "length ?m = c" using place assms(2) by simp
  ultimately show "ring_seg (apply_stores (header_stores (T mod c) wrap_header) m) T (T + room c T) []"
    using assms(3) seg_wrap [of ?m T "T + room c T" "[]"] seg_nil [of ?m "T + room c T"] by simp
qed

lemma placed_record:
  assumes "0 < c" "length m = c" "rec_len (length bs) \<le> room c T" "call_ok c bs"
  shows "stores_in c T (T + rec_len (length bs))
      (header_stores (T mod c) h @ payload_stores (T mod c + 16) bs)"
    "written (apply_stores (header_stores (T mod c) \<lparr>rh_size = call_size bs, rh_type = ty, rh_flags = 0, rh_sequence = 0\<rparr> @
      payload_stores (T mod c + 16) bs) m) T (smsg bs ty 0)"
    "fits_ring c T bs" "pad_len c T (length bs) = 0"
proof -
  show pad: "pad_len c T (length bs) = 0" using assms(3) by (simp add: pad_len_def)
  have nw: "\<not> needs_wrap c T (length bs)" using assms(3) by (simp add: needs_wrap_def)
  show "stores_in c T (T + rec_len (length bs)) (header_stores (T mod c) h @ payload_stores (T mod c + 16) bs)"
    using record_stores_in [OF assms(1,4), of T h] nw pad by (simp add: push_len_def)
  show fit: "fits_ring c T bs" using assms(1,3,4) room_le [of c T] pad by (simp add: fits_ring_def push_len_def)
  have "apply_stores (header_stores (T mod c) \<lparr>rh_size = call_size bs, rh_type = ty, rh_flags = 0, rh_sequence = 0\<rparr> @
      payload_stores (T mod c + 16) bs) m = pushed_memory m T (smsg bs ty 0)"
    using record_stores_memory [OF assms(1,2,4), of T ty] nw pad by (simp add: call_size_def smsg_def)
  then show "written (apply_stores (header_stores (T mod c) \<lparr>rh_size = call_size bs, rh_type = ty, rh_flags = 0, rh_sequence = 0\<rparr> @
      payload_stores (T mod c + 16) bs) m) T (smsg bs ty 0)"
    using length_pushed_memory [of m T "smsg bs ty 0"] fit assms(2)
    unfolding written_def by (auto simp: smsg_def)
qed

text \<open>Every access of the producer is possible and keeps the invariant.\<close>

lemma spsc_invD:
  assumes "spsc_inv c s"
  shows "mpsc_inv c (quiet s (undirect (scons s)))"
    "sprod_ok (ring (smem s)) (hpos (smem s)) (tpos (smem s)) (sprod s)"
    "counted_ok (sequence (control (smem s))) (length (spublished s)) (sprod s)"
    "length (ring (smem s)) = c" "0 < c" "c < 2 ^ 63" "capacity (smem s) = of_nat c"
    "hpos (smem s) \<le> tpos (smem s)" "tpos (smem s) \<le> hpos (smem s) + c"
  using assms by (auto simp: spsc_inv_def quiet_inv)

lemma spsc_inv_local:
  assumes "spsc_inv c s" "sprod_ok (ring (smem s)) (hpos (smem s)) (tpos (smem s)) p" "numbered p = numbered (sprod s)"
  shows "spsc_inv c (s\<lparr>sprod := p\<rparr>)"
  using assms by (auto simp: spsc_inv_def quiet_inv counted_ok_def)

lemma sproducer_load_tail:
  assumes inv: "spsc_inv c s" and at: "sprod s = SLoadTail bs ty head"
    and range: "spsc_in_range (smem s) (sprod s)"
  shows "\<exists>p. sproducer_step (smem s) (sprod s) = Inr (smem s, p) \<and> numbered p = None \<and>
    sprod_ok (ring (smem s)) (hpos (smem s)) (tpos (smem s)) p"
proof -
  note I = spsc_invD [OF inv]
  let ?tail = "tail_publish (control (smem s))" and ?cap = "capacity (smem s)"
  let ?T = "tpos (smem s)" and ?H = "hpos (smem s)"
  have bs: "call_ok c bs" and h: "unat head \<le> ?H" using I(2,4) at by auto
  show ?thesis
  proof (cases "?tail - head > ?cap")
    case True
    with at show ?thesis by simp
  next
    case False
    have uc: "unat ?cap = c" using I(6,7) by (simp add: unat_of_nat_small)
    have nowrap: "?T + c < 2 ^ 64" using range at uc by simp
    have cap: "?cap \<noteq> 0" using uc I(5) by (auto simp: unat_eq_0 [symmetric])
    note W = spsc_words [OF I(5-7) bs _ False nowrap]
    have le: "unat head \<le> ?T" using h I(8) by linarith
    note W = W [OF le]
    have room: "?T + x \<le> ?H + c" if "?T - unat head + x \<le> c" for x using that h I(8) by linarith
    have w: "\<not> ?cap - ?tail mod ?cap < sizeof_RecordHeader \<Longrightarrow> sizeof_RecordHeader \<le> ?cap - ?tail mod ?cap" by simp
    consider "room c ?T < 16" | "16 \<le> room c ?T" "room c ?T < rec_len (length bs)"
      | "16 \<le> room c ?T" "rec_len (length bs) \<le> room c ?T" by linarith
    then show ?thesis
    proof cases
      case 1
      then have "ring_seg (ring (smem s)) ?T (?T + room c ?T) []" using I(4) seg_short seg_nil by metis
      with 1 at False cap W bs room [of "room c ?T"] I(4) show ?thesis
        by (auto simp: Let_def smsgs_def)
    next
      case 2
      with at False cap W bs w room [of "room c ?T"] I(4) wrap_stores [OF I(5,4) 2(1)] show ?thesis
        by (auto simp: Let_def)
    next
      case 3
      with at False cap W bs nowrap room [of "rec_len (length bs)"] I(4) placed_record [OF I(5,4) 3(2) bs] show ?thesis
        by (auto simp: Let_def placed_def)
    qed
  qed
qed

text \<open>A store of the record or of the wrap header.\<close>

lemma sproducer_store:
  assumes inv: "spsc_inv c s" and e: "stores_in c (tpos (smem s)) e (x # xs)" "e \<le> hpos (smem s) + c"
    and ok: "\<And>m'. m' = mem_write (ring (smem s)) (fst x) (snd x) \<Longrightarrow> length m' = c \<Longrightarrow>
      stores_in c (tpos (smem s)) e xs \<Longrightarrow> sprod_ok m' (hpos (smem s)) (tpos (smem s)) p"
    and num: "numbered p = numbered (sprod s)"
  shows "\<exists>m'. store_bytes (ring (smem s)) (fst x) (snd x) = Inr m' \<and>
    spsc_inv c (s\<lparr>smem := (smem s)\<lparr>ring := m'\<rparr>, sprod := p\<rparr>)"
proof -
  note I = spsc_invD [OF inv]
  obtain k where k: "tpos (smem s) \<le> k" "k + length (snd x) \<le> e" "fst x = k mod c"
    "k mod c + length (snd x) \<le> c" "stores_in c (tpos (smem s)) e xs"
    using e(1) by (rule stores_in_ConsE)
  have "k + length (snd x) \<le> hpos (smem s) + c" using k(2) e(2) by linarith
  note Q = quiet_store [OF I(1) k(1) this k(4)]
  have "sprod_ok (mem_write (ring (smem s)) (fst x) (snd x)) (hpos (smem s)) (tpos (smem s)) p"
    by (rule ok) (use Q(2) k in auto)
  with Q(1) [of p] I(3,4) k num have "spsc_inv c (s\<lparr>smem := (smem s)\<lparr>ring := mem_write (ring (smem s)) (fst x) (snd x)\<rparr>, sprod := p\<rparr>)"
    by (simp add: spsc_inv_def counted_ok_def)
  with k I(4) show ?thesis by (simp add: store_bytes_ok)
qed

lemma sproducer_number:
  assumes inv: "spsc_inv c s" and at: "sprod s = SNumber bs ty tail q"
  shows "\<exists>m'. store_rh_sequence (ring (smem s)) (tail mod capacity (smem s)) q = Inr m' \<and>
    spsc_inv c (s\<lparr>smem := (smem s)\<lparr>ring := m'\<rparr>, sprod := SReserve bs ty (tail + record_size (call_size bs)) (Some q)\<rparr>)"
proof -
  note I = spsc_invD [OF inv]
  let ?m = "ring (smem s)" and ?T = "tpos (smem s)" and ?n = "rec_len (length bs)"
  have P: "call_ok c bs" "unat tail = ?T" "?n \<le> room c ?T" "?T + ?n \<le> hpos (smem s) + c" "?T + c < 2 ^ 64"
    and w: "written ?m ?T (smsg bs ty 0)" using I(2,4) at by (auto simp: placed_def)
  have fit: "fits_ring (length ?m) ?T (payload (smsg bs ty 0))" and pad: "pad_len c ?T (length bs) = 0"
    using placed_record(3,4) [OF I(5,4) P(3,1)] I(4) by (simp_all add: smsg_def)
  have pos: "tail mod capacity (smem s) = of_nat (?T mod c)"
    using word_pos(1) [OF I(5-7), of tail] P(2) by (metis word_of_unat)
  from written_number [OF w fit, of q] I(4,6) pad obtain
    st: "store_rh_sequence ?m (tail mod capacity (smem s)) q = Inr (mem_write ?m (?T mod c + 8) (enc64 q))"
    and place: "?T mod c + 16 \<le> c" and w': "written (mem_write ?m (?T mod c + 8) (enc64 q)) ?T (smsg bs ty q)"
    by (auto simp: smsg_def pos)
  have r: "(?T + 8) mod c = ?T mod c + 8" using place by (intro mod_add_in_block) simp
  have "?T + 8 + length (enc64 q) \<le> hpos (smem s) + c"
    using P(4) rec_len_ge [of "length bs"] unfolding length_enc by linarith
  note Q = quiet_store [OF I(1) _ this, unfolded r]
  let ?m' = "mem_write ?m (?T mod c + 8) (enc64 q)"
  have len: "length ?m' = c" using place I(4) by simp
  have "ring_seg ?m' ?T (?T + ?n) [smsg bs ty q]"
    using written_seg [OF w'] fit len I(4) pad by (simp add: smsg_def push_len_def)
  moreover have "unat (tail + record_size (call_size bs)) = ?T + ?n"
  proof -
    have "?T + ?n < 2 ^ 64" using P(1,5) by (simp add: call_ok_def)
    then show ?thesis using P(2) unat_call_size [OF P(1)] by (simp add: unat_plus_if' unat_record_size)
  qed
  ultimately have "spsc_inv c (s\<lparr>smem := (smem s)\<lparr>ring := ?m'\<rparr>, sprod := SReserve bs ty (tail + record_size (call_size bs)) (Some q)\<rparr>)"
    using Q(1) P(1,4) I(3) at len place by (simp add: spsc_inv_def smsgs_def counted_ok_def)
  with st show ?thesis by blast
qed

lemma sproducer_inv:
  assumes inv: "spsc_inv c s"
  shows "\<exists>st p. sproducer_step (smem s) (sprod s) = Inr (st, p) \<and> (spsc_in_range (smem s) (sprod s) \<longrightarrow>
    spsc_inv c (s\<lparr>smem := st, sprod := p, spublished := spublished s @ spublishes (sprod s)\<rparr>))"
proof -
  note I = spsc_invD [OF inv]
  note L = spsc_inv_local [OF inv]
  have same: "s\<lparr>smem := smem s, sprod := p, spublished := spublished s\<rparr> = s\<lparr>sprod := p\<rparr>" for p by simp
  show ?thesis
  proof (cases "sprod s")
    case (SLoadTail bs ty head)
    have cap: "capacity (smem s) \<noteq> 0" using I(5-7) by (simp add: unat_eq_0 [symmetric] unat_of_nat)
    show ?thesis
    proof (cases "spsc_in_range (smem s) (sprod s)")
      case True
      with sproducer_load_tail [OF inv SLoadTail True] SLoadTail show ?thesis using L by (auto simp: same)
    next
      case False
      with SLoadTail cap show ?thesis by (auto simp: Let_def)
    qed
  next
    case (SWrap bs ty tail ss)
    show ?thesis
    proof (cases ss)
      case Nil
      with SWrap I(2,4) L show ?thesis by (auto simp: same smsgs_def)
    next
      case (Cons x xs)
      have "\<exists>m'. store_bytes (ring (smem s)) (fst x) (snd x) = Inr m' \<and>
          spsc_inv c (s\<lparr>smem := (smem s)\<lparr>ring := m'\<rparr>, sprod := SWrap bs ty tail xs\<rparr>)"
        by (rule sproducer_store [OF inv, of "unat tail"]) (use SWrap Cons I(2,4) in auto)
      with SWrap Cons show ?thesis by auto
    qed
  next
    case (SRecord bs ty tail ss)
    show ?thesis
    proof (cases ss)
      case Nil
      with SRecord I(2,4) L show ?thesis by (auto simp: same)
    next
      case (Cons x xs)
      have "\<exists>m'. store_bytes (ring (smem s)) (fst x) (snd x) = Inr m' \<and>
          spsc_inv c (s\<lparr>smem := (smem s)\<lparr>ring := m'\<rparr>, sprod := SRecord bs ty tail xs\<rparr>)"
        by (rule sproducer_store [OF inv, of "tpos (smem s) + rec_len (length bs)"])
          (use SRecord Cons I(2,4) in \<open>auto simp: placed_def\<close>)
      with SRecord Cons show ?thesis by auto
    qed
  next
    case (SCount bs ty tail)
    then show ?thesis using inv by (auto simp: spsc_inv_def counted_ok_def quiet_inv Let_def)
  next
    case (SNumber bs ty tail q)
    with sproducer_number [OF inv SNumber] show ?thesis by auto
  next
    case (SReserve bs ty tail r)
    have "mpsc_inv c (quiet (s\<lparr>smem := (smem s)\<lparr>control := (control (smem s))\<lparr>tail_reserve := tail\<rparr>\<rparr>,
        sprod := SPublish bs ty tail r\<rparr>) (undirect (scons s)))" using I(1) by (simp add: quiet_inv)
    with I(2,3) SReserve show ?thesis by (cases r) (simp_all add: spsc_inv_def counted_ok_def)
  next
    case (SPublish bs ty tail r)
    define p where "p = (case r of None \<Rightarrow> SLoadHead bs ty | Some _ \<Rightarrow> SReturned True)"
    have P: "call_ok c bs" "unat tail \<le> hpos (smem s) + c" "ring_seg (ring (smem s)) (tpos (smem s)) (unat tail) (smsgs bs ty r)"
      using I(2,4) SPublish by auto
    have num: "\<forall>i < length (smsgs bs ty r). msg_sequence (smsgs bs ty r ! i) = of_nat (length (spublished s) + i + 1)"
      using I(3) SPublish by (auto simp: smsgs_def smsg_def counted_ok_def split: option.splits)
    have pub: "spublishes (sprod s) = smsgs bs ty r" using SPublish by (cases r) (simp_all add: smsgs_def smsg_def)
    have "counted_ok (sequence (control (smem s))) (length (spublished s @ smsgs bs ty r)) p"
      using I(3) SPublish by (auto simp: counted_ok_def p_def smsgs_def split: option.splits)
    with quiet_publish [OF I(1) P(2,3) num, of p] P(1) I(4)
    have "spsc_inv c (s\<lparr>smem := (smem s)\<lparr>control := (control (smem s))\<lparr>tail_publish := tail\<rparr>\<rparr>, sprod := p,
        spublished := spublished s @ smsgs bs ty r\<rparr>)"
      by (auto simp: spsc_inv_def p_def split: option.splits)
    with SPublish pub show ?thesis by (simp add: p_def)
  qed (use I(2,4) L inv in \<open>auto simp: same\<close>)
qed

section \<open>Steps of the consumer\<close>

text \<open>Up to the order of the stores of the head, it is the consumer of the multi-producer ring.\<close>

lemma sconsumer_step_eq:
  assumes "\<And>head r. k \<noteq> CStoreHead head r" "\<And>head r. k \<noteq> CStoreReserve head r"
  shows "(case consumer_step st k of Inl e \<Rightarrow> sconsumer_step st k = Inl e
    | Inr (st', k') \<Rightarrow> \<exists>k''. sconsumer_step st k = Inr (st', k'') \<and> undirect k'' = undirect k')"
proof (cases k)
  case (CStoreHead head r)
  with assms show ?thesis by blast
next
  case (CStoreReserve head r)
  with assms show ?thesis by blast
qed (auto simp: Let_def bindE_def split: sum.splits if_splits)

lemma consumer_step_mem:
  assumes "consumer_step st k = Inr (st', k')" "\<And>head r. k \<noteq> CStoreHead head r" "\<And>head r. k \<noteq> CStoreReserve head r"
  shows "st' = st" "undirect k' = k'"
proof -
  have "st' = st \<and> undirect k' = k'"
  proof (cases k)
    case (CStoreHead head r)
    with assms(2) show ?thesis by blast
  next
    case (CStoreReserve head r)
    with assms(3) show ?thesis by blast
  qed (use assms(1) in \<open>auto simp: Let_def bindE_def split: sum.splits if_splits\<close>)
  then show "st' = st" "undirect k' = k'" by auto
qed

text \<open>The consumer does not look at what \<open>quiet\<close> changes.\<close>

lemma consumer_step_quiet:
  assumes "consumer_step (mem (quiet s k)) k = Inr (st', k')" "\<And>head r. k \<noteq> CStoreHead head r" "\<And>head r. k \<noteq> CStoreReserve head r"
  shows "consumer_step (smem s) k = Inr (smem s, k')"
proof (cases k)
  case (CStoreHead head r)
  with assms(2) show ?thesis by blast
next
  case (CStoreReserve head r)
  with assms(3) show ?thesis by blast
qed (use assms(1) in \<open>auto simp: quiet_def Let_def bindE_def split: sum.splits if_splits\<close>)

lemma store_head_le: "cons_ok m H T (CStoreHead head r) \<Longrightarrow> H \<le> unat head"
  by (cases r) auto

lemma sconsumer_inv:
  assumes inv: "spsc_inv c s"
  shows "\<exists>st k. sconsumer_step (smem s) (scons s) = Inr (st, k) \<and>
    spsc_inv c (s\<lparr>smem := st, scons := k, spopped := spopped s @ pops (scons s)\<rparr>)"
proof -
  note I = spsc_invD [OF inv]
  show ?thesis
  proof (cases "\<exists>head r. scons s = CStoreHead head r \<or> scons s = CStoreReserve head r")
    case False
    then have u: "undirect (scons s) = scons s" and n: "\<And>head r. scons s \<noteq> CStoreHead head r"
      "\<And>head r. scons s \<noteq> CStoreReserve head r" by (cases "scons s"; auto)+
    obtain st k where k: "consumer_step (mem (quiet s (scons s))) (scons s) = Inr (st, k)"
      "mpsc_inv c ((quiet s (scons s))\<lparr>mem := st, cons := k, popped := spopped s @ pops (scons s)\<rparr>)"
      using consumer_inv [OF I(1) [unfolded u]] by (auto simp: quiet_def)
    note E = consumer_step_mem [OF k(1) n] consumer_step_quiet [OF k(1) n]
    obtain k'' where k'': "sconsumer_step (smem s) (scons s) = Inr (smem s, k'')" "undirect k'' = k"
      using sconsumer_step_eq [OF n, of "smem s"] E by auto
    have "pops (scons s) = []" using n by (cases "scons s") auto
    moreover have "mpsc_inv c (quiet (s\<lparr>scons := k''\<rparr>) (undirect k''))"
      using k(2) E(1) \<open>pops (scons s) = []\<close> k''(2) by (simp add: quiet_def)
    ultimately show ?thesis using k''(1) I(2,3) by (simp add: spsc_inv_def)
  next
    case True
    then obtain head r where "scons s = CStoreHead head r \<or> scons s = CStoreReserve head r" by blast
    then show ?thesis
    proof
      assume at: "scons s = CStoreReserve head r"
      have "mpsc_inv c (quiet (s\<lparr>smem := (smem s)\<lparr>control := (control (smem s))\<lparr>head_reserve := head\<rparr>\<rparr>,
          scons := CStoreHead head r\<rparr>) (CStoreHead head r))"
        using I(1) at by (simp add: quiet_inv)
      with at I(2,3) show ?thesis by (simp add: spsc_inv_def)
    next
      assume at: "scons s = CStoreHead head r"
      let ?st = "(smem s)\<lparr>control := (control (smem s))\<lparr>head_publish := head\<rparr>\<rparr>"
      define k where "k = (case r of None \<Rightarrow> CLoadTail | Some m \<Rightarrow> CReturned (Some m))"
      have kk: "undirect k = k" "cons_ok m H T k" for m H T by (auto simp: k_def split: option.splits)
      let ?s = "s\<lparr>smem := ?st, scons := k, spopped := spopped s @ pops (scons s)\<rparr>"
      have "mpsc_inv c (quiet s (CStoreHead head r))" using I(1) at by simp
      from consumer_inv [OF this] have S: "mpsc_inv c ((quiet s (CStoreHead head r))
          \<lparr>mem := (mem (quiet s (CStoreHead head r)))\<lparr>control := (control (mem (quiet s (CStoreHead head r))))\<lparr>head_publish := head\<rparr>\<rparr>,
           cons := CStoreReserve head r, popped := spopped s @ pops (scons s)\<rparr>)"
        using at by (simp add: quiet_def)
      have "unat head \<le> tpos (smem s)" "tpos (smem s) \<le> unat head + c"
        using mpsc_invD(1) [OF S] by (simp_all add: quiet_def geometry_ok_def)
      moreover have "\<exists>ms. ring_seg (ring (smem s)) (unat head) (tpos (smem s)) ms \<and>
          spublished s = (spopped s @ pops (scons s)) @ ms"
        using mpsc_invD(2) [OF S] by (simp add: quiet_def)
      ultimately have "mpsc_inv c (quiet ?s (undirect k))"
        using I(1) kk by (simp add: quiet_inv)
      moreover have "hpos (smem s) \<le> unat head"
        using store_head_le [of "ring (smem s)" "hpos (smem s)" "tpos (smem s)" head r] I(1) at by (simp add: quiet_inv)
      then have "sprod_ok (ring (smem s)) (unat head) (tpos (smem s)) (sprod s)"
        using I(2) by (cases "sprod s") (auto simp: placed_def)
      ultimately have "spsc_inv c ?s" using I(3) by (simp add: spsc_inv_def)
      with at show ?thesis by (simp add: k_def)
    qed
  qed
qed

interpretation spsc_run: invariant_system "spsc_init c" spsc_step "spsc_inv c" for c
proof
  show "spsc_init c s \<Longrightarrow> spsc_inv c s" for s
    by (auto simp: spsc_init_def fresh_spsc_def spsc_inv_def quiet_inv empty_ring_def counted_ok_def intro: seg_nil)
  show "spsc_inv c s'" if inv: "spsc_inv c s" and step: "spsc_step s s'" for s s'
  proof -
    note I = spsc_invD [OF inv]
    obtain e where e: "spsc_access e s = Some s'" using step by (auto simp: spsc_step_def)
    show ?thesis
    proof (cases e)
      case (SPushCall bs ty)
      then obtain b where b: "sprod s = SReturned b" "length bs < 2 ^ 32" "s' = s\<lparr>sprod := spush_entry (smem s) bs ty\<rparr>"
        using e by (auto split: sproducer.splits if_splits)
      have "unat (record_size (call_size bs)) = rec_len (length bs)"
        using b(2) by (simp add: unat_record_size call_size_def unat_of_nat)
      then have "\<not> record_size (call_size bs) > capacity (smem s) \<Longrightarrow> call_ok c bs"
        using b(2) I(6,7) by (simp add: word_less_nat_alt call_ok_def unat_of_nat)
      with b(1) I(4) show ?thesis
        unfolding b(3) by (intro spsc_inv_local [OF inv]) (auto simp: spush_entry_def)
    next
      case SProduce
      with e sproducer_inv [OF inv] show ?thesis by (auto split: if_splits)
    next
      case SPopCall
      then have "\<exists>r. scons s = CReturned r" "s' = s\<lparr>scons := CLoadTail\<rparr>" using e by (auto split: consumer.splits)
      with I(1-3) show ?thesis by (auto simp: spsc_inv_def quiet_inv)
    next
      case SConsume
      with e sconsumer_inv [OF inv] show ?thesis by auto
    qed
  qed
qed

section \<open>Properties\<close>

text \<open>
  C3. \<open>SharedRingBufferSPSC\<close> with its producer and its consumer interleaved at every access: the
  messages popped so far are the first of the messages published so far, with payloads, types and
  numbers, which count up from 1; the others are in the ring; and the next access of either side is
  possible.
\<close>

theorem spsc_concurrent_fifo:
  assumes "reachable (spsc_init c) spsc_step s"
  shows "(\<exists>rest. spublished s = spopped s @ rest \<and>
       ring_seg (ring (smem s)) (unat (head_publish (control (smem s)))) (unat (tail_publish (control (smem s)))) rest) \<and>
     map msg_sequence (spublished s) = map (\<lambda>k. of_nat (k + 1)) [0..<length (spublished s)] \<and>
     (\<exists>r. sproducer_step (smem s) (sprod s) = Inr r) \<and> (\<exists>r. sconsumer_step (smem s) (scons s) = Inr r)"
proof -
  have inv: "spsc_inv c s" using assms by (rule spsc_run.inv_reachable)
  note Q = spsc_invD(1) [OF inv, unfolded quiet_inv]
  have "map msg_sequence (spublished s) = map (\<lambda>k. of_nat (k + 1)) [0..<length (spublished s)]"
    using Q by (intro nth_equalityI) auto
  with Q sproducer_inv [OF inv] sconsumer_inv [OF inv] show ?thesis by blast
qed

text \<open>
  A run: the second message has to be wrapped around; the consumer skips the padding before the
  message is there.
\<close>

definition spsc_race :: "spsc_event list" where
  "spsc_race = SPushCall [7] 9 # replicate 12 SProduce @ SPopCall # replicate 10 SConsume @
     SPushCall [1, 2, 3] 9 # replicate 9 SProduce @ SPopCall # replicate 5 SConsume @ replicate 14 SProduce"

lemma spsc_schedule_reachable:
  assumes "spsc_init c s" "spsc_schedule es s = Some s'"
  shows "reachable (spsc_init c) spsc_step s'"
proof -
  have "spsc_schedule es s = Some s' \<Longrightarrow> spsc_step\<^sup>*\<^sup>* s s'" for s
  proof (induction es arbitrary: s)
    case (Cons e es)
    then obtain s1 where "spsc_access e s = Some s1" "spsc_schedule es s1 = Some s'" by (auto split: option.splits)
    with Cons.IH [of s1] show ?case by (auto simp: spsc_step_def intro: converse_rtranclp_into_rtranclp)
  qed simp
  with assms show ?thesis by (auto simp: reachable_def)
qed

lemma spsc_race_run:
  "map_option (\<lambda>s. (map payload (spublished s), map payload (spopped s), scons s, head_publish (control (smem s)),
       tail_publish (control (smem s)))) (spsc_schedule spsc_race (fresh_spsc 40)) =
   Some ([[7], [1, 2, 3]], [[7]], CLoadTail, 40, 64)"
  by code_simp

theorem spsc_concurrent_fifo_witness:
  "\<exists>s. spsc_schedule spsc_race (fresh_spsc 40) = Some s \<and> map payload (spublished s) = [[7], [1, 2, 3]] \<and>
     (\<exists>rest. spublished s = spopped s @ rest \<and> ring_seg (ring (smem s)) 40 64 rest)"
proof -
  obtain s where s: "spsc_schedule spsc_race (fresh_spsc 40) = Some s" "map payload (spublished s) = [[7], [1, 2, 3]]"
    "head_publish (control (smem s)) = 40" "tail_publish (control (smem s)) = 64"
    using spsc_race_run by auto
  have "spsc_init 40 (fresh_spsc 40)" by (simp add: spsc_init_def)
  from spsc_concurrent_fifo [OF spsc_schedule_reachable [OF this s(1)]] s show ?thesis by auto
qed

end
