(* ===== verification/MPMC_Steps.thy ===== *)
theory MPMC_Steps
  imports MPSC_Concurrent Shared_Ring_Buffer_MPMC
begin

text \<open>
  The multi-consumer ring access by access: \<open>SharedRingBufferMPMC::try_pop\<close> cut at every load, store
  and compare-and-swap of shared memory, any number of consumers and of producers (\<open>producer_step\<close>)
  taking turns. The constructors of \<open>mconsumer\<close> are the places in the code, with the local variables
  that are live there; a payload is copied byte by byte.

  The consumer loads the published tail before the reserved head. Another consumer may move the head
  in between, past the tail that was loaded: then the code takes whatever lies at the head for a
  record. The run \<open>stale_tail\<close> shows it.
\<close>

unbundle bit_operations_syntax

section \<open>Consumers\<close>

datatype mconsumer =
    MIdle
  | MLoadTail
  | MLoadHead u64
  | MFlags u64 u64
  | MSize u64 u64
  | MReserve u64 u64 "u32 option"
  | MCopy u64 u64 u32 "byte list"
  | MType u64 u64 "byte list"
  | MSequence u64 u64 "byte list" u16
  | MSpin u64 u64 "message option"
  | MStoreHead u64 u64 "message option"
  | MReturned "message option"

text \<open>
  The next access of a consumer. \<open>MReserve head new_head r\<close> is at the compare-and-swap, for padding
  (\<open>r = None\<close>) or for a record with the given payload size; \<open>spurious\<close> says whether it fails although
  the value is the expected one.
\<close>

fun mconsumer_step :: "bool \<Rightarrow> ring_state \<Rightarrow> mconsumer \<Rightarrow> (ring_state \<times> mconsumer) exec" where
  "mconsumer_step spurious st MIdle = Inr (st, MIdle)"
| "mconsumer_step spurious st MLoadTail = Inr (st, MLoadHead (tail_publish (control st)))"
| "mconsumer_step spurious st (MLoadHead tail) =
     (let head = head_reserve (control st)
      in if head = tail then Inr (st, MReturned None)
         else if capacity st = 0 then Inl DivideByZero
         else let remaining = capacity st - head mod capacity st;
                  available = tail - head
              in if remaining < sizeof_RecordHeader then
                   (if available < remaining then Inr (st, MReturned None)
                    else Inr (st, MReserve head (head + remaining) None))
                 else if available < sizeof_RecordHeader then Inr (st, MReturned None)
                 else Inr (st, MFlags tail head))"
| "mconsumer_step spurious st (MFlags tail head) =
     bindE (load_rh_flags (ring st) (head mod capacity st)) (\<lambda>flags.
       if flags AND kWrapFlag \<noteq> 0 then
         let remaining = capacity st - head mod capacity st
         in if tail - head < remaining then Inr (st, MReturned None)
            else Inr (st, MReserve head (head + remaining) None)
       else Inr (st, MSize tail head))"
| "mconsumer_step spurious st (MSize tail head) =
     bindE (load_rh_size (ring st) (head mod capacity st)) (\<lambda>payload_size.
       let record_sz = record_size payload_size
       in if record_sz > capacity st - head mod capacity st then Inr (st, MReturned None)
          else if tail - head < record_sz then Inr (st, MReturned None)
          else Inr (st, MReserve head (head + record_sz) (Some payload_size)))"
| "mconsumer_step spurious st (MReserve head new_head r) =
     (if head_reserve (control st) = head \<and> \<not> spurious
      then Inr (st\<lparr>control := (control st)\<lparr>head_reserve := new_head\<rparr>\<rparr>,
        case r of None \<Rightarrow> MSpin head new_head None
        | Some payload_size \<Rightarrow> MCopy head new_head payload_size [])
      else Inr (st, MLoadTail))"
| "mconsumer_step spurious st (MCopy head new_head payload_size bs) =
     (if length bs < unat payload_size
      then bindE (load_bytes (ring st)
             (unat (head mod capacity st) + unat sizeof_RecordHeader + length bs) 1) (\<lambda>b.
             Inr (st, MCopy head new_head payload_size (bs @ b)))
      else Inr (st, MType head new_head bs))"
| "mconsumer_step spurious st (MType head new_head bs) =
     bindE (load_rh_type (ring st) (head mod capacity st)) (\<lambda>ty.
       Inr (st, MSequence head new_head bs ty))"
| "mconsumer_step spurious st (MSequence head new_head bs ty) =
     bindE (load_rh_sequence (ring st) (head mod capacity st)) (\<lambda>seq.
       Inr (st, MSpin head new_head (Some \<lparr>payload = bs, msg_type = ty, msg_sequence = seq\<rparr>)))"
| "mconsumer_step spurious st (MSpin head new_head r) =
     Inr (st, if head_publish (control st) = head then MStoreHead head new_head r else MSpin head new_head r)"
| "mconsumer_step spurious st (MStoreHead head new_head r) =
     Inr (st\<lparr>control := (control st)\<lparr>head_publish := new_head\<rparr>\<rparr>,
       case r of None \<Rightarrow> MLoadTail | Some m \<Rightarrow> MReturned (Some m))"
| "mconsumer_step spurious st (MReturned r) = Inr (st, MReturned r)"

section \<open>The system\<close>

text \<open>
  \<open>mpublished\<close> records the message of each producer at its store of \<open>tail_publish\<close>, \<open>mpopped\<close> what
  each consumer has read at its store of \<open>head_publish\<close>.
\<close>

record mpmc_sys =
  mmem :: ring_state
  mprods :: "nat \<Rightarrow> producer"
  mcons :: "nat \<Rightarrow> mconsumer"
  mpublished :: "message list"
  mpopped :: "message list"

fun midle :: "mconsumer \<Rightarrow> bool" where
  "midle MIdle = True"
| "midle (MReturned _) = True"
| "midle _ = False"

fun mpops :: "mconsumer \<Rightarrow> message list" where
  "mpops (MStoreHead _ _ (Some m)) = [m]"
| "mpops _ = []"

definition fresh_mpmc :: "nat \<Rightarrow> mpmc_sys" where
  "fresh_mpmc c = \<lparr>mmem = empty_ring c, mprods = (\<lambda>_. PIdle), mcons = (\<lambda>_. MIdle), mpublished = [], mpopped = []\<rparr>"

datatype mpmc_event = MPush nat "byte list" u16 | MProduce nat bool | MPop nat | MConsume nat bool

fun mpmc_access :: "mpmc_event \<Rightarrow> mpmc_sys \<Rightarrow> mpmc_sys option" where
  "mpmc_access (MPush i bs ty) s =
     (if idle (mprods s i) \<and> length bs < 2 ^ 32
      then Some (s\<lparr>mprods := (mprods s)(i := push_entry (mmem s) bs ty)\<rparr>) else None)"
| "mpmc_access (MProduce i spurious) s =
     (case producer_step spurious (mmem s) (mprods s i) of
        Inl _ \<Rightarrow> None
      | Inr (st, p) \<Rightarrow> if in_range (mprods s i)
          then Some (s\<lparr>mmem := st, mprods := (mprods s)(i := p), mpublished := mpublished s @ publishes (mprods s i)\<rparr>)
          else None)"
| "mpmc_access (MPop j) s =
     (if midle (mcons s j) then Some (s\<lparr>mcons := (mcons s)(j := MLoadTail)\<rparr>) else None)"
| "mpmc_access (MConsume j spurious) s =
     (case mconsumer_step spurious (mmem s) (mcons s j) of
        Inl _ \<Rightarrow> None
      | Inr (st, k) \<Rightarrow> Some (s\<lparr>mmem := st, mcons := (mcons s)(j := k), mpopped := mpopped s @ mpops (mcons s j)\<rparr>))"

fun mpmc_schedule :: "mpmc_event list \<Rightarrow> mpmc_sys \<Rightarrow> mpmc_sys option" where
  "mpmc_schedule [] s = Some s"
| "mpmc_schedule (e # es) s = (case mpmc_access e s of None \<Rightarrow> None | Some s' \<Rightarrow> mpmc_schedule es s')"

section \<open>A head beyond the tail\<close>

text \<open>
  Consumer 0 loads the tail of the empty ring; a producer pushes one message and consumer 1 pops it;
  consumer 0 goes on.
\<close>

definition stale_tail :: "mpmc_event list" where
  "stale_tail = [MPop 0, MConsume 0 False, MPush 0 [7] 9] @ replicate 13 (MProduce 0 False) @
     MPop 1 # replicate 11 (MConsume 1 False) @ replicate 9 (MConsume 0 False)"

definition empty_message :: message where
  "empty_message = \<lparr>payload = [], msg_type = 0, msg_sequence = 0\<rparr>"

lemma stale_tail_run:
  "map_option (\<lambda>s. (mpublished s, mpopped s, mcons s 0, control (mmem s), capacity (mmem s)))
     (mpmc_schedule stale_tail (fresh_mpmc 64)) =
   Some ([\<lparr>payload = [7], msg_type = 9, msg_sequence = 1\<rparr>],
     [\<lparr>payload = [7], msg_type = 9, msg_sequence = 1\<rparr>, empty_message], MReturned (Some empty_message),
     \<lparr>head_reserve = 40, head_publish = 40, tail_reserve = 24, tail_publish = 24, sequence = 1\<rparr>, 64)"
  by code_simp

text \<open>A ring whose head has passed its tail refuses every message.\<close>

lemma passed_head_refuses:
  assumes "tail_reserve (control st) - head_publish (control st) > capacity st"
  shows "try_push fails st data sz ty = Some (Inr (False, st))"
proof -
  have "reserve_body (record_size sz) (fails, st) = Inr (Inr (None, st))" for sz
    using assms by (simp add: reserve_body_def Let_def)
  then show ?thesis by (simp add: try_push_def Let_def run_loop_exit)
qed

text \<open>
  C31. There is an interleaving in which \<open>SharedRingBufferMPMC\<close> returns a message that nobody pushed, and is
  unusable from then on. On a ring of 64 bytes, a consumer loads the tail and is overtaken by a push and
  by another consumer's pop before it loads the head; nothing else has been pushed, and it returns true
  with an empty message. The head is now beyond the tail, and every later push is refused although the
  ring is empty.
\<close>

theorem mpmc_stale_tail:
  "\<exists>s. mpmc_schedule stale_tail (fresh_mpmc 64) = Some s \<and> mcons s 0 = MReturned (Some empty_message) \<and>
     mpopped s = mpublished s @ [empty_message] \<and>
     (\<forall>fails bs ty. try_push fails (mmem s) (Some bs) (of_nat (length bs)) ty = Some (Inr (False, mmem s)))"
proof -
  obtain s where s: "mpmc_schedule stale_tail (fresh_mpmc 64) = Some s" "mcons s 0 = MReturned (Some empty_message)"
    "mpopped s = mpublished s @ [empty_message]" "capacity (mmem s) = 64"
    "control (mmem s) = \<lparr>head_reserve = 40, head_publish = 40, tail_reserve = 24, tail_publish = 24, sequence = 1\<rparr>"
    using stale_tail_run by auto
  then show ?thesis by (auto intro!: passed_head_refuses)
qed

end
