(* ===== verification/MPMC_Concurrent.thy ===== *)
theory MPMC_Concurrent
  imports MPMC_Steps
begin

text \<open>
  Any number of producers and of consumers on one ring, access by access, as long as no consumer
  loads a head beyond the tail that it has loaded before: what the consumers take out is what was
  published, whole, in order and once each, and no access is out of bounds. The invariant is that of
  the multi-producer ring, with a reserved head between the published head and the tail.
\<close>

section \<open>Runs without a stale tail\<close>

fun fresh_tail :: "mpmc_event \<Rightarrow> mpmc_sys \<Rightarrow> bool" where
  "fresh_tail (MConsume j _) s =
     (case mcons s j of MLoadHead tail \<Rightarrow> head_reserve (control (mmem s)) \<le> tail | _ \<Rightarrow> True)"
| "fresh_tail _ s = True"

definition mpmc_init :: "nat \<Rightarrow> mpmc_sys \<Rightarrow> bool" where
  "mpmc_init c s \<longleftrightarrow> 0 < c \<and> c < 2 ^ 63 \<and> s = fresh_mpmc c"

definition mpmc_fresh_step :: "mpmc_sys \<Rightarrow> mpmc_sys \<Rightarrow> bool" where
  "mpmc_fresh_step s s' \<longleftrightarrow> (\<exists>e. fresh_tail e s \<and> mpmc_access e s = Some s')"

section \<open>The invariant\<close>

abbreviation hres :: "ring_state \<Rightarrow> nat" where "hres st \<equiv> unat (head_reserve (control st))"

text \<open>The system without its consumers is that of the multi-producer ring.\<close>

definition as_mpsc :: "mpmc_sys \<Rightarrow> mpsc_sys" where
  "as_mpsc s = \<lparr>mem = mmem s, prods = mprods s, cons = CReturned None, published = mpublished s, popped = mpopped s\<rparr>"

lemma as_mpsc_simps [simp]:
  "mem (as_mpsc s) = mmem s" "prods (as_mpsc s) = mprods s" "published (as_mpsc s) = mpublished s"
  "popped (as_mpsc s) = mpopped s" "cons (as_mpsc s) = CReturned None"
  by (simp_all add: as_mpsc_def)

definition boundary :: "memory \<Rightarrow> nat \<Rightarrow> nat \<Rightarrow> bool" where
  "boundary m H x \<longleftrightarrow> (\<exists>ms. ring_seg m H x ms)"

text \<open>What a consumer found at a head \<open>a\<close> holds while \<open>a\<close> is the reserved head \<open>R\<close>.\<close>

definition while_current :: "nat \<Rightarrow> u64 \<Rightarrow> bool \<Rightarrow> bool" where
  "while_current R a P \<longleftrightarrow> unat a \<le> R \<and> (unat a = R \<longrightarrow> P)"

definition owned :: "memory \<Rightarrow> nat \<Rightarrow> nat \<Rightarrow> u64 \<Rightarrow> u64 \<Rightarrow> bool" where
  "owned m H R a b \<longleftrightarrow> H \<le> unat a \<and> unat a < unat b \<and> unat b \<le> R \<and> boundary m H (unat a)"

fun mticket :: "mconsumer \<Rightarrow> (u64 \<times> u64) option" where
  "mticket (MCopy a b _ _) = Some (a, b)"
| "mticket (MType a b _) = Some (a, b)"
| "mticket (MSequence a b _ _) = Some (a, b)"
| "mticket (MSpin a b _) = Some (a, b)"
| "mticket (MStoreHead a b _) = Some (a, b)"
| "mticket _ = None"

fun mcons_ok :: "memory \<Rightarrow> nat \<Rightarrow> nat \<Rightarrow> nat \<Rightarrow> mconsumer \<Rightarrow> bool" where
  "mcons_ok m H R T (MLoadHead tail) = (unat tail \<le> T \<and> (H \<le> unat tail \<longrightarrow> boundary m H (unat tail)))"
| "mcons_ok m H R T (MFlags tail a) =
     (16 \<le> room (length m) (unat a) \<and> while_current R a (cons_ok m R T (CFlags tail a)))"
| "mcons_ok m H R T (MSize tail a) =
     (16 \<le> room (length m) (unat a) \<and> while_current R a (cons_ok m R T (CSize tail a)))"
| "mcons_ok m H R T (MReserve a b None) = while_current R a (cons_ok m R T (CStoreHead b None))"
| "mcons_ok m H R T (MReserve a b (Some sz)) =
     (b = a + record_size sz \<and> while_current R a (cons_ok m R T (CCopy a sz [])))"
| "mcons_ok m H R T (MCopy a b sz bs) =
     (owned m H R a b \<and> b = a + record_size sz \<and> cons_ok m (unat a) T (CCopy a sz bs))"
| "mcons_ok m H R T (MType a b bs) =
     (owned m H R a b \<and> b = a + record_size (of_nat (length bs)) \<and>
      cons_ok m (unat a) T (CType a (of_nat (length bs)) bs))"
| "mcons_ok m H R T (MSequence a b bs ty) =
     (owned m H R a b \<and> b = a + record_size (of_nat (length bs)) \<and>
      cons_ok m (unat a) T (CSequence a (of_nat (length bs)) bs ty))"
| "mcons_ok m H R T (MSpin a b r) = (owned m H R a b \<and> cons_ok m (unat a) T (CStoreHead b r))"
| "mcons_ok m H R T (MStoreHead a b r) =
     (owned m H R a b \<and> unat a = H \<and> cons_ok m (unat a) T (CStoreHead b r))"
| "mcons_ok m H R T _ = True"

definition mtickets_ok :: "(nat \<Rightarrow> mconsumer) \<Rightarrow> bool" where
  "mtickets_ok K \<longleftrightarrow> (\<forall>i j a b a' b'. i \<noteq> j \<longrightarrow> mticket (K i) = Some (a, b) \<longrightarrow> mticket (K j) = Some (a', b') \<longrightarrow>
     unat b \<le> unat a' \<or> unat b' \<le> unat a)"

definition mpmc_inv :: "nat \<Rightarrow> mpmc_sys \<Rightarrow> bool" where
  "mpmc_inv c s \<longleftrightarrow> mpsc_inv c (as_mpsc s) \<and>
     hpos (mmem s) \<le> hres (mmem s) \<and> hres (mmem s) \<le> tpos (mmem s) \<and>
     boundary (ring (mmem s)) (hpos (mmem s)) (hres (mmem s)) \<and>
     (\<forall>j. mcons_ok (ring (mmem s)) (hpos (mmem s)) (hres (mmem s)) (tpos (mmem s)) (mcons s j)) \<and>
     mtickets_ok (mcons s)"

lemma mpmc_invD:
  assumes "mpmc_inv c s"
  shows "mpsc_inv c (as_mpsc s)" "hpos (mmem s) \<le> hres (mmem s)" "hres (mmem s) \<le> tpos (mmem s)"
    "boundary (ring (mmem s)) (hpos (mmem s)) (hres (mmem s))"
    "mcons_ok (ring (mmem s)) (hpos (mmem s)) (hres (mmem s)) (tpos (mmem s)) (mcons s j)" "mtickets_ok (mcons s)"
    "length (ring (mmem s)) = c" "0 < length (ring (mmem s))"
  using assms geometry_okD(1,2) [OF mpsc_invD(1), of c "as_mpsc s"] by (auto simp: mpmc_inv_def)

section \<open>Boundaries\<close>

text \<open>Two readings of the ring from one position agree: an earlier end is a boundary of the later.\<close>

lemma seg_split:
  assumes "ring_seg m a b xs" "ring_seg m a t ms" "b \<le> t" "0 < length m"
  shows "\<exists>ys. ring_seg m b t ys \<and> ms = xs @ ys"
  using assms
proof (induction arbitrary: ms rule: ring_seg.induct)
  case (seg_nil h)
  then show ?case by auto
next
  case (seg_short h t' xs)
  have "h \<noteq> t" using seg_le [OF seg_short.hyps(2)] seg_short.prems(2,3) room_pos [of "length m" h] by linarith
  with seg_short seg_short_next [of m h t ms] show ?case by blast
next
  case (seg_wrap h t' xs)
  have "h \<noteq> t" using seg_le [OF seg_wrap.hyps(3)] seg_wrap.prems(2,3) room_pos [of "length m" h] by linarith
  with seg_wrap seg_wrap_next [of m h t ms] show ?case by blast
next
  case (seg_rec x h t' xs)
  note ge = rec_len_ge [of "length (payload x)"]
  have ne: "h \<noteq> t" using seg_le [OF seg_rec.hyps(3)] seg_rec.prems(2) ge by linarith
  have room: "16 \<le> room (length m) h" using seg_rec.hyps(1) ge by linarith
  have nw: "\<not> wrap_at m (h mod length m)" using seg_rec.hyps(2) by (simp add: rec_at_def)
  obtain y ys where y: "ms = y # ys" "rec_len (length (payload y)) \<le> room (length m) h"
    "rec_at m (h mod length m) y" "ring_seg m (h + rec_len (length (payload y))) t ys"
    by (rule seg_rec_next [OF seg_rec.prems(1) ne room nw])
  have "y = x" using rec_at_unique [OF y(3) seg_rec.hyps(2)] .
  with seg_rec.IH [of ys] y seg_rec.prems(2,3) show ?case by auto
qed

lemma boundary_split: "boundary m H x \<Longrightarrow> boundary m H y \<Longrightarrow> x \<le> y \<Longrightarrow> 0 < length m \<Longrightarrow> boundary m x y"
  unfolding boundary_def using seg_split by blast

lemma boundary_trans: "boundary m H x \<Longrightarrow> boundary m x y \<Longrightarrow> boundary m H y"
  unfolding boundary_def using seg_append by blast

lemma boundary_agree:
  "boundary m H x \<Longrightarrow> agree m m' H T \<Longrightarrow> x \<le> T \<Longrightarrow> 0 < length m \<Longrightarrow> boundary m' H x"
  unfolding boundary_def using seg_agree [OF _ agree_sub [of m m' H T H x]] by auto

lemma boundary_tail: "mpmc_inv c s \<Longrightarrow> boundary (ring (mmem s)) (hpos (mmem s)) (tpos (mmem s))"
  using mpsc_invD(2) [OF mpmc_invD(1)] by (auto simp: boundary_def)

text \<open>The end of what stands at a head.\<close>

lemma store_head_end:
  assumes "cons_ok m H T (CStoreHead b r)" "0 < length m"
  shows "H < unat b" "unat b \<le> T" "boundary m H (unat b)"
proof -
  have "H < unat b \<and> unat b \<le> T \<and> boundary m H (unat b)"
  proof (cases r)
    case None
    then have r: "skip_ready m H T" "unat b = H + room (length m) H" using assms(1) by auto
    then have "ring_seg m H (unat b) []"
      by (auto simp: skip_ready_def intro: ring_seg.intros)
    with r room_pos [OF assms(2), of H] show ?thesis by (auto simp: skip_ready_def boundary_def)
  next
    case (Some x)
    then have r: "rec_ready m H T x" "unat b = H + rec_len (length (payload x))" using assms(1) by auto
    then have "ring_seg m H (unat b) [x]" by (auto simp: rec_ready_def intro: ring_seg.intros)
    moreover have "0 < rec_len (length (payload x))" using rec_len_bounds(1) [of "length (payload x)"] by linarith
    ultimately show ?thesis using r by (auto simp: rec_ready_def boundary_def)
  qed
  then show "H < unat b" "unat b \<le> T" "boundary m H (unat b)" by auto
qed

lemma copy_end:
  assumes "cons_ok m (unat a) T (CCopy a sz bs)" "T < 2 ^ 64"
  shows "\<exists>x. rec_ready m (unat a) T x \<and> unat (a + record_size sz) = unat a + rec_len (length (payload x))"
proof -
  obtain x where x: "rec_ready m (unat a) T x" "unat sz = length (payload x)" using assms(1) by auto
  moreover have "unat (a + record_size sz) = unat a + rec_len (length (payload x))"
    using x assms(2) by (simp add: unat_plus_if' unat_record_size rec_ready_def)
  ultimately show ?thesis by blast
qed

section \<open>What the others see\<close>

lemma mcons_ok_frame:
  assumes ok: "mcons_ok m H R T k" and ag: "agree m m' H T" "T \<le> T'" "0 < length m" and le: "H \<le> R" "R \<le> T"
  shows "mcons_ok m' H R T' k"
proof -
  have l: "length m' = length m" using ag(1) by (simp add: agree_def)
  have b: "boundary m H x \<Longrightarrow> x \<le> T \<Longrightarrow> boundary m' H x" for x
    using boundary_agree [OF _ ag(1)] ag(3) by blast
  have C: "cons_ok m H' T p \<Longrightarrow> H \<le> H' \<Longrightarrow> cons_ok m' H' T' p" for H' p
    using cons_ok_frame [OF _ agree_sub [OF ag(1)] ag(2,3)] by blast
  have W: "while_current R a (cons_ok m R T p) \<Longrightarrow> while_current R a (cons_ok m' R T' p)" for a p
    using C le(1) by (auto simp: while_current_def)
  have O: "owned m H R a d \<Longrightarrow> owned m' H R a d" for a d using b le by (auto simp: owned_def)
  have P: "owned m H R a d \<Longrightarrow> cons_ok m (unat a) T p \<Longrightarrow> cons_ok m' (unat a) T' p" for a d p
    using C by (simp add: owned_def)
  show ?thesis
  proof (cases k)
    case (MReserve a d r)
    then show ?thesis using ok W by (cases r) (auto simp del: cons_ok.simps)
  next
    case (MSpin a d r)
    then show ?thesis using ok O P [of a d] by (auto simp del: cons_ok.simps)
  next
    case (MStoreHead a d r)
    then show ?thesis using ok O P [of a d] by (auto simp del: cons_ok.simps)
  qed (use ok b O P W ag(2) l in \<open>auto simp del: cons_ok.simps\<close>)
qed

text \<open>Another consumer reserves.\<close>

lemma mcons_ok_reserve: "mcons_ok m H R T k \<Longrightarrow> R < R' \<Longrightarrow> mcons_ok m H R' T k"
  by (cases k rule: mticket.cases; (auto simp: while_current_def owned_def simp del: cons_ok.simps)?)
    (erule mcons_ok.elims; auto simp: while_current_def owned_def simp del: cons_ok.simps)

text \<open>Another consumer publishes the head.\<close>

lemma mcons_ok_head:
  assumes ok: "mcons_ok m H R T k" and b: "boundary m H H'" "H < H'" "0 < length m"
    and tk: "\<And>a d. mticket k = Some (a, d) \<Longrightarrow> H' \<le> unat a"
  shows "mcons_ok m H' R T k"
proof -
  have S: "boundary m H x \<Longrightarrow> H' \<le> x \<Longrightarrow> boundary m H' x" for x using boundary_split [OF b(1) _ _ b(3)] by blast
  have O: "owned m H R a d \<Longrightarrow> H' \<le> unat a \<Longrightarrow> owned m H' R a d" for a d using S by (auto simp: owned_def)
  show ?thesis
  proof (cases k)
    case (MReserve a d r)
    then show ?thesis using ok by (cases r) (auto simp del: cons_ok.simps)
  next
    case (MStoreHead a d r)
    then show ?thesis using ok tk b(2) by auto
  qed (use ok tk S O b(2) in \<open>auto simp del: cons_ok.simps\<close>)
qed

section \<open>Steps\<close>

lemma mpmc_producer_inv:
  assumes inv: "mpmc_inv c s"
  shows "\<exists>st p. producer_step spurious (mmem s) (mprods s i) = Inr (st, p) \<and>
    (in_range (mprods s i) \<longrightarrow> mpmc_inv c
      (s\<lparr>mmem := st, mprods := (mprods s)(i := p), mpublished := mpublished s @ publishes (mprods s i)\<rparr>))"
proof -
  note I = mpmc_invD [OF inv]
  obtain st p where st: "producer_step spurious (mmem s) (mprods s i) = Inr (st, p)"
    "in_range (mprods s i) \<longrightarrow> mpsc_inv c ((as_mpsc s)\<lparr>mem := st, prods := (mprods s)(i := p),
       published := mpublished s @ publishes (mprods s i)\<rparr>)"
    using producer_inv [OF I(1), of spurious i] by auto
  note F = producer_frame [OF I(1), unfolded as_mpsc_simps, OF st(1)]
  let ?s = "s\<lparr>mmem := st, mprods := (mprods s)(i := p), mpublished := mpublished s @ publishes (mprods s i)\<rparr>"
  have eq: "as_mpsc ?s = (as_mpsc s)\<lparr>mem := st, prods := (mprods s)(i := p),
      published := mpublished s @ publishes (mprods s i)\<rparr>" by (simp add: as_mpsc_def)
  have "mpmc_inv c ?s" if "in_range (mprods s i)"
    unfolding mpmc_inv_def eq
    using st(2) that I(2-6) F mcons_ok_frame [OF I(5) F(1,2) I(8,2,3)] boundary_agree [OF I(4) F(1) I(3,8)]
    by auto
  with st(1) show ?thesis by blast
qed

lemma mtickets_ok_update:
  assumes ok: "mtickets_ok K" and tk: "mticket k = None \<or> mticket k = mticket (K j)"
  shows "mtickets_ok (K(j := k))"
  unfolding mtickets_ok_def
proof (intro allI impI)
  fix x y a b a' b'
  assume ne: "x \<noteq> y" and *: "mticket ((K(j := k)) x) = Some (a, b)" "mticket ((K(j := k)) y) = Some (a', b')"
  have "mticket (K x) = Some (a, b)" "mticket (K y) = Some (a', b')" using * tk by (auto split: if_splits)
  with ok ne show "unat b \<le> unat a' \<or> unat b' \<le> unat a" unfolding mtickets_ok_def by blast
qed

lemma mpmc_inv_local:
  assumes inv: "mpmc_inv c s"
    and ok: "mcons_ok (ring (mmem s)) (hpos (mmem s)) (hres (mmem s)) (tpos (mmem s)) k"
    and tk: "mticket k = None \<or> mticket k = mticket (mcons s j)"
  shows "mpmc_inv c (s\<lparr>mcons := (mcons s)(j := k)\<rparr>)"
proof -
  have eq: "as_mpsc (s\<lparr>mcons := (mcons s)(j := k)\<rparr>) = as_mpsc s" by (simp add: as_mpsc_def)
  have "mtickets_ok ((mcons s)(j := k))"
    by (rule mtickets_ok_update [OF mpmc_invD(6) [OF inv] tk])
  then show ?thesis unfolding mpmc_inv_def eq using mpmc_invD(1-5) [OF inv] ok by auto
qed

text \<open>A consumer at the boundary \<open>a\<close> is a consumer of the multi-producer ring whose head is at \<open>a\<close>.\<close>

definition shifted :: "mpmc_sys \<Rightarrow> u64 \<Rightarrow> consumer \<Rightarrow> message list \<Rightarrow> mpsc_sys" where
  "shifted s a k xs = (as_mpsc s)\<lparr>mem := (mmem s)\<lparr>control := (control (mmem s))\<lparr>head_publish := a\<rparr>\<rparr>,
     popped := mpopped s @ xs, cons := k\<rparr>"

lemma shifted_simps [simp]:
  "mem (shifted s a k xs) = (mmem s)\<lparr>control := (control (mmem s))\<lparr>head_publish := a\<rparr>\<rparr>"
  "cons (shifted s a k xs) = k" "popped (shifted s a k xs) = mpopped s @ xs"
  by (simp_all add: shifted_def)

lemma shifted_inv:
  assumes inv: "mpmc_inv c s" and a: "boundary (ring (mmem s)) (hpos (mmem s)) (unat a)" "unat a \<le> tpos (mmem s)"
    and ok: "cons_ok (ring (mmem s)) (unat a) (tpos (mmem s)) k"
  obtains xs where "mpsc_inv c (shifted s a k xs)"
proof -
  note I = mpmc_invD [OF inv]
  let ?m = "ring (mmem s)" and ?H = "hpos (mmem s)" and ?T = "tpos (mmem s)"
  obtain ms where ms: "ring_seg ?m ?H ?T ms" "mpublished s = mpopped s @ ms"
    using mpsc_invD(2) [OF I(1)] by auto
  obtain xs where xs: "ring_seg ?m ?H (unat a) xs" using a(1) by (auto simp: boundary_def)
  obtain ys where ys: "ring_seg ?m (unat a) ?T ys" "ms = xs @ ys" using seg_split [OF xs ms(1) a(2) I(8)] by blast
  have "mpsc_inv c ((as_mpsc s)\<lparr>mem := (mmem s)\<lparr>control := (control (mmem s))\<lparr>head_publish := a\<rparr>\<rparr>,
      cons := CStoreReserve a None, popped := mpopped s @ xs\<rparr>)"
    using inv_head [OF I(1), of a ys xs None] a(2) ys ms(2) seg_le [OF xs] by simp
  from inv_cons_local [OF this, of k] ok that [of xs] show ?thesis by (simp add: shifted_def)
qed

text \<open>The steps before the compare-and-swap.\<close>

lemma mconsumer_load_head:
  assumes inv: "mpmc_inv c s" and at: "mcons s j = MLoadHead tail" and fresh: "head_reserve (control (mmem s)) \<le> tail"
  shows "\<exists>k. mconsumer_step spurious (mmem s) (mcons s j) = Inr (mmem s, k) \<and> mticket k = None \<and>
    mcons_ok (ring (mmem s)) (hpos (mmem s)) (hres (mmem s)) (tpos (mmem s)) k"
proof -
  note I = mpmc_invD [OF inv]
  let ?m = "ring (mmem s)" and ?H = "hpos (mmem s)" and ?R = "hres (mmem s)" and ?T = "tpos (mmem s)"
  let ?head = "head_reserve (control (mmem s))"
  have le: "?R \<le> unat tail" using fresh by (simp add: word_le_nat_alt)
  then have "boundary ?m ?H (unat tail)" "unat tail \<le> ?T" using I(5) [of j] at I(2) by auto
  then have "boundary ?m ?R (unat tail)" using boundary_split [OF I(4) _ le I(8)] by blast
  then have ok: "cons_ok ?m ?R ?T (CLoadHead tail)" using \<open>unat tail \<le> ?T\<close> by (auto simp: seen_tail_def boundary_def)
  obtain xs where S: "mpsc_inv c (shifted s ?head (CLoadHead tail) xs)" by (rule shifted_inv [OF inv I(4,3) ok])
  from consumer_load_head [OF S shifted_simps(2)] obtain k where
    k: "consumer_step (mem (shifted s ?head (CLoadHead tail) xs)) (CLoadHead tail) =
      Inr (mem (shifted s ?head (CLoadHead tail) xs), k)" "cons_ok ?m ?R ?T k" by auto
  show ?thesis
    using k at by (auto simp: Let_def while_current_def split: if_splits)
qed

lemma mconsumer_flags:
  assumes inv: "mpmc_inv c s" and at: "mcons s j = MFlags tail a"
  shows "\<exists>k. mconsumer_step spurious (mmem s) (mcons s j) = Inr (mmem s, k) \<and> mticket k = None \<and>
    mcons_ok (ring (mmem s)) (hpos (mmem s)) (hres (mmem s)) (tpos (mmem s)) k"
proof -
  note I = mpmc_invD [OF inv]
  let ?m = "ring (mmem s)" and ?R = "hres (mmem s)" and ?T = "tpos (mmem s)"
  note G = geometry_okD [OF mpsc_invD(1) [OF I(1)], unfolded as_mpsc_simps]
  have ok: "16 \<le> room c (unat a)" "unat a \<le> ?R" "unat a = ?R \<Longrightarrow> cons_ok ?m ?R ?T (CFlags tail a)"
    using I(5) [of j] at G(1) by (auto simp: while_current_def)
  have "unat (a mod capacity (mmem s)) + 16 \<le> length ?m"
    using ok(1) word_pos(1) [OF G(2-4), of a] G(1) add_le_room [OF G(2), of 16 "unat a"] by simp
  then obtain flags where fl: "load_rh_flags ?m (a mod capacity (mmem s)) = Inr flags" using load_rh_ok(3) by blast
  show ?thesis
  proof (cases "unat a = ?R")
    case True
    obtain xs where S: "mpsc_inv c (shifted s a (CFlags tail a) xs)"
      by (rule shifted_inv [OF inv, of a "CFlags tail a"]) (use I(3,4) ok(3) True in auto)
    from consumer_flags [OF S shifted_simps(2)] obtain k where
      k: "consumer_step (mem (shifted s a (CFlags tail a) xs)) (CFlags tail a) =
        Inr (mem (shifted s a (CFlags tail a) xs), k)" "cons_ok ?m ?R ?T k" using True by auto
    show ?thesis using k at fl True ok(1) G(1) by (auto simp: Let_def while_current_def split: if_splits)
  next
    case False
    then show ?thesis using at fl ok(1,2) G(1) by (auto simp: Let_def while_current_def)
  qed
qed

lemma mconsumer_size:
  assumes inv: "mpmc_inv c s" and at: "mcons s j = MSize tail a"
  shows "\<exists>k. mconsumer_step spurious (mmem s) (mcons s j) = Inr (mmem s, k) \<and> mticket k = None \<and>
    mcons_ok (ring (mmem s)) (hpos (mmem s)) (hres (mmem s)) (tpos (mmem s)) k"
proof -
  note I = mpmc_invD [OF inv]
  let ?m = "ring (mmem s)" and ?R = "hres (mmem s)" and ?T = "tpos (mmem s)"
  note G = geometry_okD [OF mpsc_invD(1) [OF I(1)], unfolded as_mpsc_simps]
  have ok: "16 \<le> room c (unat a)" "unat a \<le> ?R" "unat a = ?R \<Longrightarrow> cons_ok ?m ?R ?T (CSize tail a)"
    using I(5) [of j] at G(1) by (auto simp: while_current_def)
  have "unat (a mod capacity (mmem s)) + 16 \<le> length ?m"
    using ok(1) word_pos(1) [OF G(2-4), of a] G(1) add_le_room [OF G(2), of 16 "unat a"] by simp
  then obtain sz where fl: "load_rh_size ?m (a mod capacity (mmem s)) = Inr sz" using load_rh_ok(1) by blast
  show ?thesis
  proof (cases "unat a = ?R")
    case True
    obtain xs where S: "mpsc_inv c (shifted s a (CSize tail a) xs)"
      by (rule shifted_inv [OF inv, of a "CSize tail a"]) (use I(3,4) ok(3) True in auto)
    from consumer_size [OF S shifted_simps(2)] obtain k where
      k: "consumer_step (mem (shifted s a (CSize tail a) xs)) (CSize tail a) =
        Inr (mem (shifted s a (CSize tail a) xs), CCopy a k [])" "cons_ok ?m ?R ?T (CCopy a k [])"
      using True by auto
    show ?thesis using k at fl True by (auto simp: Let_def while_current_def split: if_splits)
  next
    case False
    then show ?thesis using at fl ok(2) by (auto simp: Let_def while_current_def)
  qed
qed

text \<open>The compare-and-swap: from the reserved head \<open>a\<close> to the end \<open>b\<close> of what stands there.\<close>

lemma mpmc_reserve_inv:
  assumes inv: "mpmc_inv c s" and a: "unat a = hres (mmem s)" "mticket k = Some (a, b)" "mticket (mcons s j) = None"
    and b: "hres (mmem s) < unat b" "unat b \<le> tpos (mmem s)" "boundary (ring (mmem s)) (hres (mmem s)) (unat b)"
    and ok: "owned (ring (mmem s)) (hpos (mmem s)) (unat b) a b \<Longrightarrow>
      mcons_ok (ring (mmem s)) (hpos (mmem s)) (unat b) (tpos (mmem s)) k"
  shows "mpmc_inv c (s\<lparr>mmem := (mmem s)\<lparr>control := (control (mmem s))\<lparr>head_reserve := b\<rparr>\<rparr>, mcons := (mcons s)(j := k)\<rparr>)"
proof -
  note I = mpmc_invD [OF inv]
  let ?m = "ring (mmem s)" and ?H = "hpos (mmem s)" and ?T = "tpos (mmem s)"
  let ?s = "s\<lparr>mmem := (mmem s)\<lparr>control := (control (mmem s))\<lparr>head_reserve := b\<rparr>\<rparr>, mcons := (mcons s)(j := k)\<rparr>"
  have "mpsc_inv c (as_mpsc ?s)"
    using inv_reserve_head [OF I(1), of "CReturned None" b] by (simp add: as_mpsc_def)
  moreover have "owned ?m ?H (unat b) a b" using I(2,4) a(1) b(1) by (simp add: owned_def)
  then have "mcons_ok ?m ?H (unat b) ?T (((mcons s)(j := k)) i)" for i
    using ok mcons_ok_reserve [OF I(5) b(1)] by simp
  moreover have "unat d \<le> unat a" if "mticket (mcons s i) = Some (a', d)" for i a' d
    using I(5) [of i] that a(1) by (cases "mcons s i") (auto simp: owned_def)
  then have "mtickets_ok ((mcons s)(j := k))"
    using I(6) a(2,3) unfolding mtickets_ok_def by (auto split: if_splits)
  ultimately show ?thesis
    using I(2,4) b boundary_trans [OF I(4) b(3)] by (simp add: mpmc_inv_def)
qed

lemma mconsumer_reserve:
  assumes inv: "mpmc_inv c s" and at: "mcons s j = MReserve a b r"
  shows "\<exists>st k. mconsumer_step spurious (mmem s) (mcons s j) = Inr (st, k) \<and>
    mpmc_inv c (s\<lparr>mmem := st, mcons := (mcons s)(j := k)\<rparr>)"
proof (cases "head_reserve (control (mmem s)) = a \<and> \<not> spurious")
  case False
  have "mpmc_inv c (s\<lparr>mcons := (mcons s)(j := MLoadTail)\<rparr>)" by (rule mpmc_inv_local [OF inv]) auto
  with False at show ?thesis by auto
next
  case True
  note I = mpmc_invD [OF inv]
  let ?m = "ring (mmem s)" and ?R = "hres (mmem s)" and ?T = "tpos (mmem s)"
  have a: "unat a = ?R" using True by simp
  show ?thesis
  proof (cases r)
    case None
    then have ok: "cons_ok ?m ?R ?T (CStoreHead b None)" using I(5) [of j] at a by (auto simp: while_current_def)
    note E = store_head_end [OF ok I(8)]
    have "mpmc_inv c (s\<lparr>mmem := (mmem s)\<lparr>control := (control (mmem s))\<lparr>head_reserve := b\<rparr>\<rparr>,
        mcons := (mcons s)(j := MSpin a b None)\<rparr>)"
      by (rule mpmc_reserve_inv [OF inv a _ _ E]) (use at ok a in auto)
    with True at None show ?thesis by auto
  next
    case (Some sz)
    then have b: "b = a + record_size sz" and ok: "cons_ok ?m ?R ?T (CCopy a sz [])"
      using I(5) [of j] at a by (auto simp: while_current_def)
    obtain x where x: "rec_ready ?m ?R ?T x" "unat b = ?R + rec_len (length (payload x))"
      using copy_end [of ?m a ?T sz "[]"] ok a b unat_lt_pow [of "tail_publish (control (mmem s))"] by auto
    then have "cons_ok ?m ?R ?T (CStoreHead b (Some x))" by simp
    note E = store_head_end [OF this I(8)]
    have "mpmc_inv c (s\<lparr>mmem := (mmem s)\<lparr>control := (control (mmem s))\<lparr>head_reserve := b\<rparr>\<rparr>,
        mcons := (mcons s)(j := MCopy a b sz [])\<rparr>)"
      by (rule mpmc_reserve_inv [OF inv a _ _ E]) (use at ok a b in auto)
    with True at Some show ?thesis by auto
  qed
qed

text \<open>Reading the reserved record.\<close>

lemma mconsumer_read:
  assumes inv: "mpmc_inv c s"
    and at: "mcons s j = MCopy a b sz bs \<or> mcons s j = MType a b bs \<or> mcons s j = MSequence a b bs ty"
  shows "\<exists>k. mconsumer_step spurious (mmem s) (mcons s j) = Inr (mmem s, k) \<and> mticket k = mticket (mcons s j) \<and>
    mcons_ok (ring (mmem s)) (hpos (mmem s)) (hres (mmem s)) (tpos (mmem s)) k"
proof -
  note I = mpmc_invD [OF inv]
  let ?m = "ring (mmem s)" and ?T = "tpos (mmem s)"
  define k0 where "k0 = (case mcons s j of MCopy _ _ _ _ \<Rightarrow> CCopy a sz bs
    | MType _ _ _ \<Rightarrow> CType a (of_nat (length bs)) bs | _ \<Rightarrow> CSequence a (of_nat (length bs)) bs ty)"
  have own: "owned ?m (hpos (mmem s)) (hres (mmem s)) a b" and ok: "cons_ok ?m (unat a) ?T k0"
    using I(5) [of j] at by (auto simp: k0_def simp del: cons_ok.simps)
  obtain xs where S: "mpsc_inv c (shifted s a k0 xs)"
    by (rule shifted_inv [OF inv _ _ ok]) (use own I(3) in \<open>auto simp: owned_def\<close>)
  obtain st k where k: "consumer_step (mem (shifted s a k0 xs)) k0 = Inr (st, k)"
    "mpsc_inv c ((shifted s a k0 xs)\<lparr>mem := st, cons := k, popped := popped (shifted s a k0 xs) @ pops k0\<rparr>)"
    using consumer_inv [OF S] by auto
  have st: "st = mem (shifted s a k0 xs)" using k(1) at
    by (auto simp: k0_def bindE_def split: if_splits sum.splits)
  then have ok': "cons_ok ?m (unat a) ?T k" using mpsc_invD(3) [OF k(2)] by simp
  show ?thesis
    using at
  proof (elim disjE)
    assume at: "mcons s j = MCopy a b sz bs"
    have b: "b = a + record_size sz" and x: "unat sz \<ge> length bs"
      using I(5) [of j] at by auto
    have "\<not> length bs < unat sz \<Longrightarrow> sz = of_nat (length bs)" using x by (simp add: word_unat_eq_iff unat_of_nat)
    with k(1) ok' own b at show ?thesis
      by (auto simp: k0_def bindE_def simp del: cons_ok.simps split: if_splits sum.splits)
  next
    assume "mcons s j = MType a b bs"
    with k(1) ok' own I(5) [of j] show ?thesis
      by (auto simp: k0_def bindE_def simp del: cons_ok.simps split: sum.splits)
  next
    assume "mcons s j = MSequence a b bs ty"
    with k(1) ok' own I(5) [of j] show ?thesis
      by (auto simp: k0_def bindE_def simp del: cons_ok.simps split: sum.splits)
  qed
qed

text \<open>The store of the head: the record leaves the ring.\<close>

lemma mconsumer_store_head:
  assumes inv: "mpmc_inv c s" and at: "mcons s j = MStoreHead a b r"
  shows "\<exists>st k. mconsumer_step spurious (mmem s) (mcons s j) = Inr (st, k) \<and>
    mpmc_inv c (s\<lparr>mmem := st, mcons := (mcons s)(j := k), mpopped := mpopped s @ mpops (mcons s j)\<rparr>)"
proof -
  note I = mpmc_invD [OF inv]
  let ?m = "ring (mmem s)" and ?H = "hpos (mmem s)" and ?R = "hres (mmem s)" and ?T = "tpos (mmem s)"
  have own: "owned ?m ?H ?R a b" and a: "unat a = ?H" and ok: "cons_ok ?m ?H ?T (CStoreHead b r)"
    using I(5) [of j] at by auto
  note E = store_head_end [OF ok I(8)]
  define k where "k = (case r of None \<Rightarrow> MLoadTail | Some m \<Rightarrow> MReturned (Some m))"
  let ?st = "(mmem s)\<lparr>control := (control (mmem s))\<lparr>head_publish := b\<rparr>\<rparr>"
  let ?s = "s\<lparr>mmem := ?st, mcons := (mcons s)(j := k), mpopped := mpopped s @ mpops (mcons s j)\<rparr>"
  have pops: "pops (CStoreHead b r) = mpops (mcons s j)" using at by (cases r) simp_all
  have "mpsc_inv c ((as_mpsc s)\<lparr>cons := CStoreHead b r\<rparr>)" using inv_cons_local [OF I(1)] ok by simp
  from consumer_inv [OF this]
  have "mpsc_inv c ((as_mpsc s)\<lparr>mem := ?st, cons := CStoreReserve b r, popped := mpopped s @ mpops (mcons s j)\<rparr>)"
    by (simp add: pops)
  from inv_cons_local [OF this, of "CReturned None"] have 1: "mpsc_inv c (as_mpsc ?s)" by (simp add: as_mpsc_def)
  have others: "unat b \<le> unat a'" if "i \<noteq> j" "mticket (mcons s i) = Some (a', d)" for i a' d
  proof -
    have "?H \<le> unat a'" "unat a' < unat d" using I(5) [of i] that(2) by (cases "mcons s i"; auto simp: owned_def)+
    moreover have "unat d \<le> unat a \<or> unat b \<le> unat a'"
      using I(6) that at unfolding mtickets_ok_def by (metis mticket.simps(5))
    ultimately show ?thesis using a by linarith
  qed
  have 2: "mcons_ok ?m (unat b) ?R ?T (((mcons s)(j := k)) i)" for i
    using mcons_ok_head [OF I(5) [of i] E(3,1) I(8)] others [of i] by (auto simp: k_def split: option.splits)
  have 3: "mtickets_ok ((mcons s)(j := k))"
    by (rule mtickets_ok_update [OF I(6)]) (simp add: k_def split: option.splits)
  have "unat b \<le> ?R" using own by (simp add: owned_def)
  with 1 2 3 I(3) boundary_split [OF E(3) I(4) _ I(8)] have "mpmc_inv c ?s" by (simp add: mpmc_inv_def)
  then show ?thesis using at by (simp add: k_def)
qed

text \<open>Every access of a consumer is possible, and with a fresh tail it keeps the invariant.\<close>

lemma mconsumer_inv:
  assumes inv: "mpmc_inv c s"
  shows "\<exists>st k. mconsumer_step spurious (mmem s) (mcons s j) = Inr (st, k) \<and>
    (fresh_tail (MConsume j spurious) s \<longrightarrow>
      mpmc_inv c (s\<lparr>mmem := st, mcons := (mcons s)(j := k), mpopped := mpopped s @ mpops (mcons s j)\<rparr>))"
proof -
  note I = mpmc_invD [OF inv]
  have stay: ?thesis
    if "mconsumer_step spurious (mmem s) (mcons s j) = Inr (mmem s, k)" "mpops (mcons s j) = []"
      "mticket k = None \<or> mticket k = mticket (mcons s j)"
      "mcons_ok (ring (mmem s)) (hpos (mmem s)) (hres (mmem s)) (tpos (mmem s)) k" for k
    using that(1,2) mpmc_inv_local [OF inv that(4,3)] by auto
  show ?thesis
  proof (cases "mcons s j")
    case (MLoadHead tail)
    have cap: "capacity (mmem s) \<noteq> 0"
      using geometry_okD(2-4) [OF mpsc_invD(1) [OF I(1)]] by (simp add: unat_eq_0 [symmetric] unat_of_nat)
    show ?thesis
    proof (cases "head_reserve (control (mmem s)) \<le> tail")
      case True
      with mconsumer_load_head [OF inv MLoadHead] MLoadHead stay show ?thesis by fastforce
    next
      case False
      with MLoadHead cap show ?thesis by (auto simp: Let_def)
    qed
  next
    case MLoadTail
    then show ?thesis using boundary_tail [OF inv] by (intro stay) auto
  next
    case (MFlags tail a)
    with mconsumer_flags [OF inv MFlags] stay show ?thesis by fastforce
  next
    case (MSize tail a)
    with mconsumer_size [OF inv MSize] stay show ?thesis by fastforce
  next
    case (MReserve a b r)
    with mconsumer_reserve [OF inv MReserve, of spurious] show ?thesis by auto
  next
    case (MCopy a b sz bs)
    with mconsumer_read [OF inv, of j a b sz bs 0] stay show ?thesis by fastforce
  next
    case (MType a b bs)
    with mconsumer_read [OF inv, of j a b 0 bs 0] stay show ?thesis by fastforce
  next
    case (MSequence a b bs ty)
    with mconsumer_read [OF inv, of j a b 0 bs ty] stay show ?thesis by fastforce
  next
    case (MSpin a b r)
    then show ?thesis using I(5) [of j] by (cases "head_publish (control (mmem s)) = a"; intro stay) auto
  next
    case (MStoreHead a b r)
    with mconsumer_store_head [OF inv MStoreHead, of spurious] show ?thesis by auto
  next
    case MIdle
    then show ?thesis by (intro stay) auto
  next
    case (MReturned r)
    then show ?thesis by (intro stay) auto
  qed
qed

lemma mpmc_push_inv:
  assumes inv: "mpmc_inv c s" and "idle (mprods s i)" "length bs < 2 ^ 32"
  shows "mpmc_inv c (s\<lparr>mprods := (mprods s)(i := push_entry (mmem s) bs ty)\<rparr>)"
proof -
  have eq: "as_mpsc (s\<lparr>mprods := P\<rparr>) = (as_mpsc s)\<lparr>prods := P\<rparr>" for P by (simp add: as_mpsc_def)
  show ?thesis
    unfolding mpmc_inv_def eq
    using push_call_inv [OF mpmc_invD(1) [OF inv], of i bs ty] assms(2,3) mpmc_invD(2-6) [OF inv] by simp
qed

interpretation mpmc_run: invariant_system "mpmc_init c" mpmc_fresh_step "mpmc_inv c" for c
proof
  show "mpmc_inv c s" if i: "mpmc_init c s" for s
  proof -
    have "mpsc_inv c (as_mpsc s)"
      using i inv_cons_local [OF mpsc_init_inv, of c "(as_mpsc s)\<lparr>cons := CLoadTail\<rparr>" "CReturned None"]
      by (simp add: mpmc_init_def mpsc_init_def fresh_mpmc_def as_mpsc_def)
    then show ?thesis using i
      by (auto simp: mpmc_inv_def mpmc_init_def fresh_mpmc_def empty_ring_def boundary_def mtickets_ok_def intro: seg_nil)
  qed
  show "mpmc_inv c s'" if inv: "mpmc_inv c s" and step: "mpmc_fresh_step s s'" for s s'
  proof -
    obtain e where e: "fresh_tail e s" "mpmc_access e s = Some s'" using step by (auto simp: mpmc_fresh_step_def)
    show ?thesis
    proof (cases e)
      case (MPush i bs ty)
      with e(2) mpmc_push_inv [OF inv] show ?thesis by (auto split: if_splits)
    next
      case (MProduce i spurious)
      with e(2) mpmc_producer_inv [OF inv, of spurious i] show ?thesis by (auto split: if_splits)
    next
      case (MPop j)
      with e(2) mpmc_inv_local [OF inv, of MLoadTail j] show ?thesis by (auto split: if_splits)
    next
      case (MConsume j spurious)
      with e mconsumer_inv [OF inv, of spurious j] show ?thesis by auto
    qed
  qed
qed

section \<open>Properties\<close>

text \<open>
  C2. Any number of producers and consumers of \<open>SharedRingBufferMPMC\<close>, interleaved at every access,
  as long as no consumer loads a head beyond the tail it has loaded: the messages taken out, in the
  order of the stores of \<open>head_publish\<close>, are the first of the messages published, whole and once
  each; the others are in the ring; and no access of any participant is out of bounds.
\<close>

theorem mpmc_concurrent_fifo:
  assumes "reachable (mpmc_init c) mpmc_fresh_step s"
  shows "(\<exists>rest. mpublished s = mpopped s @ rest \<and>
       ring_seg (ring (mmem s)) (unat (head_publish (control (mmem s)))) (unat (tail_publish (control (mmem s)))) rest) \<and>
     (\<exists>r. producer_step spurious (mmem s) (mprods s i) = Inr r) \<and>
     (\<exists>r. mconsumer_step spurious (mmem s) (mcons s j) = Inr r)"
proof -
  have inv: "mpmc_inv c s" using assms by (rule mpmc_run.inv_reachable)
  from mpsc_invD(2) [OF mpmc_invD(1) [OF inv]] mpmc_producer_inv [OF inv, of spurious i]
    mconsumer_inv [OF inv, of spurious j] show ?thesis by auto
qed

text \<open>
  A run for this: two messages are pushed, two consumers reserve one each, and the second is done
  first and waits.
\<close>

fun fresh_schedule :: "mpmc_event list \<Rightarrow> mpmc_sys \<Rightarrow> mpmc_sys option" where
  "fresh_schedule [] s = Some s"
| "fresh_schedule (e # es) s =
     (if fresh_tail e s then (case mpmc_access e s of None \<Rightarrow> None | Some s' \<Rightarrow> fresh_schedule es s') else None)"

lemma fresh_schedule_reachable:
  assumes "mpmc_init c s" "fresh_schedule es s = Some s'"
  shows "reachable (mpmc_init c) mpmc_fresh_step s'"
proof -
  have "fresh_schedule es s = Some s' \<Longrightarrow> mpmc_fresh_step\<^sup>*\<^sup>* s s'" for s
  proof (induction es arbitrary: s)
    case (Cons e es)
    then obtain s1 where "fresh_tail e s" "mpmc_access e s = Some s1" "fresh_schedule es s1 = Some s'"
      by (auto split: option.splits if_splits)
    with Cons.IH [of s1] show ?case
      by (auto simp: mpmc_fresh_step_def intro: converse_rtranclp_into_rtranclp)
  qed simp
  with assms show ?thesis by (auto simp: reachable_def)
qed

definition two_consumers :: "mpmc_event list" where
  "two_consumers = MPush 0 [7] 9 # replicate 13 (MProduce 0 False) @ MPush 0 [8] 9 # replicate 13 (MProduce 0 False) @
     MPop 0 # replicate 5 (MConsume 0 False) @ MPop 1 # replicate 10 (MConsume 1 False) @ replicate 6 (MConsume 0 False)"

lemma two_consumers_run:
  "map_option (\<lambda>s. (map payload (mpublished s), map payload (mpopped s), mcons s 1))
     (fresh_schedule two_consumers (fresh_mpmc 64)) =
   Some ([[7], [8]], [[7]], MSpin 24 48 (Some \<lparr>payload = [8], msg_type = 9, msg_sequence = 2\<rparr>))"
  by code_simp

theorem mpmc_concurrent_fifo_witness:
  "\<exists>s. fresh_schedule two_consumers (fresh_mpmc 64) = Some s \<and> map payload (mpopped s) = [[7]] \<and>
     (\<exists>rest. mpublished s = mpopped s @ rest)"
proof -
  obtain s where s: "fresh_schedule two_consumers (fresh_mpmc 64) = Some s" "map payload (mpopped s) = [[7]]"
    using two_consumers_run by auto
  have "mpmc_init 64 (fresh_mpmc 64)" by (simp add: mpmc_init_def)
  from mpmc_concurrent_fifo [OF fresh_schedule_reachable [OF this s(1)], of False 0 0] s show ?thesis by auto
qed

end
