(* ===== verification/Queue_Concurrent.thy ===== *)
theory Queue_Concurrent
  imports SPSC_Queue Interleaving
begin

text \<open>
  \<open>SPSCQueue\<close> access by access: \<open>try_push\<close> and \<open>try_pop\<close> of \<open>spsc_queue.hpp\<close> cut at every load and
  store of shared memory, a \<open>memcpy\<close> being one access per byte, one producer and one consumer taking
  turns in any order. Memory is sequentially consistent. The constructors of \<open>queue_producer\<close> and
  \<open>queue_consumer\<close> are the places in the code, with the local variables that are live there.

  The queue is linearizable: the operations take effect one after the other, each at one of its own
  accesses, and return what the bounded queue returns.
\<close>

unbundle bit_operations_syntax

section \<open>The two participants\<close>

datatype queue_producer =
    QPLoadTail "byte list"
  | QPLoadHead "byte list" u64
  | QPCopy "byte list" u64 nat
  | QPStoreTail "byte list" u64
  | QPReturned bool

fun queue_producer_step ::
  "u64 \<Rightarrow> u64 \<Rightarrow> ring_state \<Rightarrow> queue_producer \<Rightarrow> (ring_state \<times> queue_producer) exec"
where
  "queue_producer_step N sz st (QPLoadTail v) = Inr (st, QPLoadHead v (tail_publish (control st)))"
| "queue_producer_step N sz st (QPLoadHead v t) =
     Inr (st, if t - head_publish (control st) \<ge> N then QPReturned False else QPCopy v t 0)"
| "queue_producer_step N sz st (QPCopy v t i) =
     (if i < unat sz
      then bindE (store_bytes (ring st) (unat ((t AND kMask N) * sz) + i) [v ! i]) (\<lambda>m.
             Inr (st\<lparr>ring := m\<rparr>, QPCopy v t (Suc i)))
      else Inr (st, QPStoreTail v t))"
| "queue_producer_step N sz st (QPStoreTail v t) =
     Inr (st\<lparr>control := (control st)\<lparr>tail_publish := t + 1\<rparr>\<rparr>, QPReturned True)"
| "queue_producer_step N sz st (QPReturned b) = Inr (st, QPReturned b)"

datatype queue_consumer =
    QCLoadHead
  | QCLoadTail u64
  | QCCopy u64 "byte list"
  | QCStoreHead u64 "byte list"
  | QCReturned "byte list option"

fun queue_consumer_step ::
  "u64 \<Rightarrow> u64 \<Rightarrow> ring_state \<Rightarrow> queue_consumer \<Rightarrow> (ring_state \<times> queue_consumer) exec"
where
  "queue_consumer_step N sz st QCLoadHead = Inr (st, QCLoadTail (head_publish (control st)))"
| "queue_consumer_step N sz st (QCLoadTail h) =
     Inr (st, if h = tail_publish (control st) then QCReturned None else QCCopy h [])"
| "queue_consumer_step N sz st (QCCopy h bs) =
     (if length bs < unat sz
      then bindE (load_bytes (ring st) (unat ((h AND kMask N) * sz) + length bs) 1) (\<lambda>b.
             Inr (st, QCCopy h (bs @ b)))
      else Inr (st, QCStoreHead h bs))"
| "queue_consumer_step N sz st (QCStoreHead h bs) =
     Inr (st\<lparr>control := (control st)\<lparr>head_publish := h + 1\<rparr>\<rparr>, QCReturned (Some bs))"
| "queue_consumer_step N sz st (QCReturned r) = Inr (st, QCReturned r)"

section \<open>The system\<close>

text \<open>
  \<open>qhist\<close> records each operation with what it returns, at the access at which it takes effect: the
  test that fails, the store of the tail, the store of the head.
\<close>

record queue_sys =
  qmem :: ring_state
  qprod :: queue_producer
  qcons :: queue_consumer
  qhist :: "(byte list queue_op \<times> byte list queue_ret) list"

fun push_effect :: "queue_producer \<Rightarrow> queue_producer \<Rightarrow> (byte list queue_op \<times> byte list queue_ret) list" where
  "push_effect (QPLoadHead v _) (QPReturned b) = [(QPush v, QPushed b)]"
| "push_effect (QPStoreTail v _) (QPReturned b) = [(QPush v, QPushed b)]"
| "push_effect _ _ = []"

fun pop_effect :: "queue_consumer \<Rightarrow> queue_consumer \<Rightarrow> (byte list queue_op \<times> byte list queue_ret) list" where
  "pop_effect (QCLoadTail _) (QCReturned r) = [(QPop, QPopped r)]"
| "pop_effect (QCStoreHead _ _) (QCReturned r) = [(QPop, QPopped r)]"
| "pop_effect _ _ = []"

definition fresh_queue :: "nat \<Rightarrow> nat \<Rightarrow> queue_sys" where
  "fresh_queue k n = \<lparr>qmem = empty_ring (2 ^ k * n), qprod = QPReturned False, qcons = QCReturned None, qhist = []\<rparr>"

definition queue_init :: "nat \<Rightarrow> nat \<Rightarrow> queue_sys \<Rightarrow> bool" where
  "queue_init k n s \<longleftrightarrow> template_ok k n \<and> s = fresh_queue k n"

text \<open>One access, or a call: \<open>try_push\<close> with a value of \<open>n\<close> bytes, \<open>try_pop\<close>.\<close>

datatype queue_event = QPushCall "byte list" | QProduce | QPopCall | QConsume

fun queue_access :: "nat \<Rightarrow> nat \<Rightarrow> queue_event \<Rightarrow> queue_sys \<Rightarrow> queue_sys option" where
  "queue_access k n (QPushCall v) s =
     (case qprod s of QPReturned _ \<Rightarrow> if length v = n then Some (s\<lparr>qprod := QPLoadTail v\<rparr>) else None | _ \<Rightarrow> None)"
| "queue_access k n QProduce s =
     (case queue_producer_step (2 ^ k) (of_nat n) (qmem s) (qprod s) of
        Inl _ \<Rightarrow> None
      | Inr (st, p) \<Rightarrow> Some (s\<lparr>qmem := st, qprod := p, qhist := qhist s @ push_effect (qprod s) p\<rparr>))"
| "queue_access k n QPopCall s =
     (case qcons s of QCReturned _ \<Rightarrow> Some (s\<lparr>qcons := QCLoadHead\<rparr>) | _ \<Rightarrow> None)"
| "queue_access k n QConsume s =
     (case queue_consumer_step (2 ^ k) (of_nat n) (qmem s) (qcons s) of
        Inl _ \<Rightarrow> None
      | Inr (st, c) \<Rightarrow> Some (s\<lparr>qmem := st, qcons := c, qhist := qhist s @ pop_effect (qcons s) c\<rparr>))"

definition queue_step :: "nat \<Rightarrow> nat \<Rightarrow> queue_sys \<Rightarrow> queue_sys \<Rightarrow> bool" where
  "queue_step k n s s' \<longleftrightarrow> (\<exists>e. queue_access k n e s = Some s')"

fun queue_schedule :: "nat \<Rightarrow> nat \<Rightarrow> queue_event list \<Rightarrow> queue_sys \<Rightarrow> queue_sys option" where
  "queue_schedule k n [] s = Some s"
| "queue_schedule k n (e # es) s =
     (case queue_access k n e s of None \<Rightarrow> None | Some s' \<Rightarrow> queue_schedule k n es s')"

section \<open>The invariant\<close>

text \<open>
  The slots hold the values \<open>q\<close> from position \<open>h\<close> on, as between two operations; the producer may be
  filling the slot behind them, the consumer copying the first of them.
\<close>

fun queue_prod_ok :: "nat \<Rightarrow> nat \<Rightarrow> memory \<Rightarrow> nat \<Rightarrow> nat \<Rightarrow> queue_producer \<Rightarrow> bool" where
  "queue_prod_ok k n m T l (QPLoadTail v) = (length v = n)"
| "queue_prod_ok k n m T l (QPLoadHead v t) = (length v = n \<and> t = of_nat T)"
| "queue_prod_ok k n m T l (QPCopy v t i) =
     (length v = n \<and> t = of_nat T \<and> l < 2 ^ k \<and> i \<le> n \<and> mem_read m (T mod 2 ^ k * n) i = take i v)"
| "queue_prod_ok k n m T l (QPStoreTail v t) =
     (length v = n \<and> t = of_nat T \<and> l < 2 ^ k \<and> mem_read m (T mod 2 ^ k * n) n = v)"
| "queue_prod_ok k n m T l (QPReturned b) = True"

fun queue_cons_ok :: "nat \<Rightarrow> byte list list \<Rightarrow> queue_consumer \<Rightarrow> bool" where
  "queue_cons_ok h q (QCLoadTail a) = (a = of_nat h)"
| "queue_cons_ok h q (QCCopy a bs) =
     (a = of_nat h \<and> q \<noteq> [] \<and> length bs \<le> length (q ! 0) \<and> bs = take (length bs) (q ! 0))"
| "queue_cons_ok h q (QCStoreHead a bs) = (a = of_nat h \<and> q \<noteq> [] \<and> bs = q ! 0)"
| "queue_cons_ok h q _ = True"

definition queue_inv_at :: "nat \<Rightarrow> nat \<Rightarrow> nat \<Rightarrow> byte list list \<Rightarrow> queue_sys \<Rightarrow> bool" where
  "queue_inv_at k n h q s \<longleftrightarrow> template_ok k n \<and> queue_rep k n h (qmem s) q \<and>
     bounded_queue (2 ^ k) (map fst (qhist s)) [] = (map snd (qhist s), q) \<and>
     queue_prod_ok k n (ring (qmem s)) (h + length q) (length q) (qprod s) \<and> queue_cons_ok h q (qcons s)"

definition queue_inv :: "nat \<Rightarrow> nat \<Rightarrow> queue_sys \<Rightarrow> bool" where
  "queue_inv k n s \<longleftrightarrow> (\<exists>h q. queue_inv_at k n h q s)"

section \<open>Every access keeps it\<close>

lemma bounded_queue_snoc:
  assumes "bounded_queue n ops q0 = (rs, q)"
  shows "bounded_queue n (ops @ [QPush v]) q0 = (rs @ [QPushed (length q < n)], if length q < n then q @ [v] else q)"
    and "bounded_queue n (ops @ [QPop]) q0 = (rs @ [QPopped (case q of [] \<Rightarrow> None | v # _ \<Rightarrow> Some v)], tl q)"
  using assms by (induction n ops q0 arbitrary: rs rule: bounded_queue.induct) (auto split: prod.splits)

lemma queue_inv_atD:
  assumes "queue_inv_at k n h q s"
  shows "template_ok k n" "queue_rep k n h (qmem s) q"
    "bounded_queue (2 ^ k) (map fst (qhist s)) [] = (map snd (qhist s), q)"
    "queue_prod_ok k n (ring (qmem s)) (h + length q) (length q) (qprod s)" "queue_cons_ok h q (qcons s)" "k < 64"
  using assms by (simp_all add: queue_inv_at_def template_ok_def)

lemma queue_repD:
  assumes "queue_rep k n h st q"
  shows "head_publish (control st) = of_nat h" "tail_publish (control st) = of_nat (h + length q)"
    "length q \<le> 2 ^ k" "x mod 2 ^ k * n + n \<le> length (ring st)"
    "i < length q \<Longrightarrow> mem_read (ring st) ((h + i) mod 2 ^ k * n) n = q ! i" "i < length q \<Longrightarrow> length (q ! i) = n"
proof -
  show b: "x mod 2 ^ k * n + n \<le> length (ring st)" for x
    using assms slot_bound [of x k n] by (simp add: queue_rep_def)
  show r: "i < length q \<Longrightarrow> mem_read (ring st) ((h + i) mod 2 ^ k * n) n = q ! i" for i
    using assms by (simp add: queue_rep_def)
  show "i < length q \<Longrightarrow> length (q ! i) = n" using r [of i] b [of "h + i"] by (metis length_mem_read)
qed (use assms in \<open>simp_all add: queue_rep_def\<close>)

text \<open>A byte stored into the slot behind the values.\<close>

lemma queue_fill:
  assumes rep: "queue_rep k n h st q" and room: "length q < 2 ^ k" and i: "i < n" "length v = n"
    and pre: "mem_read (ring st) ((h + length q) mod 2 ^ k * n) i = take i v"
  defines "a \<equiv> (h + length q) mod 2 ^ k * n"
  shows "queue_rep k n h (st\<lparr>ring := mem_write (ring st) (a + i) [v ! i]\<rparr>) q"
    and "mem_read (mem_write (ring st) (a + i) [v ! i]) a (Suc i) = take (Suc i) v"
proof -
  note R = queue_repD [OF rep]
  let ?m = "mem_write (ring st) (a + i) [v ! i]"
  have b: "a + n \<le> length (ring st)" unfolding a_def by (rule R(4))
  have "mem_read ?m ((h + j) mod 2 ^ k * n) n = q ! j" if j: "j < length q" for j
  proof -
    have "h + j < h + length q" "h + length q < h + j + 2 ^ k" using j room by linarith+
    from slots_disjoint [OF this, of n] show ?thesis
      using R(5) [OF j] b i(1) R(4) [of "h + j"] unfolding a_def by (subst mem_read_write_disj) auto
  qed
  then show "queue_rep k n h (st\<lparr>ring := ?m\<rparr>) q" using rep b i(1) by (simp add: queue_rep_def)
  have "mem_read ?m a i = mem_read (ring st) a i" using b i(1) by (intro mem_read_write_disj) auto
  moreover have "mem_read ?m (a + i) 1 = [v ! i]" using mem_read_write_same [of "a + i" "[v ! i]" "ring st"] b i(1) by simp
  ultimately show "mem_read ?m a (Suc i) = take (Suc i) v"
    using mem_read_split [of ?m a i 1] pre i by (simp add: a_def take_Suc_conv_app_nth)
qed

lemma queue_produce_inv:
  assumes inv: "queue_inv_at k n h q s"
  shows "\<exists>s' q'. queue_access k n QProduce s = Some s' \<and> queue_inv_at k n h q' s'"
proof -
  note I = queue_inv_atD [OF inv]
  note R = queue_repD [OF I(2)]
  note S = slot_offset [OF I(1)]
  show ?thesis
  proof (cases "qprod s")
    case (QPLoadTail v)
    with inv R(2) show ?thesis by (simp add: queue_inv_at_def)
  next
    case (QPLoadHead v t)
    have "t - head_publish (control (qmem s)) \<ge> 2 ^ k \<longleftrightarrow> length q = 2 ^ k"
      using queue_full_iff(2) [OF I(2,6)] I(4) QPLoadHead R(2) by simp
    with QPLoadHead inv R(3) bounded_queue_snoc(1) [OF I(3), of v] show ?thesis
      by (cases "length q = 2 ^ k") (auto simp: queue_inv_at_def mem_read_def)
  next
    case (QPCopy v t i)
    have v: "length v = n" "t = of_nat (h + length q)" "length q < 2 ^ k" "i \<le> n"
      "mem_read (ring (qmem s)) ((h + length q) mod 2 ^ k * n) i = take i v" using I(4) QPCopy by auto
    show ?thesis
    proof (cases "i < n")
      case True
      have "(h + length q) mod 2 ^ k * n + i < length (ring (qmem s))" using R(4) [of "h + length q"] True by linarith
      with queue_fill [OF I(2) v(3) True v(1,5)] QPCopy True v inv S show ?thesis
        by (simp add: queue_inv_at_def store_bytes_ok del: of_nat_add)
    next
      case False
      with v QPCopy inv S show ?thesis by (simp add: queue_inv_at_def)
    qed
  next
    case (QPStoreTail v t)
    then have v: "length v = n" "t = of_nat (h + length q)" "length q < 2 ^ k"
      "mem_read (ring (qmem s)) ((h + length q) mod 2 ^ k * n) n = v" using I(4) by auto
    let ?st = "(qmem s)\<lparr>control := (control (qmem s))\<lparr>tail_publish := t + 1\<rparr>\<rparr>"
    have "queue_rep k n h ?st (q @ [v])"
      using I(2) v unfolding queue_rep_def by (auto simp: nth_append less_Suc_eq)
    moreover have "queue_cons_ok h (q @ [v]) (qcons s)" using I(5) by (cases "qcons s") (auto simp: nth_append)
    ultimately show ?thesis
      using QPStoreTail inv bounded_queue_snoc(1) [OF I(3), of v] v(3) by (auto simp: queue_inv_at_def)
  next
    case (QPReturned b)
    with inv show ?thesis by (simp add: queue_inv_at_def)
  qed
qed

lemma queue_consume_inv:
  assumes inv: "queue_inv_at k n h q s"
  shows "\<exists>s' h' q'. queue_access k n QConsume s = Some s' \<and> queue_inv_at k n h' q' s'"
proof -
  note I = queue_inv_atD [OF inv]
  note R = queue_repD [OF I(2)]
  note S = slot_offset [OF I(1)]
  show ?thesis
  proof (cases "qcons s")
    case QCLoadHead
    with inv R(1) show ?thesis by (auto simp: queue_inv_at_def)
  next
    case (QCLoadTail a)
    have "a = tail_publish (control (qmem s)) \<longleftrightarrow> q = []"
      using queue_full_iff(3) [OF I(2,6)] I(5) QCLoadTail R(1) by simp
    with QCLoadTail inv I(5) bounded_queue_snoc(2) [OF I(3)] show ?thesis
      by (cases "q = []") (auto simp: queue_inv_at_def)
  next
    case (QCCopy a bs)
    have a: "a = of_nat h" "q \<noteq> []" "length bs \<le> length (q ! 0)" "bs = take (length bs) (q ! 0)"
      using I(5) QCCopy by auto
    have l: "length (q ! 0) = n" and m: "mem_read (ring (qmem s)) (h mod 2 ^ k * n) n = q ! 0"
      using R(5,6) [of 0] a(2) by auto
    show ?thesis
    proof (cases "length bs < n")
      case True
      have b: "h mod 2 ^ k * n + length bs < length (ring (qmem s))" using R(4) [of h] True by linarith
      have "ring (qmem s) ! (h mod 2 ^ k * n + length bs) = q ! 0 ! length bs"
        using nth_mem_read [of "h mod 2 ^ k * n" n "ring (qmem s)" "length bs"] R(4) [of h] True by (simp add: m)
      then have "mem_read (ring (qmem s)) (h mod 2 ^ k * n + length bs) 1 = [q ! 0 ! length bs]"
        using b by (simp add: mem_read_def take_Suc hd_drop_conv_nth)
      moreover have "bs @ [q ! 0 ! length bs] = take (Suc (length bs)) (q ! 0)"
        using a(4) True l by (metis take_Suc_conv_app_nth)
      ultimately show ?thesis
        using QCCopy True a(1,2) inv S b l by (auto simp: queue_inv_at_def load_bytes_ok)
    next
      case False
      with a l QCCopy inv S show ?thesis by (auto simp: queue_inv_at_def)
    qed
  next
    case (QCStoreHead a bs)
    then obtain q' where q: "a = of_nat h" "q = bs # q'" using I(5) by (cases q) auto
    let ?st = "(qmem s)\<lparr>control := (control (qmem s))\<lparr>head_publish := a + 1\<rparr>\<rparr>"
    have "mem_read (ring (qmem s)) ((Suc h + i) mod 2 ^ k * n) n = q' ! i" if "i < length q'" for i
      using R(5) [of "Suc i"] q(2) that by simp
    then have "queue_rep k n (Suc h) ?st q'" using I(2) q by (simp add: queue_rep_def add.commute)
    moreover have "queue_prod_ok k n (ring (qmem s)) (Suc h + length q') (length q') (qprod s)"
      using I(4) q(2) by (cases "qprod s") (auto simp: add.commute add.left_commute)
    ultimately have "queue_inv_at k n (Suc h) q' (s\<lparr>qmem := ?st, qcons := QCReturned (Some bs),
        qhist := qhist s @ [(QPop, QPopped (Some bs))]\<rparr>)"
      using I(1) bounded_queue_snoc(2) [OF I(3)] q(2) by (simp add: queue_inv_at_def)
    then show ?thesis using QCStoreHead by auto
  next
    case (QCReturned r)
    with inv show ?thesis by (auto simp: queue_inv_at_def)
  qed
qed

interpretation queue_interleaved: invariant_system "queue_init k n" "queue_step k n" "queue_inv k n" for k n
proof
  show "queue_init k n s \<Longrightarrow> queue_inv k n s" for s
    by (auto simp: queue_init_def queue_inv_def queue_inv_at_def fresh_queue_def queue_rep_def empty_ring_def
        intro!: exI [of _ 0] exI [of _ "[]"])
  show "queue_inv k n s'" if inv: "queue_inv k n s" and step: "queue_step k n s s'" for s s'
  proof -
    obtain h q e where I: "queue_inv_at k n h q s" and e: "queue_access k n e s = Some s'"
      using inv step by (auto simp: queue_inv_def queue_step_def)
    show ?thesis
    proof (cases e)
      case (QPushCall v)
      with I e show ?thesis
        by (auto simp: queue_inv_def queue_inv_at_def split: queue_producer.splits if_splits)
    next
      case QProduce
      with queue_produce_inv [OF I] e show ?thesis by (auto simp: queue_inv_def)
    next
      case QPopCall
      with I e show ?thesis by (auto simp: queue_inv_def queue_inv_at_def split: queue_consumer.splits)
    next
      case QConsume
      with queue_consume_inv [OF I] e show ?thesis by (auto simp: queue_inv_def)
    qed
  qed
qed

section \<open>Properties\<close>

text \<open>
  C4. \<open>SPSCQueue\<close> is linearizable: for every interleaving of the accesses of a producer and a
  consumer, the operations in the order in which they took effect return exactly what a queue of
  \<open>2^k\<close> slots returns, a push being refused exactly when the queue is full at that moment, and the
  queue then holds the values between the two counters. No access is out of bounds. There is no
  limit on the number of operations.
\<close>

theorem queue_linearizable:
  assumes "reachable (queue_init k n) (queue_step k n) s"
  shows "(\<exists>h q. bounded_queue (2 ^ k) (map fst (qhist s)) [] = (map snd (qhist s), q) \<and> queue_rep k n h (qmem s) q) \<and>
    queue_access k n QProduce s \<noteq> None \<and> queue_access k n QConsume s \<noteq> None"
proof -
  have "queue_inv k n s" using assms by (rule queue_interleaved.inv_reachable)
  then obtain h q where I: "queue_inv_at k n h q s" by (auto simp: queue_inv_def)
  show ?thesis
    using queue_inv_atD(2,3) [OF I] queue_produce_inv [OF I] queue_consume_inv [OF I] by auto
qed

lemma queue_schedule_steps:
  "queue_schedule k n es s = Some s' \<Longrightarrow> (queue_step k n)\<^sup>*\<^sup>* s s'"
proof (induction es arbitrary: s)
  case (Cons e es)
  then obtain s1 where "queue_access k n e s = Some s1" "queue_schedule k n es s1 = Some s'"
    by (auto split: option.splits)
  with Cons.IH [of s1] show ?case
    by (auto simp: queue_step_def intro: converse_rtranclp_into_rtranclp)
qed simp

lemma queue_schedule_reachable:
  "template_ok k n \<Longrightarrow> queue_schedule k n es (fresh_queue k n) = Some s \<Longrightarrow>
     reachable (queue_init k n) (queue_step k n) s"
  unfolding reachable_def by (rule exI [of _ "fresh_queue k n"]) (simp add: queue_init_def queue_schedule_steps)

text \<open>A queue of one slot of two bytes: a push, a second one that is refused, and a pop in between.\<close>

definition queue_race :: "queue_event list" where
  "queue_race = QPushCall [1, 2] # replicate 6 QProduce @ QPopCall # replicate 4 QConsume @
     QPushCall [3, 4] # replicate 2 QProduce @ replicate 2 QConsume"

lemma queue_race_run:
  "map_option (\<lambda>s. (qhist s, qprod s)) (queue_schedule 0 2 queue_race (fresh_queue 0 2)) =
     Some ([(QPush [1, 2], QPushed True), (QPush [3, 4], QPushed False), (QPop, QPopped (Some [1, 2]))], QPReturned False)"
  by code_simp

theorem queue_linearizable_witness:
  "\<exists>s. queue_schedule 0 2 queue_race (fresh_queue 0 2) = Some s \<and> length (qhist s) = 3 \<and>
     (\<exists>q. bounded_queue (2 ^ 0) (map fst (qhist s)) [] = (map snd (qhist s), q))"
proof -
  obtain s where s: "queue_schedule 0 2 queue_race (fresh_queue 0 2) = Some s" "length (qhist s) = 3"
    using queue_race_run by auto
  have "template_ok 0 2" by (simp add: template_ok_def)
  from queue_linearizable [OF queue_schedule_reachable [OF this s(1)]] s show ?thesis by blast
qed

subsection \<open>\<open>size\<close>\<close>

text \<open>\<open>size()\<close> with its two loads, the tail in state \<open>a\<close> and the head in the later state \<open>b\<close>.\<close>

definition queue_size_at :: "ring_state \<Rightarrow> ring_state \<Rightarrow> u64" where
  "queue_size_at a b =
     (let t = tail_publish (control a);
          h = head_publish (control b)
      in t - h)"

lemma queue_size_quiet: "queue_size_at st st = queue_size st"
  by (simp add: queue_size_at_def queue_size_def)

lemma pop_effect_cases:
  assumes "queue_access k n e s = Some s'" "e \<noteq> QConsume"
  shows "head_publish (control (qmem s')) = head_publish (control (qmem s))"
  using assms
  by (cases e; cases "qprod s") (auto simp: bindE_def split: if_splits sum.splits queue_consumer.splits)

lemma push_effect_cases:
  assumes "queue_access k n e s = Some s'" "e \<noteq> QProduce"
  shows "tail_publish (control (qmem s')) = tail_publish (control (qmem s))"
  using assms
  by (cases e; cases "qcons s") (auto simp: bindE_def split: if_splits sum.splits queue_producer.splits)

lemma queue_schedule_head:
  "queue_schedule k n es a = Some b \<Longrightarrow> QConsume \<notin> set es \<Longrightarrow>
     head_publish (control (qmem b)) = head_publish (control (qmem a))"
proof (induction es arbitrary: a)
  case (Cons e es)
  then obtain a' where a': "queue_access k n e a = Some a'" "queue_schedule k n es a' = Some b"
    by (auto split: option.splits)
  with Cons.IH [OF a'(2)] pop_effect_cases [OF a'(1)] Cons.prems(2) show ?case by auto
qed simp

lemma queue_schedule_tail:
  "queue_schedule k n es a = Some b \<Longrightarrow> QProduce \<notin> set es \<Longrightarrow>
     tail_publish (control (qmem b)) = tail_publish (control (qmem a))"
proof (induction es arbitrary: a)
  case (Cons e es)
  then obtain a' where a': "queue_access k n e a = Some a'" "queue_schedule k n es a' = Some b"
    by (auto split: option.splits)
  with Cons.IH [OF a'(2)] push_effect_cases [OF a'(1)] Cons.prems(2) show ?case by auto
qed simp

lemma queue_size_reachable:
  assumes "reachable (queue_init k n) (queue_step k n) s"
  shows "unat (queue_size (qmem s)) \<le> 2 ^ k"
proof -
  have "queue_inv k n s" using assms by (rule queue_interleaved.inv_reachable)
  then obtain h q where I: "queue_inv_at k n h q s" by (auto simp: queue_inv_def)
  note I' = queue_inv_atD [OF I]
  have "queue_size (qmem s) = of_nat (length q)"
    using queue_full_iff(1) [OF I'(2,6)] by (simp add: queue_size_def)
  moreover have "(2 :: nat) ^ k < 2 ^ 64" using I'(6) by (intro power_strict_increasing) simp_all
  moreover have "length q \<le> 2 ^ k" by (rule queue_repD(3) [OF I'(2)])
  ultimately show ?thesis by (simp add: unat_of_nat_small)
qed

lemma reachable_schedule:
  assumes "reachable (queue_init k n) (queue_step k n) a" "queue_schedule k n es a = Some b"
  shows "reachable (queue_init k n) (queue_step k n) b"
  using assms queue_schedule_steps unfolding reachable_def by (metis rtranclp_trans)

text \<open>One push and one pop, after the observer has loaded the tail of the fresh queue.\<close>

definition size_race :: "queue_event list" where
  "size_race = QPushCall [1, 2] # replicate 6 QProduce @ QPopCall # replicate 6 QConsume"

lemma size_race_run:
  "map_option (\<lambda>b. queue_size_at (qmem (fresh_queue 0 2)) (qmem b)) (queue_schedule 0 2 size_race (fresh_queue 0 2)) =
     Some (- 1)"
  by code_simp

text \<open>
  C32. What \<open>size()\<close> returns while the other side works on, from state \<open>a\<close> at its load of the tail to
  state \<open>b\<close> at its load of the head. Called by the consumer, it is the size at \<open>a\<close>; called by the
  producer, the size at \<open>b\<close>; never more than the capacity. Called by anybody else it can be
  \<open>2^64 - 1\<close>, since the head may pass the tail that was loaded.
\<close>

theorem queue_size_depends_on_caller:
  "(\<forall>k n a es b. reachable (queue_init k n) (queue_step k n) a \<longrightarrow> queue_schedule k n es a = Some b \<longrightarrow>
      (QConsume \<notin> set es \<longrightarrow> queue_size_at (qmem a) (qmem b) = queue_size (qmem a) \<and>
         unat (queue_size_at (qmem a) (qmem b)) \<le> 2 ^ k) \<and>
      (QProduce \<notin> set es \<longrightarrow> queue_size_at (qmem a) (qmem b) = queue_size (qmem b) \<and>
         unat (queue_size_at (qmem a) (qmem b)) \<le> 2 ^ k)) \<and>
   (\<exists>b. queue_schedule 0 2 size_race (fresh_queue 0 2) = Some b \<and>
      unat (queue_size_at (qmem (fresh_queue 0 2)) (qmem b)) = 2 ^ 64 - 1)"
proof (intro conjI allI impI)
  fix k n a es b
  assume r: "reachable (queue_init k n) (queue_step k n) a" and s: "queue_schedule k n es a = Some b"
  show c: "queue_size_at (qmem a) (qmem b) = queue_size (qmem a)" if "QConsume \<notin> set es"
    using queue_schedule_head [OF s that] by (simp add: queue_size_at_def queue_size_def)
  show p: "queue_size_at (qmem a) (qmem b) = queue_size (qmem b)" if "QProduce \<notin> set es"
    using queue_schedule_tail [OF s that] by (simp add: queue_size_at_def queue_size_def)
  show "unat (queue_size_at (qmem a) (qmem b)) \<le> 2 ^ k" if "QConsume \<notin> set es"
    using queue_size_reachable [OF r] c [OF that] by simp
  show "unat (queue_size_at (qmem a) (qmem b)) \<le> 2 ^ k" if "QProduce \<notin> set es"
    using queue_size_reachable [OF reachable_schedule [OF r s]] p [OF that] by simp
next
  show "\<exists>b. queue_schedule 0 2 size_race (fresh_queue 0 2) = Some b \<and>
      unat (queue_size_at (qmem (fresh_queue 0 2)) (qmem b)) = 2 ^ 64 - 1"
    using size_race_run by (auto simp: unsigned_minus_1_eq_mask mask_eq_exp_minus_1)
qed

theorem queue_size_depends_on_caller_witness:
  "reachable (queue_init 0 2) (queue_step 0 2) (fresh_queue 0 2) \<and>
   queue_size_at (qmem (fresh_queue 0 2)) (qmem (the (queue_schedule 0 2 (QPushCall [1, 2] # replicate 6 QProduce) (fresh_queue 0 2)))) =
     queue_size (qmem (fresh_queue 0 2))"
proof -
  have T: "template_ok 0 2" by (simp add: template_ok_def)
  have r: "reachable (queue_init 0 2) (queue_step 0 2) (fresh_queue 0 2)"
    by (rule queue_schedule_reachable [OF T, of "[]"]) simp
  have "queue_schedule 0 2 (QPushCall [1, 2] # replicate 6 QProduce) (fresh_queue 0 2) \<noteq> None" by code_simp
  then obtain b where b: "queue_schedule 0 2 (QPushCall [1, 2] # replicate 6 QProduce) (fresh_queue 0 2) = Some b" by auto
  have "QConsume \<notin> set (QPushCall [1, 2] # replicate 6 QProduce)" by simp
  with queue_size_depends_on_caller r b show ?thesis by (metis option.sel)
qed

end
