(* ===== verification/Bench_Loops.thy ===== *)
theory Bench_Loops
  imports Complex_Main Polling
begin

text \<open>
  The loops of the queue benchmarks (\<open>bench/benchmark_ring_buffer.cpp\<close>,
  \<open>bench/benchmark_boost_lockfree.cpp\<close>), for any queue with \<open>push\<close> and \<open>pop\<close>. Thread 0 pops, the
  others push, and a call that fails is tried again:

    \<open>for (auto _ : state) for (int i = 0; i < pops; ++i) while (!queue.try_pop(out)) {}\<close>
    \<open>for (auto _ : state) for (int i = 0; i < pushes; ++i) while (!queue.try_push(message)) {}\<close>

  The benchmark framework runs the outer loop of every thread for the same number of iterations. One
  call of the queue is one turn of a thread; the threads take turns in any order.
\<close>

section \<open>The threads\<close>

text \<open>
  What a benchmark chooses: how many threads push, how many pops and pushes there are in an
  iteration, and the message, which may change with an index that the thread keeps.
\<close>

record 'm bench_setup =
  producer_threads :: nat
  pops_per_iteration :: nat
  pushes_per_iteration :: nat
  bench_message :: "nat \<Rightarrow> 'm"
  first_index :: "nat \<Rightarrow> nat"
  next_index :: "nat \<Rightarrow> nat"

text \<open>
  The queue, and for each thread the iterations that are left and the counter \<open>i\<close>. \<open>given\<close> collects
  the accepted messages with their threads, \<open>taken\<close> the values popped.
\<close>

record ('m, 'b, 's) bench =
  bqueue :: 's
  bout :: 'b
  pop_iterations :: nat
  pop_i :: nat
  push_iterations :: "nat \<Rightarrow> nat"
  push_i :: "nat \<Rightarrow> nat"
  push_index :: "nat \<Rightarrow> nat"
  given :: "(nat \<times> 'm) list"
  taken :: "'b list"

definition bench_start :: "'m bench_setup \<Rightarrow> nat \<Rightarrow> 'b \<Rightarrow> 's \<Rightarrow> ('m, 'b, 's) bench" where
  "bench_start S iterations b s =
     \<lparr>bqueue = s, bout = b, pop_iterations = iterations, pop_i = 0, push_iterations = (\<lambda>_. iterations),
      push_i = (\<lambda>_. 0), push_index = first_index S, given = [], taken = []\<rparr>"

definition consumer_turn ::
  "('b \<Rightarrow> 's \<Rightarrow> (bool \<times> 'b \<times> 's) exec option) \<Rightarrow> 'm bench_setup \<Rightarrow> ('m, 'b, 's) bench \<Rightarrow>
     ('m, 'b, 's) bench exec option"
where
  "consumer_turn pop S r =
     (if pop_iterations r = 0 then Some (Inr r)
      else if pop_i r < pops_per_iteration S then
        bindL (pop (bout r) (bqueue r)) (\<lambda>(ok, b, s).
          let r1 = r\<lparr>bqueue := s, bout := b\<rparr>
          in Some (Inr (if ok then r1\<lparr>pop_i := pop_i r + 1, taken := taken r @ [b]\<rparr> else r1)))
      else Some (Inr (r\<lparr>pop_iterations := pop_iterations r - 1, pop_i := 0\<rparr>)))"

definition producer_turn ::
  "('m \<Rightarrow> 's \<Rightarrow> (bool \<times> 's) exec option) \<Rightarrow> 'm bench_setup \<Rightarrow> nat \<Rightarrow> ('m, 'b, 's) bench \<Rightarrow>
     ('m, 'b, 's) bench exec option"
where
  "producer_turn push S i r =
     (if push_iterations r i = 0 then Some (Inr r)
      else if push_i r i < pushes_per_iteration S then
        (let m = bench_message S (push_index r i)
         in bindL (push m (bqueue r)) (\<lambda>(ok, s).
              let r1 = r\<lparr>bqueue := s\<rparr>
              in Some (Inr (if ok then r1\<lparr>push_i := (push_i r)(i := push_i r i + 1), given := given r @ [(i, m)]\<rparr>
                            else r1))))
      else Some (Inr (r\<lparr>push_iterations := (push_iterations r)(i := push_iterations r i - 1),
             push_i := (push_i r)(i := 0), push_index := (push_index r)(i := next_index S (push_index r i))\<rparr>)))"

text \<open>Threads are numbered; the schedule lists whose turn it is.\<close>

fun bench_run ::
  "('m \<Rightarrow> 's \<Rightarrow> (bool \<times> 's) exec option) \<Rightarrow> ('b \<Rightarrow> 's \<Rightarrow> (bool \<times> 'b \<times> 's) exec option) \<Rightarrow> 'm bench_setup \<Rightarrow>
     nat list \<Rightarrow> ('m, 'b, 's) bench \<Rightarrow> ('m, 'b, 's) bench exec option"
where
  "bench_run push pop S [] r = Some (Inr r)"
| "bench_run push pop S (i # is) r =
     bindL (if i = 0 then consumer_turn pop S r else producer_turn push S i r) (bench_run push pop S is)"

definition finished :: "nat \<Rightarrow> ('m, 'b, 's) bench \<Rightarrow> bool" where
  "finished threads r \<longleftrightarrow> pop_iterations r = 0 \<and> (\<forall>i \<in> {1..<threads}. push_iterations r i = 0)"

text \<open>The indices that a thread can have.\<close>

definition used_index :: "'m bench_setup \<Rightarrow> nat \<Rightarrow> bool" where
  "used_index S x \<longleftrightarrow> (\<exists>i k. x = (next_index S ^^ k) (first_index S i))"

lemma used_index_intros [simp]:
  "used_index S (first_index S i)" "used_index S x \<Longrightarrow> used_index S (next_index S x)"
proof -
  show "used_index S (first_index S i)" unfolding used_index_def by (intro exI [of _ i] exI [of _ 0]) simp
  assume "used_index S x"
  then obtain i k where "x = (next_index S ^^ k) (first_index S i)" by (auto simp: used_index_def)
  then show "used_index S (next_index S x)" unfolding used_index_def by (intro exI [of _ i] exI [of _ "Suc k"]) simp
qed

lemma used_indexI:
  assumes "used_index S x" "\<And>i. P (first_index S i)" "\<And>x. P x \<Longrightarrow> P (next_index S x)"
  shows "P x"
proof -
  have "P ((next_index S ^^ k) (first_index S i))" for i k by (induction k) (use assms(2,3) in auto)
  with assms(1) show ?thesis by (auto simp: used_index_def)
qed

text \<open>
  What a benchmark reports, per reporting thread; the framework adds up the items. A benchmark
  may also refuse to run (\<open>state.SkipWithError\<close>).
\<close>

record bench_report =
  items_processed :: int
  items_per_producer :: "rat option"

datatype ('m, 'b, 's) bench_outcome = SkipWithError string | Ran "('m, 'b, 's) bench" "bench_report list"

definition reported_items :: "bench_report list \<Rightarrow> int" where
  "reported_items reports = (\<Sum>x \<leftarrow> reports. items_processed x)"

definition run_benchmark ::
  "('m \<Rightarrow> 's \<Rightarrow> (bool \<times> 's) exec option) \<Rightarrow> ('b \<Rightarrow> 's \<Rightarrow> (bool \<times> 'b \<times> 's) exec option) \<Rightarrow> 'm bench_setup \<Rightarrow>
     nat \<Rightarrow> 'b \<Rightarrow> bench_report list \<Rightarrow> 's \<Rightarrow> nat list \<Rightarrow> ('m, 'b, 's) bench_outcome exec option"
where
  "run_benchmark push pop S iterations b reports s is =
     bindL (bench_run push pop S is (bench_start S iterations b s)) (\<lambda>r. Some (Inr (Ran r reports)))"

text \<open>\<open>n\<close> threads that push the same message \<open>burst\<close> times per iteration.\<close>

definition same_message :: "nat \<Rightarrow> nat \<Rightarrow> 'm \<Rightarrow> 'm bench_setup" where
  "same_message n burst m =
     \<lparr>producer_threads = n, pops_per_iteration = n * burst, pushes_per_iteration = burst, bench_message = (\<lambda>_. m),
      first_index = (\<lambda>_. 0), next_index = (\<lambda>i. i)\<rparr>"

lemma bench_run_append:
  "bench_run push pop S (is @ js) r = bindL (bench_run push pop S is r) (bench_run push pop S js)"
proof (induction "is" arbitrary: r)
  case (Cons i "is")
  show ?case
    by (cases "if i = 0 then consumer_turn pop S r else producer_turn push S i r" rule: option.exhaust)
      (auto simp: Cons.IH bindL_def split: sum.splits)
qed simp

section \<open>What is to be shown of a benchmark\<close>

text \<open>
  Whatever the schedule, no call faults or hangs; what was popped is what was pushed, in order; the
  threads can always finish; and when they have finished, everything pushed was popped, and as many
  messages as the benchmark reports.
\<close>

definition completes ::
  "('b \<Rightarrow> 'm \<Rightarrow> bool) \<Rightarrow> nat \<Rightarrow> (nat list \<Rightarrow> ('m, 'b, 's) bench_outcome exec option) \<Rightarrow> bool"
where
  "completes shown threads run \<longleftrightarrow>
     (\<forall>is. set is \<subseteq> {0..<threads} \<longrightarrow>
        (\<exists>r reports. run is = Some (Inr (Ran r reports)) \<and>
           (\<exists>popped rest. list_all2 shown (taken r) popped \<and> map snd (given r) = popped @ rest) \<and>
           (\<exists>js r' reports'. set js \<subseteq> {0..<threads} \<and> run (is @ js) = Some (Inr (Ran r' reports')) \<and> finished threads r') \<and>
           (finished threads r \<longrightarrow> list_all2 shown (taken r) (map snd (given r)) \<and>
              reported_items reports = int (length (taken r)))))"

text \<open>
  The queue is a static variable: a benchmark runs on it again and again, with other arguments \<open>a\<close>
  (\<open>threads a\<close> threads). \<open>left\<close> is the queue that a run leaves.
\<close>

inductive between_runs ::
  "('a \<Rightarrow> nat \<Rightarrow> 'q \<Rightarrow> nat list \<Rightarrow> ('m, 'b, 's) bench_outcome exec option) \<Rightarrow> ('a \<Rightarrow> nat) \<Rightarrow> ('s \<Rightarrow> 'q) \<Rightarrow> 'q \<Rightarrow> 'q \<Rightarrow> bool"
  for BM threads left q0
where
  created: "between_runs BM threads left q0 q0"
| run: "between_runs BM threads left q0 q \<Longrightarrow> set is \<subseteq> {0..<threads a} \<Longrightarrow>
    BM a n q is = Some (Inr (Ran r reports)) \<Longrightarrow> finished (threads a) r \<Longrightarrow>
    between_runs BM threads left q0 (left (bqueue r))"

definition benchmark_ok ::
  "('b \<Rightarrow> 'm \<Rightarrow> bool) \<Rightarrow> ('a \<Rightarrow> nat) \<Rightarrow> ('s \<Rightarrow> 'q) \<Rightarrow> 'q \<Rightarrow>
     ('a \<Rightarrow> nat \<Rightarrow> 'q \<Rightarrow> nat list \<Rightarrow> ('m, 'b, 's) bench_outcome exec option) \<Rightarrow> bool"
where
  "benchmark_ok shown threads left q0 BM \<longleftrightarrow>
     (\<forall>q a n. between_runs BM threads left q0 q \<longrightarrow> completes shown (threads a) (BM a n q))"

lemma benchmark_okI:
  assumes q0: "I q0" and ok: "\<And>q a n. I q \<Longrightarrow> completes shown (threads a) (BM a n q)"
    and left: "\<And>q a n is r reports. I q \<Longrightarrow> set is \<subseteq> {0..<threads a} \<Longrightarrow>
      BM a n q is = Some (Inr (Ran r reports)) \<Longrightarrow> finished (threads a) r \<Longrightarrow> I (left (bqueue r))"
  shows "benchmark_ok shown threads left q0 BM"
proof -
  have "between_runs BM threads left q0 q \<Longrightarrow> I q" for q
    by (induction rule: between_runs.induct) (use q0 left in blast)+
  with ok show ?thesis unfolding benchmark_ok_def by blast
qed

section \<open>Queues whose calls can be tried again\<close>

text \<open>After a pop that found nothing, there is room for a message.\<close>

locale retry_queue = polled_queue push pop "\<lambda>_. rep" ok "\<lambda>_ m b. shown b m"
  for push :: "'m \<Rightarrow> 's \<Rightarrow> (bool \<times> 's) exec option"
    and pop :: "'b \<Rightarrow> 's \<Rightarrow> (bool \<times> 'b \<times> 's) exec option"
    and rep :: "'s \<Rightarrow> 'm list \<Rightarrow> bool"
    and ok :: "'m \<Rightarrow> bool"
    and shown :: "'b \<Rightarrow> 'm \<Rightarrow> bool" +
  assumes push_after_empty: "rep s [] \<Longrightarrow> pop b s = Some (Inr (False, b', s')) \<Longrightarrow> ok m \<Longrightarrow>
      \<exists>s''. push m s' = Some (Inr (True, s''))"
begin

definition thread_count :: "nat \<Rightarrow> (nat \<times> 'm) list \<Rightarrow> nat" where
  "thread_count i xs = length (filter (\<lambda>x. fst x = i) xs)"

definition bench_inv :: "'m bench_setup \<Rightarrow> nat \<Rightarrow> 'm list \<Rightarrow> ('m, 'b, 's) bench \<Rightarrow> bool" where
  "bench_inv S n q r \<longleftrightarrow> rep (bqueue r) q \<and>
     (\<exists>done. list_all2 shown (taken r) done \<and> map snd (given r) = done @ q) \<and>
     pop_iterations r \<le> n \<and> pop_i r \<le> pops_per_iteration S \<and> (pop_iterations r = 0 \<longrightarrow> pop_i r = 0) \<and>
     length (taken r) + pop_iterations r * pops_per_iteration S = n * pops_per_iteration S + pop_i r \<and>
     (\<forall>i. push_i r i \<le> pushes_per_iteration S \<and> (push_iterations r i = 0 \<longrightarrow> push_i r i = 0)) \<and>
     (\<forall>i \<in> {1..producer_threads S}. thread_count i (given r) + push_iterations r i * pushes_per_iteration S =
        n * pushes_per_iteration S + push_i r i) \<and>
     (\<forall>x \<in> set (given r). fst x \<in> {1..producer_threads S}) \<and> (\<forall>i. used_index S (push_index r i))"

text \<open>The turns a thread has left if no call fails.\<close>

definition turns_left :: "'m bench_setup \<Rightarrow> ('m, 'b, 's) bench \<Rightarrow> nat \<Rightarrow> nat" where
  "turns_left S r i =
     (if i = 0 then pop_iterations r * (pops_per_iteration S + 1) - pop_i r
      else push_iterations r i * (pushes_per_iteration S + 1) - push_i r i)"

lemma turn_loop:
  fixes k p x :: nat
  assumes "0 < k" "x \<le> p"
  shows "x < p \<Longrightarrow> k * (p + 1) - (x + 1) < k * (p + 1) - x" "\<not> x < p \<Longrightarrow> (k - 1) * (p + 1) < k * (p + 1) - x"
proof -
  obtain k' where k: "k = Suc k'" using assms(1) by (cases k) auto
  show "x < p \<Longrightarrow> k * (p + 1) - (x + 1) < k * (p + 1) - x" "\<not> x < p \<Longrightarrow> (k - 1) * (p + 1) < k * (p + 1) - x"
    using assms(2) by (simp_all add: k)
qed

lemma consumer_turn_inv:
  assumes inv: "bench_inv S n q r"
  obtains r' q' where "consumer_turn pop S r = Some (Inr r')" "bench_inv S n q' r'"
    "\<forall>j. j \<noteq> 0 \<longrightarrow> turns_left S r' j = turns_left S r j"
    "push_iterations r' = push_iterations r" "push_i r' = push_i r" "push_index r' = push_index r"
    "pop_iterations r \<noteq> 0 \<and> (q \<noteq> [] \<or> \<not> pop_i r < pops_per_iteration S) \<longrightarrow> turns_left S r' 0 < turns_left S r 0"
    "pop_iterations r \<noteq> 0 \<and> q = [] \<and> pop_i r < pops_per_iteration S \<longrightarrow>
       turns_left S r' 0 = turns_left S r 0 \<and> (\<forall>m. ok m \<longrightarrow> (\<exists>s. push m (bqueue r') = Some (Inr (True, s))))"
proof -
  from inv obtain dn where rep: "rep (bqueue r) q" and fifo: "list_all2 shown (taken r) dn" "map snd (given r) = dn @ q"
    and i: "pop_i r \<le> pops_per_iteration S" by (auto simp: bench_inv_def)
  consider "pop_iterations r = 0" | "pop_iterations r \<noteq> 0" "\<not> pop_i r < pops_per_iteration S"
    | "pop_iterations r \<noteq> 0" "pop_i r < pops_per_iteration S" "q = []"
    | m q' where "pop_iterations r \<noteq> 0" "pop_i r < pops_per_iteration S" "q = m # q'" by (cases q) auto
  then show ?thesis
  proof cases
    case 1
    with inv show ?thesis by (intro that [of r q]) (auto simp: consumer_turn_def)
  next
    case 2
    let ?r = "r\<lparr>pop_iterations := pop_iterations r - 1, pop_i := 0\<rparr>"
    obtain k where k: "pop_iterations r = Suc k" using 2(1) by (cases "pop_iterations r") auto
    have "bench_inv S n q ?r" using inv 2 i by (auto simp: bench_inv_def k)
    with 2 turn_loop(2) [of "pop_iterations r" "pop_i r" "pops_per_iteration S"] i show ?thesis
      by (intro that [of ?r q]) (auto simp: consumer_turn_def turns_left_def)
  next
    case 3
    then obtain s' where s': "pop (bout r) (bqueue r) = Some (Inr (False, bout r, s'))" "rep s' []"
      using pop_none rep by blast
    let ?r = "r\<lparr>bqueue := s', bout := bout r\<rparr>"
    have "bench_inv S n [] ?r" using inv 3 s'(2) by (simp add: bench_inv_def)
    with 3 s' rep push_after_empty [of "bqueue r" "bout r"] show ?thesis
      by (intro that [of ?r "[]"]) (auto simp: consumer_turn_def turns_left_def)
  next
    case 4
    then obtain b s' where s': "pop (bout r) (bqueue r) = Some (Inr (True, b, s'))" "shown b m" "rep s' q'"
      using pop_some rep by blast
    let ?r = "r\<lparr>bqueue := s', bout := b, pop_i := pop_i r + 1, taken := taken r @ [b]\<rparr>"
    have "list_all2 shown (taken r @ [b]) (dn @ [m])" "map snd (given r) = (dn @ [m]) @ q'"
      using fifo s'(2) 4 by (auto intro: list_all2_appendI)
    then have "bench_inv S n q' ?r" using inv 4 s'(3) unfolding bench_inv_def by auto
    with 4 s' turn_loop(1) [of "pop_iterations r" "pop_i r" "pops_per_iteration S"] i show ?thesis
      by (intro that [of ?r q']) (auto simp: consumer_turn_def turns_left_def Let_def)
  qed
qed

lemma thread_count_snoc [simp]:
  "thread_count i (xs @ [(j, m)]) = thread_count i xs + (if i = j then 1 else 0)"
  by (simp add: thread_count_def)

lemma producer_turn_inv:
  assumes inv: "bench_inv S n q r" and msgs: "\<And>x. used_index S x \<Longrightarrow> ok (bench_message S x)" and i: "i \<in> {1..producer_threads S}"
  obtains r' q' where "producer_turn push S i r = Some (Inr r')" "bench_inv S n q' r'"
    "\<forall>j. j \<noteq> i \<longrightarrow> turns_left S r' j = turns_left S r j" "turns_left S r' i \<le> turns_left S r i"
    "push_iterations r i \<noteq> 0 \<and>
       (\<not> push_i r i < pushes_per_iteration S \<or> (\<exists>s. push (bench_message S (push_index r i)) (bqueue r) = Some (Inr (True, s)))) \<longrightarrow>
       turns_left S r' i < turns_left S r i"
proof -
  let ?m = "bench_message S (push_index r i)"
  from inv obtain dn where rep: "rep (bqueue r) q" and fifo: "list_all2 shown (taken r) dn" "map snd (given r) = dn @ q"
    and le: "push_i r i \<le> pushes_per_iteration S" by (auto simp: bench_inv_def)
  have "ok ?m" using inv by (intro msgs) (simp add: bench_inv_def)
  from push_some [OF rep this] obtain a s' where
    s': "push ?m (bqueue r) = Some (Inr (a, s'))" "rep s' (if a then q @ [?m] else q)" by blast
  consider "push_iterations r i = 0" | "push_iterations r i \<noteq> 0" "\<not> push_i r i < pushes_per_iteration S"
    | "push_iterations r i \<noteq> 0" "push_i r i < pushes_per_iteration S" "a"
    | "push_iterations r i \<noteq> 0" "push_i r i < pushes_per_iteration S" "\<not> a" by blast
  then show ?thesis
  proof cases
    case 1
    with inv show ?thesis by (intro that [of r q]) (auto simp: producer_turn_def)
  next
    case 2
    let ?r = "r\<lparr>push_iterations := (push_iterations r)(i := push_iterations r i - 1),
      push_i := (push_i r)(i := 0), push_index := (push_index r)(i := next_index S (push_index r i))\<rparr>"
    obtain k where k: "push_iterations r i = Suc k" using 2(1) by (cases "push_iterations r i") auto
    have "thread_count i (given r) + push_iterations r i * pushes_per_iteration S =
        n * pushes_per_iteration S + push_i r i" using inv i unfolding bench_inv_def by blast
    then have "thread_count i (given r) + k * pushes_per_iteration S = n * pushes_per_iteration S"
      using 2(2) le k by simp
    with inv k have "bench_inv S n q ?r" by (simp add: bench_inv_def)
    with 2 i turn_loop(2) [of "push_iterations r i" "push_i r i" "pushes_per_iteration S"] le show ?thesis
      by (intro that [of ?r q]) (auto simp: producer_turn_def turns_left_def)
  next
    case 3
    let ?r = "r\<lparr>bqueue := s', push_i := (push_i r)(i := push_i r i + 1), given := given r @ [(i, ?m)]\<rparr>"
    have "map snd (given r @ [(i, ?m)]) = dn @ q @ [?m]" using fifo(2) by simp
    then have "bench_inv S n (q @ [?m]) ?r" using inv 3 s'(2) i fifo(1) unfolding bench_inv_def by auto
    with 3 i s'(1) turn_loop(1) [of "push_iterations r i" "push_i r i" "pushes_per_iteration S"] le show ?thesis
      by (intro that [of ?r "q @ [?m]"]) (auto simp: producer_turn_def turns_left_def Let_def)
  next
    case 4
    let ?r = "r\<lparr>bqueue := s'\<rparr>"
    have "bench_inv S n q ?r" using inv 4 s'(2) by (simp add: bench_inv_def)
    with 4 s'(1) show ?thesis by (intro that [of ?r q]) (auto simp: producer_turn_def turns_left_def)
  qed
qed

lemma bench_run_inv:
  assumes msgs: "\<And>x. used_index S x \<Longrightarrow> ok (bench_message S x)"
  shows "bench_inv S n q r \<Longrightarrow> set is \<subseteq> {0..producer_threads S} \<Longrightarrow>
    \<exists>r' q'. bench_run push pop S is r = Some (Inr r') \<and> bench_inv S n q' r'"
proof (induction "is" arbitrary: q r)
  case (Cons i "is")
  have "\<exists>r1 q1. (if i = 0 then consumer_turn pop S r else producer_turn push S i r) = Some (Inr r1) \<and> bench_inv S n q1 r1"
  proof (cases "i = 0")
    case True
    then show ?thesis using consumer_turn_inv [OF Cons.prems(1)] by (metis (full_types))
  next
    case False
    then have "i \<in> {1..producer_threads S}" using Cons.prems(2) by auto
    with False show ?thesis using producer_turn_inv [OF Cons.prems(1) msgs] by (metis (full_types))
  qed
  then obtain r1 q1 where r1: "(if i = 0 then consumer_turn pop S r else producer_turn push S i r) = Some (Inr r1)"
    "bench_inv S n q1 r1" by blast
  with Cons.IH [OF r1(2)] Cons.prems(2) show ?case by simp
qed auto

text \<open>Counting what was given and taken.\<close>

lemma length_by_thread:
  assumes "\<forall>x \<in> set xs. fst x \<in> A" "finite A"
  shows "length xs = (\<Sum>i \<in> A. thread_count i xs)"
  using assms(1)
proof (induction xs)
  case (Cons x xs)
  have "thread_count i (x # xs) = thread_count i xs + (if i = fst x then 1 else 0)" for i by (simp add: thread_count_def)
  with Cons assms(2) show ?case by (simp add: sum.distrib)
qed (simp add: thread_count_def)

lemma bench_counts:
  assumes inv: "bench_inv S n q r" and even: "pops_per_iteration S = producer_threads S * pushes_per_iteration S"
  shows "length (given r) = length (taken r) + length q"
    "(\<forall>i \<in> {1..producer_threads S}. push_iterations r i = 0) \<Longrightarrow> length (given r) = n * pops_per_iteration S"
    "i \<in> {1..producer_threads S} \<Longrightarrow> push_iterations r i \<noteq> 0 \<Longrightarrow> push_i r i < pushes_per_iteration S \<Longrightarrow>
       length (given r) < n * pops_per_iteration S"
    "pop_iterations r = 0 \<Longrightarrow> length (taken r) = n * pops_per_iteration S"
    "pop_iterations r \<noteq> 0 \<Longrightarrow> pop_i r < pops_per_iteration S \<Longrightarrow> length (taken r) < n * pops_per_iteration S"
proof -
  let ?p = "pushes_per_iteration S"
  from inv obtain dn where "list_all2 shown (taken r) dn" "map snd (given r) = dn @ q" by (auto simp: bench_inv_def)
  then show "length (given r) = length (taken r) + length q" by (metis length_append length_map list_all2_lengthD)
  have len: "length (given r) = (\<Sum>i \<in> {1..producer_threads S}. thread_count i (given r))"
    using inv by (intro length_by_thread) (auto simp: bench_inv_def)
  have C: "thread_count i (given r) + push_iterations r i * ?p = n * ?p + push_i r i" if "i \<in> {1..producer_threads S}" for i
    using inv that unfolding bench_inv_def by blast
  have Z: "push_iterations r i = 0 \<longrightarrow> push_i r i = 0" "push_i r i \<le> ?p" for i using inv by (auto simp: bench_inv_def)
  have sum: "(\<Sum>i \<in> {1..producer_threads S}. n * ?p) = n * pops_per_iteration S" using even by simp
  show "length (given r) = n * pops_per_iteration S" if d: "\<forall>i \<in> {1..producer_threads S}. push_iterations r i = 0"
    unfolding len sum [symmetric] by (rule sum.cong) (use C Z d in auto)
  show "length (given r) < n * pops_per_iteration S"
    if i: "i \<in> {1..producer_threads S}" "push_iterations r i \<noteq> 0" "push_i r i < ?p"
  proof -
    have le: "thread_count j (given r) \<le> n * ?p" if "j \<in> {1..producer_threads S}" for j
    proof (cases "push_iterations r j")
      case 0
      with C [OF that] Z [of j] show ?thesis by simp
    next
      case (Suc k)
      with C [OF that] Z [of j] show ?thesis by simp
    qed
    moreover obtain k where "push_iterations r i = Suc k" using i(2) by (cases "push_iterations r i") auto
    then have "thread_count i (given r) < n * ?p" using C [OF i(1)] i(3) by simp
    ultimately show ?thesis
      unfolding len sum [symmetric] using i(1) by (intro sum_strict_mono_ex1) auto
  qed
  have T: "length (taken r) + pop_iterations r * pops_per_iteration S = n * pops_per_iteration S + pop_i r"
    "pop_iterations r = 0 \<longrightarrow> pop_i r = 0" using inv by (auto simp: bench_inv_def)
  show "pop_iterations r = 0 \<Longrightarrow> length (taken r) = n * pops_per_iteration S" using T by simp
  show "length (taken r) < n * pops_per_iteration S"
    if left: "pop_iterations r \<noteq> 0" "pop_i r < pops_per_iteration S"
  proof -
    obtain k where "pop_iterations r = Suc k" using left(1) by (cases "pop_iterations r") auto
    with T left(2) show ?thesis by simp
  qed
qed

text \<open>While a thread is not finished, one turn, or two, bring it or the consumer further.\<close>

definition all_left :: "'m bench_setup \<Rightarrow> ('m, 'b, 's) bench \<Rightarrow> nat" where
  "all_left S r = (\<Sum>i \<in> {0..producer_threads S}. turns_left S r i)"

lemma all_left_less:
  assumes "i \<in> {0..producer_threads S}" "turns_left S r' i < turns_left S r i" "\<And>j. j \<noteq> i \<Longrightarrow> turns_left S r' j \<le> turns_left S r j"
  shows "all_left S r' < all_left S r"
proof -
  have "turns_left S r' x \<le> turns_left S r x" for x using assms(2,3) by (cases "x = i") auto
  then show ?thesis unfolding all_left_def using assms(1,2) by (intro sum_strict_mono_ex1) auto
qed

lemma bench_progress:
  assumes inv: "bench_inv S n q r" and msgs: "\<And>x. used_index S x \<Longrightarrow> ok (bench_message S x)"
    and even: "pops_per_iteration S = producer_threads S * pushes_per_iteration S" and left: "\<not> finished (Suc (producer_threads S)) r"
  shows "\<exists>js r' q'. set js \<subseteq> {0..producer_threads S} \<and> bench_run push pop S js r = Some (Inr r') \<and> bench_inv S n q' r' \<and>
    all_left S r' < all_left S r"
proof -
  note N = bench_counts [OF inv even]
  obtain rc qc where c: "consumer_turn pop S r = Some (Inr rc)" "bench_inv S n qc rc"
    "\<forall>j. j \<noteq> 0 \<longrightarrow> turns_left S rc j = turns_left S r j"
    "push_iterations rc = push_iterations r" "push_i rc = push_i r" "push_index rc = push_index r"
    "pop_iterations r \<noteq> 0 \<and> (q \<noteq> [] \<or> \<not> pop_i r < pops_per_iteration S) \<longrightarrow> turns_left S rc 0 < turns_left S r 0"
    "pop_iterations r \<noteq> 0 \<and> q = [] \<and> pop_i r < pops_per_iteration S \<longrightarrow>
       turns_left S rc 0 = turns_left S r 0 \<and> (\<forall>m. ok m \<longrightarrow> (\<exists>s. push m (bqueue rc) = Some (Inr (True, s))))"
    by (rule consumer_turn_inv [OF inv])
  have consume: ?thesis if "turns_left S rc 0 < turns_left S r 0"
    using c(1-3) that all_left_less [of 0 S rc r] by (intro exI [of _ "[0]"]) auto
  show ?thesis
  proof (cases "pop_iterations r \<noteq> 0 \<and> (q \<noteq> [] \<or> \<not> pop_i r < pops_per_iteration S)")
    case True
    then show ?thesis using consume c(7) by blast
  next
    case False
    obtain i where i: "i \<in> {1..producer_threads S}" "push_iterations r i \<noteq> 0"
      using left False N(1,2,5) by (fastforce simp: finished_def atLeastLessThanSuc_atLeastAtMost)
    obtain rp qp where p: "producer_turn push S i r = Some (Inr rp)" "bench_inv S n qp rp"
      "\<forall>j. j \<noteq> i \<longrightarrow> turns_left S rp j = turns_left S r j" "turns_left S rp i \<le> turns_left S r i"
      "push_iterations r i \<noteq> 0 \<and>
         (\<not> push_i r i < pushes_per_iteration S \<or> (\<exists>s. push (bench_message S (push_index r i)) (bqueue r) = Some (Inr (True, s)))) \<longrightarrow>
         turns_left S rp i < turns_left S r i"
      by (rule producer_turn_inv [OF inv msgs i(1)])
    show ?thesis
    proof (cases "push_i r i < pushes_per_iteration S")
      case False
      with p i all_left_less [of i S rp r] show ?thesis by (intro exI [of _ "[i]"]) auto
    next
      case True
      have "pop_iterations r \<noteq> 0" using N(1) N(3) [OF i True] N(4) by linarith
      with False have q: "q = []" "pop_i r < pops_per_iteration S" "pop_iterations r \<noteq> 0" by auto
      have c8: "turns_left S rc 0 = turns_left S r 0" "\<forall>m. ok m \<longrightarrow> (\<exists>s. push m (bqueue rc) = Some (Inr (True, s)))"
        using c(8) q by auto
      obtain rp qp where p: "producer_turn push S i rc = Some (Inr rp)" "bench_inv S n qp rp"
        "\<forall>j. j \<noteq> i \<longrightarrow> turns_left S rp j = turns_left S rc j" "turns_left S rp i \<le> turns_left S rc i"
        "push_iterations rc i \<noteq> 0 \<and>
           (\<not> push_i rc i < pushes_per_iteration S \<or> (\<exists>s. push (bench_message S (push_index rc i)) (bqueue rc) = Some (Inr (True, s)))) \<longrightarrow>
           turns_left S rp i < turns_left S rc i"
        by (rule producer_turn_inv [OF c(2) msgs i(1)])
      have m: "ok (bench_message S (push_index rc i))" using c(2) by (intro msgs) (simp add: bench_inv_def)
      have "turns_left S rp i < turns_left S r i" using p(5) c(3,4) c8 m i by auto
      moreover have "turns_left S rp j \<le> turns_left S r j" if "j \<noteq> i" for j
        using p(3) that c(3) c8(1) by (cases "j = 0") auto
      ultimately show ?thesis
        using c(1) p(1,2) i(1) all_left_less [of i S rp r] by (intro exI [of _ "[0, i]"]) auto
    qed
  qed
qed

lemma bench_can_finish:
  assumes msgs: "\<And>x. used_index S x \<Longrightarrow> ok (bench_message S x)" and even: "pops_per_iteration S = producer_threads S * pushes_per_iteration S"
  shows "bench_inv S n q r \<Longrightarrow>
    \<exists>js r'. set js \<subseteq> {0..producer_threads S} \<and> bench_run push pop S js r = Some (Inr r') \<and> finished (Suc (producer_threads S)) r'"
proof (induction "all_left S r" arbitrary: q r rule: less_induct)
  case less
  show ?case
  proof (cases "finished (Suc (producer_threads S)) r")
    case True
    then show ?thesis by (intro exI [of _ "[]"]) auto
  next
    case False
    from bench_progress [OF less.prems msgs even False] obtain js r1 q1 where
      1: "set js \<subseteq> {0..producer_threads S}" "bench_run push pop S js r = Some (Inr r1)" "bench_inv S n q1 r1" "all_left S r1 < all_left S r"
      by blast
    from less.hyps [OF 1(4,3)] obtain ks r' where
      "set ks \<subseteq> {0..producer_threads S}" "bench_run push pop S ks r1 = Some (Inr r')" "finished (Suc (producer_threads S)) r'" by blast
    with 1 show ?thesis by (intro exI [of _ "js @ ks"] exI [of _ r']) (auto simp: bench_run_append)
  qed
qed

lemma bench_start_inv: "rep s [] \<Longrightarrow> bench_inv S n [] (bench_start S n b s)"
  by (simp add: bench_inv_def bench_start_def thread_count_def)

lemma bench_completes:
  assumes rep: "rep s []" and msgs: "\<And>x. used_index S x \<Longrightarrow> ok (bench_message S x)"
    and even: "pops_per_iteration S = producer_threads S * pushes_per_iteration S"
    and items: "reported_items reports = int (n * pops_per_iteration S)" and threads: "threads = Suc (producer_threads S)"
  shows "completes shown threads (run_benchmark push pop S n b reports s)"
    and "set is \<subseteq> {0..<threads} \<Longrightarrow> run_benchmark push pop S n b reports s is = Some (Inr (Ran r rs)) \<Longrightarrow>
      finished threads r \<Longrightarrow> rep (bqueue r) []"
proof -
  have run: "\<exists>r q. bench_run push pop S is (bench_start S n b s) = Some (Inr r) \<and> bench_inv S n q r \<and>
      (finished threads r \<longrightarrow> q = [] \<and> length (taken r) = n * pops_per_iteration S)"
    if "set is \<subseteq> {0..<threads}" for "is"
  proof -
    have "set is \<subseteq> {0..producer_threads S}" using that threads by (simp add: atLeastLessThanSuc_atLeastAtMost)
    from bench_run_inv [OF msgs bench_start_inv [OF rep] this] obtain r q where
      r: "bench_run push pop S is (bench_start S n b s) = Some (Inr r)" "bench_inv S n q r" by blast
    note N = bench_counts [OF r(2) even]
    have "finished threads r \<longrightarrow> q = [] \<and> length (taken r) = n * pops_per_iteration S"
      using N(1,2,4) threads by (auto simp: finished_def atLeastLessThanSuc_atLeastAtMost)
    with r show ?thesis by blast
  qed
  show "completes shown threads (run_benchmark push pop S n b reports s)"
    unfolding completes_def
  proof (intro allI impI)
    fix "is" assume "set is \<subseteq> {0..<threads}"
    from run [OF this] obtain r q where r: "bench_run push pop S is (bench_start S n b s) = Some (Inr r)"
      "bench_inv S n q r" "finished threads r \<longrightarrow> q = [] \<and> length (taken r) = n * pops_per_iteration S" by blast
    from r(2) obtain dn where dn: "list_all2 shown (taken r) dn" "map snd (given r) = dn @ q" by (auto simp: bench_inv_def)
    from bench_can_finish [OF msgs even r(2)] obtain js r' where
      js: "set js \<subseteq> {0..<threads}" "bench_run push pop S js r = Some (Inr r')" "finished threads r'"
      using threads by (auto simp: atLeastLessThanSuc_atLeastAtMost)
    with r(1) have "run_benchmark push pop S n b reports s (is @ js) = Some (Inr (Ran r' reports))"
      by (simp add: run_benchmark_def bench_run_append)
    moreover have "run_benchmark push pop S n b reports s is = Some (Inr (Ran r reports))"
      using r(1) by (simp add: run_benchmark_def)
    moreover have "finished threads r \<longrightarrow> list_all2 shown (taken r) (map snd (given r)) \<and> reported_items reports = int (length (taken r))"
      using r(3) dn items by auto
    ultimately show "\<exists>r reports'. run_benchmark push pop S n b reports s is = Some (Inr (Ran r reports')) \<and>
        (\<exists>popped rest. list_all2 shown (taken r) popped \<and> map snd (given r) = popped @ rest) \<and>
        (\<exists>js r' reports''. set js \<subseteq> {0..<threads} \<and>
           run_benchmark push pop S n b reports s (is @ js) = Some (Inr (Ran r' reports'')) \<and> finished threads r') \<and>
        (finished threads r \<longrightarrow> list_all2 shown (taken r) (map snd (given r)) \<and>
           reported_items reports' = int (length (taken r)))"
      using dn js(1,3) by blast
  qed
  show "rep (bqueue r) []" if "set is \<subseteq> {0..<threads}" "finished threads r"
    "run_benchmark push pop S n b reports s is = Some (Inr (Ran r rs))"
    using run [OF that(1)] that(2,3) by (auto simp: run_benchmark_def bench_inv_def)
qed

text \<open>A benchmark that starts each run with \<open>enter q\<close>, where \<open>q\<close> is the queue left by the run before.\<close>

lemma bench_benchmark_ok:
  assumes BM: "\<And>a n q. BM a n q = run_benchmark push pop (S a) n b (reports a n) (enter q)"
    and q0: "rep (enter q0) []" and enter: "\<And>s. rep s [] \<Longrightarrow> rep (enter (left s)) []"
    and S: "\<And>a x. used_index (S a) x \<Longrightarrow> ok (bench_message (S a) x)" "\<And>a. pops_per_iteration (S a) = producer_threads (S a) * pushes_per_iteration (S a)"
      "\<And>a. threads a = Suc (producer_threads (S a))"
    and items: "\<And>a n. reported_items (reports a n) = int (n * pops_per_iteration (S a))"
  shows "benchmark_ok shown threads left q0 BM"
proof (rule benchmark_okI [of "\<lambda>q. rep (enter q) []"])
  note C = bench_completes [OF _ S(1,2) items S(3)]
  show "completes shown (threads a) (BM a n q)" if "rep (enter q) []" for q a n
    unfolding BM using that by (rule C(1))
  show "rep (enter (left (bqueue r))) []"
    if "rep (enter q) []" "set is \<subseteq> {0..<threads a}" "BM a n q is = Some (Inr (Ran r rs))" "finished (threads a) r"
    for q a n "is" r rs
    using enter C(2) [OF that(1) _ that(2)] that(3,4) unfolding BM by blast
qed (rule q0)

end

end
