(* ===== verification/Bench_Queues.thy ===== *)
theory Bench_Queues
  imports Bench_Loops Ipc_Adapter Shared_Ring_Buffer_MPMC
begin

text \<open>
  The queues that the benchmarks run on, as queues whose calls can be tried again (\<open>retry_queue\<close>):
  messages of bytes on any byte ring, typed values on any byte ring, the slots of \<open>SPSCQueue\<close>, and
  the locked queue of \<open>benchmark_ring_buffer.cpp\<close> that the others are compared with.
\<close>

section \<open>Bytes on a ring\<close>

text \<open>\<open>Ring::try_push(span, type)\<close> and \<open>Ring::try_pop(out, type)\<close>.\<close>

definition ring_push :: "push_fun \<Rightarrow> byte list \<times> u16 \<Rightarrow> ring_state \<Rightarrow> (bool \<times> ring_state) exec option" where
  "ring_push push m st = push_span push st (fst m) (snd m)"

definition ring_pop ::
  "pop_fun \<Rightarrow> byte list \<times> u16 \<Rightarrow> ring_state \<Rightarrow> (bool \<times> (byte list \<times> u16) \<times> ring_state) exec option"
where
  "ring_pop pop b st =
     bindL (pop st \<lparr>out = fst b, out_type = snd b, out_sequence = None\<rparr>)
       (\<lambda>(ok, p, st). Some (Inr (ok, (out p, out_type p), st)))"

text \<open>A ring whose capacity divides \<open>2^64\<close>, so that no number of messages wears it out.\<close>

definition ring_holds :: "nat \<Rightarrow> ring_state \<Rightarrow> (byte list \<times> u16) list \<Rightarrow> bool" where
  "ring_holds c st q \<longleftrightarrow> c dvd 2 ^ 64 \<and> length (ring st) = c \<and> (\<exists>h t ms. ring_inv st h t ms \<and> map content ms = q)"

lemma ring_holdsI:
  "c dvd 2 ^ 64 \<Longrightarrow> length (ring st) = c \<Longrightarrow> ring_inv st h t ms \<Longrightarrow> map content ms = q \<Longrightarrow> ring_holds c st q"
  unfolding ring_holds_def by blast

definition half_fits :: "nat \<Rightarrow> nat \<Rightarrow> bool" where
  "half_fits c n \<longleftrightarrow> n < 2 ^ 32 \<and> 2 * rec_len n \<le> c"

lemma empty_ring_holds: "0 < c \<Longrightarrow> c < 2 ^ 63 \<Longrightarrow> c dvd 2 ^ 64 \<Longrightarrow> ring_holds c (empty_ring c) []"
  using empty_ring_inv [of c] by (auto simp: ring_holds_def empty_ring_def)

lemma push_fits_empty: "half_fits (length (ring st)) n \<Longrightarrow> push_fits st t t n"
  by (simp add: half_fits_def push_fits_def push_len_def pad_len_def)

context byte_ring
begin

lemma push_span_law:
  assumes "ring_inv st h t ms" "length bs < 2 ^ 32" "length (ring st) dvd 2 ^ 64"
  shows "\<exists>st' t'. push_span push st bs ty = Some (Inr (push_fits st h t (length bs), st')) \<and>
    ring_inv st' h t' (if push_fits st h t (length bs) then ms @ [next_message st bs ty] else ms) \<and>
    length (ring st') = length (ring st)"
proof -
  let ?n = "ucast (of_nat (length bs) :: u64) :: u32"
  have l: "unat ?n = length bs"
    using assms(2) by (simp add: unsigned_ucast_eq unsigned_of_nat take_bit_nat_eq_self)
  have "readable (Some bs) ?n" "source_bytes (Some bs) ?n = bs"
    by (simp_all add: readable_def source_bytes_def l)
  moreover have "counter_headroom (length (ring st)) t" using assms(3) by (simp add: counter_headroom_def)
  ultimately show ?thesis
    using push_law [OF assms(1), of "Some bs" ?n ty] by (auto simp: push_span_def l)
qed

end

sublocale byte_ring \<subseteq> span: retry_queue "ring_push push" "ring_pop pop" "ring_holds c"
  "\<lambda>m. half_fits c (length (fst m))" prefix_shown for c
proof unfold_locales
  fix n :: nat and s q and m :: "byte list \<times> u16"
  assume rep: "ring_holds c s q" and m: "half_fits c (length (fst m))"
  then obtain h t ms where R: "c dvd 2 ^ 64" "length (ring s) = c" "ring_inv s h t ms" "map content ms = q"
    by (auto simp: ring_holds_def)
  from push_span_law [OF R(3), of "fst m" "snd m"] R(1,2) m obtain a st' t' where
    "push_span push s (fst m) (snd m) = Some (Inr (a, st'))"
    "ring_inv st' h t' (if a then ms @ [next_message s (fst m) (snd m)] else ms)" "length (ring st') = c"
    by (auto simp: half_fits_def)
  moreover from this(2) have "ring_holds c st' (if a then q @ [m] else q)"
    using R(1,4) \<open>length (ring st') = c\<close> by (intro ring_holdsI) (auto simp: content_def next_message_def)
  ultimately show "\<exists>a s'. ring_push push m s = Some (Inr (a, s')) \<and> ring_holds c s' (if a then q @ [m] else q)"
    by (auto simp: ring_push_def)
next
  fix n :: nat and s and b :: "byte list \<times> u16"
  assume "ring_holds c s []"
  then obtain h t where R: "c dvd 2 ^ 64" "length (ring s) = c" "ring_inv s h t []" by (auto simp: ring_holds_def)
  from pop_empty_law [OF R(3), of "\<lparr>out = fst b, out_type = snd b, out_sequence = None\<rparr>"] obtain s' where
    s': "pop s \<lparr>out = fst b, out_type = snd b, out_sequence = None\<rparr> =
      Some (Inr (False, \<lparr>out = fst b, out_type = snd b, out_sequence = None\<rparr>, s'))"
    "ring_inv s' t t []" "length (ring s') = c" using R(2) by auto
  then have "ring_holds c s' []" using R(1) by (intro ring_holdsI) auto
  with s'(1) show "\<exists>s'. ring_pop pop b s = Some (Inr (False, b, s')) \<and> ring_holds c s' []"
    by (auto simp: ring_pop_def)
next
  fix n :: nat and s q and b m :: "byte list \<times> u16"
  assume "ring_holds c s (m # q)"
  then obtain h t x xs where R: "c dvd 2 ^ 64" "length (ring s) = c" "ring_inv s h t (x # xs)" "content x = m" "map content xs = q"
    by (auto simp: ring_holds_def)
  let ?p = "\<lparr>out = fst b, out_type = snd b, out_sequence = None\<rparr>"
  from pop_first_law [OF R(3), of ?p] obtain s' h' where
    s': "pop s ?p = Some (Inr (True, deliver ?p x, s'))" "ring_inv s' h' t xs" "length (ring s') = c"
    using R(2) by auto
  then have "ring_holds c s' q" using R(1,5) by (intro ring_holdsI)
  with s'(1) R(4) show "\<exists>b' s'. ring_pop pop b s = Some (Inr (True, b', s')) \<and> prefix_shown b' m \<and> ring_holds c s' q"
    by (auto simp: ring_pop_def prefix_shown_def deliver_def content_def)
next
  fix s and b b' m :: "byte list \<times> u16" and s'
  assume "ring_holds c s []" and pop: "ring_pop pop b s = Some (Inr (False, b', s'))" and m: "half_fits c (length (fst m))"
  then obtain h t where R: "c dvd 2 ^ 64" "length (ring s) = c" "ring_inv s h t []" by (auto simp: ring_holds_def)
  from pop_empty_law [OF R(3), of "\<lparr>out = fst b, out_type = snd b, out_sequence = None\<rparr>"] pop R(2)
  have s': "ring_inv s' t t []" "length (ring s') = c" by (auto simp: ring_pop_def)
  from push_span_law [OF s'(1), of "fst m" "snd m"] push_fits_empty [of s' "length (fst m)" t] s'(2) R(1) m
  show "\<exists>s''. ring_push push m s' = Some (Inr (True, s''))" by (auto simp: ring_push_def half_fits_def)
qed

section \<open>Typed values on a ring\<close>

text \<open>
  \<open>TypedMessageWriter::try_push_typed\<close> and \<open>TypedMessageReader::try_pop_typed\<close>; the state is the ring
  and the reader's buffer. For a trivially copyable type the writer passes the bytes of the value on.
\<close>

definition typed_push ::
  "push_fun \<Rightarrow> 'a encoder \<Rightarrow> u16 \<Rightarrow> 'a \<Rightarrow> ring_state \<times> TypedMessageReader \<Rightarrow>
     (bool \<times> ring_state \<times> TypedMessageReader) exec option"
where
  "typed_push push encode ty v s =
     bindL (try_push_typed push encode [] (fst s) v ty) (\<lambda>(ok, _, st). Some (Inr (ok, st, snd s)))"

definition trivial_push ::
  "push_fun \<Rightarrow> nat \<Rightarrow> u16 \<Rightarrow> byte list \<Rightarrow> ring_state \<times> TypedMessageReader \<Rightarrow>
     (bool \<times> ring_state \<times> TypedMessageReader) exec option"
where
  "trivial_push push n ty v s =
     bindL (try_push_trivial push n (fst s) v ty) (\<lambda>(ok, st). Some (Inr (ok, st, snd s)))"

definition typed_pop ::
  "pop_fun \<Rightarrow> 'a decoder \<Rightarrow> u16 \<Rightarrow> 'a \<Rightarrow> ring_state \<times> TypedMessageReader \<Rightarrow>
     (bool \<times> 'a \<times> ring_state \<times> TypedMessageReader) exec option"
where
  "typed_pop pop decode ty dst s =
     bindL (try_pop_typed pop decode (snd s) ty dst (fst s)) (\<lambda>(ok, v, rd, st). Some (Inr (ok, v, st, rd)))"

text \<open>
  The ring holds encoded values of type number \<open>ty\<close>, all \<open>l\<close> bytes long, and the reader has seen
  nothing longer.
\<close>

definition typed_holds ::
  "'a encoder \<Rightarrow> ('a \<Rightarrow> bool) \<Rightarrow> nat \<Rightarrow> nat \<Rightarrow> u16 \<Rightarrow> ring_state \<times> TypedMessageReader \<Rightarrow> 'a list \<Rightarrow> bool"
where
  "typed_holds encode ok c l ty s q \<longleftrightarrow> ring_holds c (fst s) (map (\<lambda>v. (snd (encode v []), ty)) q) \<and>
     (\<forall>v \<in> set q. ok v \<and> length (snd (encode v [])) = l) \<and> length (buffer (snd s)) \<le> l"

context typed_channel
begin

lemma typed_push_eq:
  assumes "ok v"
  shows "typed_push push encode ty v s =
    bindL (ring_push push (snd (encode v []), ty) (fst s)) (\<lambda>(r, st). Some (Inr (r, st, snd s)))"
  using encode_pair [OF assms, of "[]"]
  by (cases "push_span push (fst s) (snd (encode v [])) ty" rule: option.exhaust)
    (auto simp: typed_push_def try_push_typed_def ring_push_def bindL_def Let_def split: sum.splits prod.splits)

end

sublocale typed_channel \<subseteq> typed: retry_queue "typed_push push encode ty" "typed_pop pop decode ty"
  "typed_holds encode ok c l ty" "\<lambda>v. ok v \<and> length (snd (encode v [])) = l \<and> half_fits c l" "(=)" for c l ty
proof unfold_locales
  fix n :: nat and s q v
  assume rep: "typed_holds encode ok c l ty s q" and v: "ok v \<and> length (snd (encode v [])) = l \<and> half_fits c l"
  have "ring_holds c (fst s) (map (\<lambda>v. (snd (encode v []), ty)) q)" using rep by (simp add: typed_holds_def)
  from span.push_some [OF this, of "(snd (encode v []), ty)"] v obtain a s' where
    "ring_push push (snd (encode v []), ty) (fst s) = Some (Inr (a, s'))"
    "ring_holds c s' (if a then map (\<lambda>v. (snd (encode v []), ty)) q @ [(snd (encode v []), ty)]
       else map (\<lambda>v. (snd (encode v []), ty)) q)" by auto
  with rep v typed_push_eq [of v ty s]
  show "\<exists>a s'. typed_push push encode ty v s = Some (Inr (a, s')) \<and> typed_holds encode ok c l ty s' (if a then q @ [v] else q)"
    by (intro exI [of _ a] exI [of _ "(s', snd s)"]) (auto simp: typed_holds_def split: if_splits)
next
  fix n :: nat and s b
  assume rep: "typed_holds encode ok c l ty s []"
  then obtain h t where R: "c dvd 2 ^ 64" "length (ring (fst s)) = c" "ring_inv (fst s) h t []"
    by (auto simp: typed_holds_def ring_holds_def)
  let ?p = "\<lparr>out = buffer (snd s), out_type = last_type (snd s), out_sequence = Some (last_sequence (snd s))\<rparr>"
  from pop_empty_law [OF R(3), of ?p] obtain st' where
    s': "pop (fst s) ?p = Some (Inr (False, ?p, st'))" "ring_inv st' t t []" "length (ring st') = c" using R(2) by auto
  then have "ring_holds c st' []" using R(1) by (intro ring_holdsI) auto
  with s'(1) rep show "\<exists>s'. typed_pop pop decode ty b s = Some (Inr (False, b, s')) \<and> typed_holds encode ok c l ty s' []"
    by (auto simp: typed_pop_def try_pop_typed_def reader_try_pop_def typed_holds_def Let_def)
next
  fix n :: nat and s v q b
  assume rep: "typed_holds encode ok c l ty s (v # q)"
  then have v: "ok v" "length (snd (encode v [])) = l" "length (buffer (snd s)) \<le> l" by (auto simp: typed_holds_def)
  from rep obtain h t x xs where R: "c dvd 2 ^ 64" "length (ring (fst s)) = c" "ring_inv (fst s) h t (x # xs)"
    "content x = (snd (encode v []), ty)" "map content xs = map (\<lambda>v. (snd (encode v []), ty)) q"
    by (auto simp: typed_holds_def ring_holds_def)
  from pop_first_law [OF R(3), of "\<lparr>out = buffer (snd s), out_type = last_type (snd s), out_sequence = Some (last_sequence (snd s))\<rparr>"]
  obtain st' h' where
    s': "pop (fst s) \<lparr>out = buffer (snd s), out_type = last_type (snd s), out_sequence = Some (last_sequence (snd s))\<rparr> =
      Some (Inr (True, deliver \<lparr>out = buffer (snd s), out_type = last_type (snd s), out_sequence = Some (last_sequence (snd s))\<rparr> x, st'))"
    "ring_inv st' h' t xs" "length (ring st') = c" using R(2) by auto
  then have "ring_holds c st' (map (\<lambda>v. (snd (encode v []), ty)) q)" using R(1,5) by (intro ring_holdsI)
  with s'(1) rep v R(4) decode_encode [OF v(1), of "[]" b]
  show "\<exists>b' s'. typed_pop pop decode ty b s = Some (Inr (True, b', s')) \<and> b' = v \<and> typed_holds encode ok c l ty s' q"
    by (auto simp: typed_pop_def try_pop_typed_def reader_try_pop_def typed_holds_def Let_def deliver_def content_def)
next
  fix s v b b' s'
  assume rep: "typed_holds encode ok c l ty s []" and pop: "typed_pop pop decode ty b s = Some (Inr (False, b', s'))"
    and v: "ok v \<and> length (snd (encode v [])) = l \<and> half_fits c l"
  then obtain h t where R: "c dvd 2 ^ 64" "length (ring (fst s)) = c" "ring_inv (fst s) h t []"
    by (auto simp: typed_holds_def ring_holds_def)
  let ?p = "\<lparr>out = buffer (snd s), out_type = last_type (snd s), out_sequence = Some (last_sequence (snd s))\<rparr>"
  from pop_empty_law [OF R(3), of ?p] pop R(2) have s': "ring_inv (fst s') t t []" "length (ring (fst s')) = c"
    by (auto simp: typed_pop_def try_pop_typed_def reader_try_pop_def Let_def)
  from push_span_law [OF s'(1), of "snd (encode v [])" ty] push_fits_empty [of "fst s'" "length (snd (encode v []))" t] s'(2) R(1) v
  show "\<exists>s''. typed_push push encode ty v s' = Some (Inr (True, s''))"
    using typed_push_eq [of v ty s'] by (auto simp: ring_push_def half_fits_def)
qed

lemma trivial_push_eq:
  assumes "length v = n"
  shows "trivial_push push n ty v s = typed_push push (trivial_encode n) ty v s"
  using assms
  by (cases "push_span push (fst s) v ty" rule: option.exhaust)
    (auto simp: trivial_push_def typed_push_def try_push_trivial_def try_push_typed_def push_span_def trivial_encode_def
      mem_write_all bindL_def Let_def split: sum.splits prod.splits)

lemma retry_queue_push_cong:
  assumes "retry_queue push pop rep ok shown" "\<And>m s. ok m \<Longrightarrow> push' m s = push m s"
  shows "retry_queue push' pop rep ok shown"
proof -
  have "\<exists>a s'. push' m s = Some (Inr (a, s')) \<and> rep s' (if a then q @ [m] else q)" if "rep s q" "ok m" for s q m
    using retry_queue.axioms(1) [OF assms(1)] polled_queue.push_some that assms(2) by fastforce
  moreover have "\<exists>s''. push' m s' = Some (Inr (True, s''))"
    if "rep s []" "pop b s = Some (Inr (False, b', s'))" "ok m" for s b b' s' m
    using retry_queue.push_after_empty [OF assms(1) that] assms(2) that(3) by simp
  ultimately show ?thesis
    using retry_queue.axioms(1) [OF assms(1)] by unfold_locales (auto simp: polled_queue_def)
qed

interpretation spsc_trivial: typed_channel spsc_try_push spsc_try_pop_internal
    "trivial_encode n" "trivial_decode n" "\<lambda>v. length v = n"
  by unfold_locales

interpretation mpsc_value: retry_queue "trivial_push (SharedRingBuffer_try_push fails) n ty"
  "typed_pop try_pop_internal (trivial_decode n) ty" "typed_holds (trivial_encode n) (\<lambda>v. length v = n) c l ty"
  "\<lambda>v. length v = n \<and> length (snd (trivial_encode n v [])) = l \<and> half_fits c l" "(=)" for fails n ty c l
  by (rule retry_queue_push_cong [OF mpsc_trivial.typed.retry_queue_axioms]) (simp add: trivial_push_eq)

interpretation spsc_value: retry_queue "trivial_push spsc_try_push n ty"
  "typed_pop spsc_try_pop_internal (trivial_decode n) ty" "typed_holds (trivial_encode n) (\<lambda>v. length v = n) c l ty"
  "\<lambda>v. length v = n \<and> length (snd (trivial_encode n v [])) = l \<and> half_fits c l" "(=)" for n ty c l
  by (rule retry_queue_push_cong [OF spsc_trivial.typed.retry_queue_axioms]) (simp add: trivial_push_eq)

lemma new_reader_holds:
  "ring_holds c st [] \<Longrightarrow> typed_holds encode ok c l ty (st, new_reader) []"
  "typed_holds encode ok c l ty s [] \<Longrightarrow> typed_holds encode ok c l ty (fst s, new_reader) []"
  by (simp_all add: typed_holds_def new_reader_def)

lemma length_encoded:
  "length v = n \<Longrightarrow> length (snd (trivial_encode n v [])) = n" "length (snd (string_encode v [])) = length v"
  by (simp_all add: trivial_encode_def string_encode_def mem_write_all Let_def)

section \<open>Slots\<close>

text \<open>Any bounded queue that never blocks, its operations returning at once.\<close>

definition at_once :: "('a \<Rightarrow> 's \<Rightarrow> 'r exec) \<Rightarrow> 'a \<Rightarrow> 's \<Rightarrow> 'r exec option" where
  "at_once f a s = Some (f a s)"

lemma bounded_retry_queue:
  assumes "fixed_queue push pop rep ok slots" "0 < slots"
  shows "retry_queue (at_once push) (at_once pop) rep ok (=)"
proof -
  note Q = fixed_queue.push_full [OF assms(1)] fixed_queue.push_room [OF assms(1)]
    fixed_queue.pop_none [OF assms(1)] fixed_queue.pop_some [OF assms(1)] fixed_queue.rep_le [OF assms(1)]
  have "\<exists>a s'. at_once push m s = Some (Inr (a, s')) \<and> rep s' (if a then q @ [m] else q)" if "rep s q" "ok m" for s q m
    using that Q(1) [of s q m] Q(2) [of s q m] Q(5) [of s q]
    by (cases "length q = slots") (auto simp: at_once_def intro: exI [of _ False] exI [of _ True])
  moreover have "\<exists>s'. push m s = Inr (True, s')" if "rep s []" "ok m" for s m
    using Q(2) [OF that(1)] that(2) assms(2) by auto
  ultimately show ?thesis using Q(3,4) by unfold_locales (auto simp: at_once_def)
qed

interpretation slot_bench: retry_queue "slot_push (2 ^ k) (of_nat n)" "slot_pop (2 ^ k) (of_nat n)"
  "queue_holds k n" "\<lambda>v. length v = n" "(=)" for k n
proof -
  have "slot_push N sz = at_once (queue_try_push N sz)" "slot_pop N sz = at_once (queue_try_pop N sz)" for N sz
    by (simp_all add: fun_eq_iff slot_push_def slot_pop_def at_once_def)
  then show "retry_queue (slot_push (2 ^ k) (of_nat n)) (slot_pop (2 ^ k) (of_nat n)) (queue_holds k n) (\<lambda>v. length v = n) (=)"
    using bounded_retry_queue [OF slots.fixed_queue_axioms] by simp
qed

section \<open>The locked queue\<close>

text \<open>
  \<open>LockedQueue\<close>: a \<open>std::queue\<close> that never refuses; every operation holds the lock from its first to
  its last access and is one step.
\<close>

definition enqueue :: "byte list \<Rightarrow> byte list list \<Rightarrow> byte list list" where
  "enqueue data queue = queue @ [data]"

definition dequeue :: "byte list \<Rightarrow> byte list list \<Rightarrow> bool \<times> byte list \<times> byte list list" where
  "dequeue dst queue = (if queue = [] then (False, dst, queue) else (True, hd queue, tl queue))"

definition locked_push :: "byte list \<Rightarrow> byte list list \<Rightarrow> (bool \<times> byte list list) exec option" where
  "locked_push data queue = Some (Inr (True, enqueue data queue))"

definition locked_pop :: "byte list \<Rightarrow> byte list list \<Rightarrow> (bool \<times> byte list \<times> byte list list) exec option" where
  "locked_pop dst queue = Some (Inr (dequeue dst queue))"

interpretation locked: retry_queue locked_push locked_pop "(=)" "\<lambda>_. True" "(=)"
  by unfold_locales (auto simp: locked_push_def locked_pop_def enqueue_def dequeue_def)

end
