(* ===== verification/Benchmarks.thy ===== *)
theory Benchmarks
  imports Bench_Queues
begin

text \<open>
  The queue benchmarks of \<open>bench/benchmark_ring_buffer.cpp\<close>: their payloads, their static queues and one
  definition per benchmark. Thread 0 pops and the others push. Each benchmark is shown to complete,
  however its threads are scheduled and however often it is run on its queue, and to report what it did.
\<close>

section \<open>Payloads\<close>

text \<open>A \<open>float\<close> or \<open>double\<close> is given by its bits (IEEE 754).\<close>

type_synonym double = u64
type_synonym float = u32

fun binary_exponent :: "nat \<Rightarrow> nat" where
  "binary_exponent i = (if i < 2 then 0 else Suc (binary_exponent (i div 2)))"

text \<open>\<open>static_cast<float>(i)\<close>, exact for \<open>i < 2^24\<close>.\<close>

definition float_of_nat :: "nat \<Rightarrow> float" where
  "float_of_nat i =
     (if i = 0 then 0
      else let e = binary_exponent i in of_nat ((127 + e) * 2 ^ 23 + (i - 2 ^ e) * 2 ^ (23 - e)))"

definition make_payload :: "nat \<Rightarrow> byte list" where
  "make_payload n = replicate n 0x5A"

record Tick =
  tick_seq :: u64
  tick_value :: double

record RobotState =
  tick :: u64
  robot_id :: u32
  mode :: u32
  position :: "double list"
  velocity :: "double list"
  joints :: "float list"

text \<open>The bytes of the structures; there is no padding in them.\<close>

definition tick_bytes :: "Tick \<Rightarrow> byte list" where
  "tick_bytes t = enc64 (tick_seq t) @ enc64 (tick_value t)"

definition robot_bytes :: "RobotState \<Rightarrow> byte list" where
  "robot_bytes r = enc64 (tick r) @ enc32 (robot_id r) @ enc32 (mode r) @
     concat (map enc64 (position r)) @ concat (map enc64 (velocity r)) @ concat (map enc32 (joints r))"

text \<open>\<open>MessageType<Tick>\<close> and \<open>MessageType<RobotState>\<close>.\<close>

definition message_type_Tick :: u16 where "message_type_Tick = 77"
definition message_type_RobotState :: u16 where "message_type_RobotState = 78"

text \<open>\<open>Tick{42, 123.5}\<close>, and the robot state that the benchmarks send.\<close>

definition bench_tick :: Tick where
  "bench_tick = \<lparr>tick_seq = 42, tick_value = 0x405EE00000000000\<rparr>"

definition state_msg :: RobotState where
  "state_msg =
     \<lparr>tick = 123, robot_id = 7, mode = 2,
      position = [0x3FF0000000000000, 0x4000000000000000, 0x4008000000000000],
      velocity = [0x3FB999999999999A, 0x3FC999999999999A, 0x3FD3333333333333],
      joints = map float_of_nat [0..<32]\<rparr>"

definition robot_ok :: "RobotState \<Rightarrow> bool" where
  "robot_ok r \<longleftrightarrow> length (position r) = 3 \<and> length (velocity r) = 3 \<and> length (joints r) = 32"

lemma length_concat_enc [simp]:
  "length (concat (map enc64 xs)) = 8 * length xs" "length (concat (map enc32 ys)) = 4 * length ys"
proof -
  show "length (concat (map enc64 xs)) = 8 * length xs" by (induction xs) simp_all
  show "length (concat (map enc32 ys)) = 4 * length ys" by (induction ys) simp_all
qed

lemma length_robot_bytes: "robot_ok r \<Longrightarrow> length (robot_bytes r) = 192"
  by (simp add: robot_bytes_def robot_ok_def)

lemma length_payloads [simp]:
  "length (make_payload n) = n" "length (tick_bytes t) = 16" "length (robot_bytes state_msg) = 192"
  using length_robot_bytes [of state_msg] by (simp_all add: make_payload_def tick_bytes_def robot_ok_def state_msg_def)

section \<open>Static queues and counters\<close>

definition ring_small :: ring_state where "ring_small = empty_ring (2 ^ 20)"
definition ring_large :: ring_state where "ring_large = empty_ring (4 * 2 ^ 20)"
definition ring_typed_small :: ring_state where "ring_typed_small = empty_ring (2 ^ 20)"
definition ring_typed_string :: ring_state where "ring_typed_string = empty_ring (2 * 2 ^ 20)"
definition ring_typed_robot :: ring_state where "ring_typed_robot = empty_ring (4 * 2 ^ 20)"
definition ring_spsc_small :: ring_state where "ring_spsc_small = empty_ring (2 ^ 20)"
definition ring_typed_spsc_robot :: ring_state where "ring_typed_spsc_robot = empty_ring (4 * 2 ^ 20)"
definition fixed_spsc_small :: ring_state where "fixed_spsc_small = empty_ring (32768 * 32)"
definition fixed_spsc_robot :: ring_state where "fixed_spsc_robot = empty_ring (16384 * 192)"

text \<open>
  The call of \<open>SetBenchmarkCounters\<close> in one thread, and in all threads. Numbers of items are integers without
  bound; the source has 64 bits, which no run fills.
\<close>

definition SetBenchmarkCounters :: "nat \<Rightarrow> int \<Rightarrow> int \<Rightarrow> bench_report option" where
  "SetBenchmarkCounters thread_index total_items producers =
     (if thread_index \<noteq> 0 then None
      else Some \<lparr>items_processed = total_items,
             items_per_producer = (if producers > 0 then Some (of_int total_items / of_int producers) else None)\<rparr>)"

definition counters :: "nat \<Rightarrow> int \<Rightarrow> int \<Rightarrow> bench_report list" where
  "counters threads total_items producers =
     List.map_filter (\<lambda>i. SetBenchmarkCounters i total_items producers) [0..<threads]"

definition SetItemsProcessed :: "nat \<Rightarrow> bench_report" where
  "SetItemsProcessed items = \<lparr>items_processed = int items, items_per_producer = None\<rparr>"

section \<open>Messages of bytes\<close>

type_synonym byte_bench = "nat list \<Rightarrow> (byte list \<times> u16, byte list \<times> u16, ring_state) bench_outcome exec option"

definition BM_Ring_MPSC_Small :: "nat \<Rightarrow> nat \<Rightarrow> nat \<Rightarrow> ring_state \<Rightarrow> byte_bench" where
  "BM_Ring_MPSC_Small fails threads iterations st =
     (let payload = make_payload 32;
          producers = threads - 1
      in run_benchmark (ring_push (SharedRingBuffer_try_push fails)) (ring_pop try_pop_internal)
           (same_message producers 1 (payload, 1)) iterations ([], 0)
           (counters threads (int iterations * int producers) (int producers)) st)"

definition BM_Ring_SPSC_Small :: "nat \<Rightarrow> nat \<Rightarrow> ring_state \<Rightarrow> byte_bench" where
  "BM_Ring_SPSC_Small threads iterations st =
     (let payload = make_payload 32
      in if threads \<noteq> 2 then
           (\<lambda>_. Some (Inr (SkipWithError ''BM_Ring_SPSC_Small requires exactly 2 threads (1 producer, 1 consumer)'')))
         else run_benchmark (ring_push spsc_try_push) (ring_pop spsc_try_pop_internal)
           (same_message 1 1 (payload, 1)) iterations ([], 0) [SetItemsProcessed iterations] st)"

definition variable_sizes :: "nat \<Rightarrow> (byte list \<times> u16) bench_setup" where
  "variable_sizes producers =
     (let sizes = [64, 256, 1024, 4096];
          payloads = map make_payload sizes
      in \<lparr>producer_threads = producers, pops_per_iteration = producers, pushes_per_iteration = 1,
          bench_message = (\<lambda>index. (payloads ! index, 2)),
          first_index = (\<lambda>thread_index. thread_index mod length sizes),
          next_index = (\<lambda>index. (index + 1) mod length sizes)\<rparr>)"

definition BM_Ring_MPSC_Variable :: "nat \<Rightarrow> nat \<Rightarrow> nat \<Rightarrow> ring_state \<Rightarrow> byte_bench" where
  "BM_Ring_MPSC_Variable fails threads iterations st =
     (let producers = threads - 1
      in run_benchmark (ring_push (SharedRingBuffer_try_push fails)) (ring_pop try_pop_internal)
           (variable_sizes producers) iterations ([], 0)
           (counters threads (int iterations * int producers) (int producers)) st)"

section \<open>Typed messages\<close>

type_synonym typed_bench =
  "nat list \<Rightarrow> (byte list, byte list, ring_state \<times> TypedMessageReader) bench_outcome exec option"

text \<open>
  The reader is made anew in every run. Its variable \<open>out\<close> starts with all bytes zero, or as the
  empty string.
\<close>

definition BM_Typed_MPSC_Trivial :: "nat \<Rightarrow> nat \<Rightarrow> nat \<Rightarrow> ring_state \<Rightarrow> typed_bench" where
  "BM_Typed_MPSC_Trivial fails threads iterations st =
     (let producers = threads - 1
      in run_benchmark (trivial_push (SharedRingBuffer_try_push fails) 16 message_type_Tick)
           (typed_pop try_pop_internal (trivial_decode 16) message_type_Tick)
           (same_message producers 1 (tick_bytes bench_tick)) iterations (replicate 16 0)
           (counters threads (int iterations * int producers) (int producers)) (st, new_reader))"

definition BM_Typed_MPSC_String :: "nat \<Rightarrow> nat \<Rightarrow> nat \<Rightarrow> ring_state \<Rightarrow> typed_bench" where
  "BM_Typed_MPSC_String fails threads iterations st =
     (let producers = threads - 1;
          payload = replicate 256 (of_char (CHR ''x''))
      in run_benchmark (typed_push (SharedRingBuffer_try_push fails) string_encode 88)
           (typed_pop try_pop_internal string_decode 88)
           (same_message producers 1 payload) iterations []
           (counters threads (int iterations * int producers) (int producers)) (st, new_reader))"

definition BM_Typed_MPSC_RobotState :: "nat \<Rightarrow> nat \<Rightarrow> nat \<Rightarrow> ring_state \<Rightarrow> typed_bench" where
  "BM_Typed_MPSC_RobotState fails threads iterations st =
     (let producers = threads - 1
      in run_benchmark (trivial_push (SharedRingBuffer_try_push fails) 192 message_type_RobotState)
           (typed_pop try_pop_internal (trivial_decode 192) message_type_RobotState)
           (same_message producers 1 (robot_bytes state_msg)) iterations (replicate 192 0)
           (counters threads (int iterations * int producers) (int producers)) (st, new_reader))"

definition BM_Typed_MPSC_RobotState_Burst :: "nat \<Rightarrow> nat \<Rightarrow> nat \<Rightarrow> nat \<Rightarrow> ring_state \<Rightarrow> typed_bench" where
  "BM_Typed_MPSC_RobotState_Burst fails burst threads iterations st =
     (let producers = threads - 1
      in run_benchmark (trivial_push (SharedRingBuffer_try_push fails) 192 message_type_RobotState)
           (typed_pop try_pop_internal (trivial_decode 192) message_type_RobotState)
           (same_message producers burst (robot_bytes state_msg)) iterations (replicate 192 0)
           (counters threads (int iterations * int producers * int burst) (int producers)) (st, new_reader))"

definition BM_Typed_SPSC_RobotState :: "nat \<Rightarrow> nat \<Rightarrow> ring_state \<Rightarrow> typed_bench" where
  "BM_Typed_SPSC_RobotState threads iterations st =
     (if threads \<noteq> 2 then
        (\<lambda>_. Some (Inr (SkipWithError ''BM_Typed_SPSC_RobotState requires exactly 2 threads (1 producer, 1 consumer)'')))
      else run_benchmark (trivial_push spsc_try_push 192 message_type_RobotState)
        (typed_pop spsc_try_pop_internal (trivial_decode 192) message_type_RobotState)
        (same_message 1 1 (robot_bytes state_msg)) iterations (replicate 192 0)
        [SetItemsProcessed iterations] (st, new_reader))"

section \<open>The locked queue and the slots\<close>

definition BM_Locked_MPSC_Small ::
  "nat \<Rightarrow> nat \<Rightarrow> byte list list \<Rightarrow> nat list \<Rightarrow> (byte list, byte list, byte list list) bench_outcome exec option" where
  "BM_Locked_MPSC_Small threads iterations queue =
     (let payload = make_payload 32;
          producers = threads - 1
      in run_benchmark locked_push locked_pop (same_message producers 1 payload) iterations []
           (counters threads (int iterations * int producers) (int producers)) queue)"

type_synonym slot_bench = "nat list \<Rightarrow> (byte list, byte list, ring_state) bench_outcome exec option"

definition BM_FixedSPSC_Small :: "nat \<Rightarrow> nat \<Rightarrow> ring_state \<Rightarrow> slot_bench" where
  "BM_FixedSPSC_Small threads iterations q =
     (if threads \<noteq> 2 then (\<lambda>_. Some (Inr (SkipWithError ''BM_FixedSPSC_Small requires exactly 2 threads'')))
      else let payload = make_payload 32
           in run_benchmark (slot_push 32768 32) (slot_pop 32768 32) (same_message 1 1 payload) iterations
                (replicate 32 0) [SetItemsProcessed iterations] q)"

definition BM_FixedSPSC_RobotState :: "nat \<Rightarrow> nat \<Rightarrow> ring_state \<Rightarrow> slot_bench" where
  "BM_FixedSPSC_RobotState threads iterations q =
     (if threads \<noteq> 2 then (\<lambda>_. Some (Inr (SkipWithError ''BM_FixedSPSC_RobotState requires exactly 2 threads'')))
      else run_benchmark (slot_push 16384 192) (slot_pop 16384 192) (same_message 1 1 (robot_bytes state_msg))
             iterations (replicate 192 0) [SetItemsProcessed iterations] q)"

section \<open>The benchmarks complete\<close>

lemma reported_counters [simp]: "reported_items (counters (Suc n) m k) = m"
proof -
  have "List.map_filter (\<lambda>i. SetBenchmarkCounters i m k) [1..<Suc n] = []"
    unfolding List.map_filter_def by (auto simp: SetBenchmarkCounters_def filter_empty_conv)
  moreover have "[0..<Suc n] = 0 # [1..<Suc n]" by (simp add: upt_conv_Cons)
  ultimately show ?thesis
    unfolding counters_def reported_items_def by (simp add: List.map_filter_def SetBenchmarkCounters_def)
qed

lemma reported_processed [simp]: "reported_items [SetItemsProcessed n] = int n"
  by (simp add: reported_items_def SetItemsProcessed_def)

lemma same_message_simps [simp]:
  "producer_threads (same_message n burst m) = n" "pops_per_iteration (same_message n burst m) = n * burst"
  "pushes_per_iteration (same_message n burst m) = burst" "bench_message (same_message n burst m) x = m"
  by (simp_all add: same_message_def)

lemma bench_ring_holds: "k \<le> 32 \<Longrightarrow> ring_holds (2 ^ k) (empty_ring (2 ^ k)) []"
proof (rule empty_ring_holds)
  assume k: "k \<le> 32"
  show "(2 :: nat) ^ k < 2 ^ 63" using k by (intro power_strict_increasing) simp_all
  show "(2 :: nat) ^ k dvd 2 ^ 64" using k by (intro le_imp_power_dvd) simp
qed simp

lemma bench_rings_hold:
  "ring_holds (2 ^ 20) ring_small []" "ring_holds (2 ^ 20) ring_typed_small []" "ring_holds (2 ^ 20) ring_spsc_small []"
  "ring_holds (2 ^ 21) ring_typed_string []" "ring_holds (2 ^ 22) ring_large []"
  "ring_holds (2 ^ 22) ring_typed_robot []" "ring_holds (2 ^ 22) ring_typed_spsc_robot []"
  using bench_ring_holds [of 20] bench_ring_holds [of 21] bench_ring_holds [of 22]
  by (simp_all add: ring_small_def ring_typed_small_def ring_spsc_small_def ring_typed_string_def ring_large_def
      ring_typed_robot_def ring_typed_spsc_robot_def)

lemma bench_slots_hold: "queue_holds 15 32 fixed_spsc_small []" "queue_holds 14 192 fixed_spsc_robot []"
  unfolding fixed_spsc_small_def fixed_spsc_robot_def
  by (rule empty_queue_holds; simp add: template_ok_def)+

lemma bench_fits:
  "half_fits (2 ^ 20) 32" "half_fits (2 ^ 20) 16" "half_fits (2 ^ 21) 256" "half_fits (2 ^ 22) 192"
  "n \<le> 4096 \<Longrightarrow> half_fits (2 ^ 22) n"
  by (simp_all add: half_fits_def rec_len_def)

lemma variable_sizes_simps [simp]:
  "producer_threads (variable_sizes n) = n" "pops_per_iteration (variable_sizes n) = n"
  "pushes_per_iteration (variable_sizes n) = 1"
  by (simp_all add: variable_sizes_def Let_def)

lemma variable_sizes_fit:
  assumes "used_index (variable_sizes n) x"
  shows "half_fits (2 ^ 22) (length (fst (bench_message (variable_sizes n) x)))"
proof -
  have "x < 4" by (rule used_indexI [OF assms]) (simp_all add: variable_sizes_def Let_def)
  then have "x = 0 \<or> x = 1 \<or> x = 2 \<or> x = 3" by arith
  then have "length (fst (bench_message (variable_sizes n) x)) \<le> 4096"
    by (auto simp: variable_sizes_def Let_def)
  then show ?thesis by (rule bench_fits(5))
qed

lemma byte_benchmarks_complete:
  "benchmark_ok prefix_shown Suc (\<lambda>st. st) ring_small (\<lambda>n. BM_Ring_MPSC_Small fails (Suc n)) \<and>
   benchmark_ok prefix_shown Suc (\<lambda>st. st) ring_large (\<lambda>n. BM_Ring_MPSC_Variable fails (Suc n)) \<and>
   benchmark_ok prefix_shown (\<lambda>_ :: unit. 2) (\<lambda>st. st) ring_spsc_small (\<lambda>_. BM_Ring_SPSC_Small 2) \<and>
   benchmark_ok (=) (\<lambda>_ :: unit. 2) (\<lambda>st. st) fixed_spsc_small (\<lambda>_. BM_FixedSPSC_Small 2) \<and>
   benchmark_ok (=) (\<lambda>_ :: unit. 2) (\<lambda>st. st) fixed_spsc_robot (\<lambda>_. BM_FixedSPSC_RobotState 2) \<and>
   benchmark_ok (=) Suc (\<lambda>q. q) [] (\<lambda>n. BM_Locked_MPSC_Small (Suc n))"
proof (intro conjI)
  show "benchmark_ok prefix_shown Suc (\<lambda>st. st) ring_small (\<lambda>n. BM_Ring_MPSC_Small fails (Suc n))"
    by (rule mpsc.span.bench_benchmark_ok [where c = "2 ^ 20" and enter = "\<lambda>st. st", OF BM_Ring_MPSC_Small_def [unfolded Let_def]])
      (simp_all add: bench_rings_hold [simplified] bench_fits [simplified])
  show "benchmark_ok prefix_shown Suc (\<lambda>st. st) ring_large (\<lambda>n. BM_Ring_MPSC_Variable fails (Suc n))"
    by (rule mpsc.span.bench_benchmark_ok [where c = "2 ^ 22" and enter = "\<lambda>st. st", OF BM_Ring_MPSC_Variable_def [unfolded Let_def]])
      (simp_all add: bench_rings_hold [simplified] variable_sizes_fit [simplified])
  show "benchmark_ok prefix_shown (\<lambda>_ :: unit. 2) (\<lambda>st. st) ring_spsc_small (\<lambda>_. BM_Ring_SPSC_Small 2)"
    by (rule spsc.span.bench_benchmark_ok [where c = "2 ^ 20" and enter = "\<lambda>st. st" and S = "\<lambda>_. same_message 1 1 (make_payload 32, 1)" and reports = "\<lambda>_ n. [SetItemsProcessed n]"])
      (simp_all add: bench_rings_hold [simplified] bench_fits [simplified] BM_Ring_SPSC_Small_def)
  show "benchmark_ok (=) (\<lambda>_ :: unit. 2) (\<lambda>st. st) fixed_spsc_small (\<lambda>_. BM_FixedSPSC_Small 2)"
    by (rule slot_bench.bench_benchmark_ok [where k = 15 and n = 32 and enter = "\<lambda>st. st" and S = "\<lambda>_. same_message 1 1 (make_payload 32)" and reports = "\<lambda>_ n. [SetItemsProcessed n]"])
      (simp_all add: bench_slots_hold BM_FixedSPSC_Small_def)
  show "benchmark_ok (=) (\<lambda>_ :: unit. 2) (\<lambda>st. st) fixed_spsc_robot (\<lambda>_. BM_FixedSPSC_RobotState 2)"
    by (rule slot_bench.bench_benchmark_ok [where k = 14 and n = 192 and enter = "\<lambda>st. st" and S = "\<lambda>_. same_message 1 1 (robot_bytes state_msg)" and reports = "\<lambda>_ n. [SetItemsProcessed n]"])
      (simp_all add: bench_slots_hold BM_FixedSPSC_RobotState_def)
  show "benchmark_ok (=) Suc (\<lambda>q. q) [] (\<lambda>n. BM_Locked_MPSC_Small (Suc n))"
    by (rule locked.bench_benchmark_ok [where enter = "\<lambda>st. st", OF BM_Locked_MPSC_Small_def [unfolded Let_def]])
      simp_all
qed

text \<open>The two benchmarks that share a ring; \<open>None\<close> is the one without bursts.\<close>

definition robot_ring_benchmark :: "nat \<Rightarrow> nat option \<times> nat \<Rightarrow> nat \<Rightarrow> ring_state \<Rightarrow> typed_bench" where
  "robot_ring_benchmark fails a =
     (case fst a of None \<Rightarrow> BM_Typed_MPSC_RobotState fails (snd a)
      | Some burst \<Rightarrow> BM_Typed_MPSC_RobotState_Burst fails burst (snd a))"

lemma typed_benchmarks_complete:
  "benchmark_ok (=) Suc fst ring_typed_small (\<lambda>n. BM_Typed_MPSC_Trivial fails (Suc n)) \<and>
   benchmark_ok (=) Suc fst ring_typed_string (\<lambda>n. BM_Typed_MPSC_String fails (Suc n)) \<and>
   benchmark_ok (=) (\<lambda>a. Suc (snd a)) fst ring_typed_robot (\<lambda>a. robot_ring_benchmark fails (fst a, Suc (snd a))) \<and>
   benchmark_ok (=) (\<lambda>_ :: unit. 2) fst ring_typed_spsc_robot (\<lambda>_. BM_Typed_SPSC_RobotState 2)"
proof (intro conjI)
  note hold = bench_rings_hold [simplified] bench_fits [simplified] new_reader_holds length_encoded
  show "benchmark_ok (=) Suc fst ring_typed_small (\<lambda>n. BM_Typed_MPSC_Trivial fails (Suc n))"
    by (rule mpsc_value.bench_benchmark_ok [where c = "2 ^ 20" and l = 16 and enter = "\<lambda>st. (st, new_reader)",
          OF BM_Typed_MPSC_Trivial_def [unfolded Let_def]]) (simp_all add: hold)
  show "benchmark_ok (=) Suc fst ring_typed_string (\<lambda>n. BM_Typed_MPSC_String fails (Suc n))"
    by (rule mpsc_string.typed.bench_benchmark_ok [where c = "2 ^ 21" and l = 256 and enter = "\<lambda>st. (st, new_reader)",
          OF BM_Typed_MPSC_String_def [unfolded Let_def]]) (simp_all add: hold)
  show "benchmark_ok (=) (\<lambda>a. Suc (snd a)) fst ring_typed_robot (\<lambda>a. robot_ring_benchmark fails (fst a, Suc (snd a)))"
    by (rule mpsc_value.bench_benchmark_ok [where fails = fails and c = "2 ^ 22" and l = 192 and n = 192
          and ty = message_type_RobotState and enter = "\<lambda>st. (st, new_reader)" and b = "replicate 192 0"
          and S = "\<lambda>a. same_message (snd a) (case fst a of None \<Rightarrow> 1 | Some b \<Rightarrow> b) (robot_bytes state_msg)"
          and reports = "\<lambda>a n. counters (Suc (snd a)) (case fst a of None \<Rightarrow> int n * int (snd a)
            | Some b \<Rightarrow> int n * int (snd a) * int b) (int (snd a))"])
      (simp_all add: hold robot_ring_benchmark_def BM_Typed_MPSC_RobotState_def BM_Typed_MPSC_RobotState_Burst_def
        Let_def split: option.splits)
  show "benchmark_ok (=) (\<lambda>_ :: unit. 2) fst ring_typed_spsc_robot (\<lambda>_. BM_Typed_SPSC_RobotState 2)"
    by (rule spsc_value.bench_benchmark_ok [where c = "2 ^ 22" and l = 192 and n = 192 and ty = message_type_RobotState
          and enter = "\<lambda>st. (st, new_reader)" and b = "replicate 192 0"
          and S = "\<lambda>_. same_message 1 1 (robot_bytes state_msg)" and reports = "\<lambda>_ n. [SetItemsProcessed n]"])
      (simp_all add: hold BM_Typed_SPSC_RobotState_def)
qed

text \<open>
  C27. The queue benchmarks complete: those on bytes, on typed messages, on slots and on the locked
  queue. For every number of threads, every schedule of their calls and every sequence of earlier runs
  on the same queue: no call faults or hangs; thread 0 pops what the others push, in order; the threads
  can always finish; and then as many messages were popped as were pushed and as are reported.
\<close>

theorem queue_benchmarks_complete:
  "benchmark_ok prefix_shown Suc (\<lambda>st. st) ring_small (\<lambda>n. BM_Ring_MPSC_Small fails (Suc n)) \<and>
   benchmark_ok prefix_shown Suc (\<lambda>st. st) ring_large (\<lambda>n. BM_Ring_MPSC_Variable fails (Suc n)) \<and>
   benchmark_ok prefix_shown (\<lambda>_ :: unit. 2) (\<lambda>st. st) ring_spsc_small (\<lambda>_. BM_Ring_SPSC_Small 2) \<and>
   benchmark_ok (=) Suc fst ring_typed_small (\<lambda>n. BM_Typed_MPSC_Trivial fails (Suc n)) \<and>
   benchmark_ok (=) Suc fst ring_typed_string (\<lambda>n. BM_Typed_MPSC_String fails (Suc n)) \<and>
   benchmark_ok (=) (\<lambda>a. Suc (snd a)) fst ring_typed_robot (\<lambda>a. robot_ring_benchmark fails (fst a, Suc (snd a))) \<and>
   benchmark_ok (=) (\<lambda>_ :: unit. 2) fst ring_typed_spsc_robot (\<lambda>_. BM_Typed_SPSC_RobotState 2) \<and>
   benchmark_ok (=) (\<lambda>_ :: unit. 2) (\<lambda>st. st) fixed_spsc_small (\<lambda>_. BM_FixedSPSC_Small 2) \<and>
   benchmark_ok (=) (\<lambda>_ :: unit. 2) (\<lambda>st. st) fixed_spsc_robot (\<lambda>_. BM_FixedSPSC_RobotState 2) \<and>
   benchmark_ok (=) Suc (\<lambda>q. q) [] (\<lambda>n. BM_Locked_MPSC_Small (Suc n))"
  using byte_benchmarks_complete typed_benchmarks_complete by blast

end
