(* ===== verification/Bench_Boost.thy ===== *)
theory Bench_Boost
  imports Benchmarks
begin

text \<open>
  \<open>bench/benchmark_boost_lockfree.cpp\<close>: the benchmarks of \<open>boost::lockfree::spsc_queue\<close> and
  \<open>boost::lockfree::queue\<close>. The queues are arguments \<open>push\<close> and \<open>pop\<close> of the benchmarks; what Boost
  documents of them is the contract \<open>fixed_queue\<close>: a first-in-first-out queue of a fixed number of
  elements, \<open>push\<close> returning false when it is full and \<open>pop\<close> when it is empty. The benchmarks of
  \<open>SPSCQueue\<close> in that file are those of \<open>Benchmarks\<close>.
\<close>

type_synonym 's boost_push = "byte list \<Rightarrow> 's \<Rightarrow> (bool \<times> 's) exec"
type_synonym 's boost_pop = "byte list \<Rightarrow> 's \<Rightarrow> (bool \<times> byte list \<times> 's) exec"
type_synonym 's boost_bench = "nat \<Rightarrow> nat \<Rightarrow> 's \<Rightarrow> nat list \<Rightarrow> (byte list, byte list, 's) bench_outcome exec option"

definition make_small_payload :: "byte list" where
  "make_small_payload = replicate 32 0x5A"

definition make_robot_state :: RobotState where
  "make_robot_state =
     \<lparr>tick = 123, robot_id = 7, mode = 2,
      position = [0x3FF0000000000000, 0x4000000000000000, 0x4008000000000000],
      velocity = [0x3FB999999999999A, 0x3FC999999999999A, 0x3FD3333333333333],
      joints = map float_of_nat [0..<32]\<rparr>"

section \<open>The benchmarks\<close>

definition BM_Boost_SPSC_Small :: "'s boost_push \<Rightarrow> 's boost_pop \<Rightarrow> 's boost_bench" where
  "BM_Boost_SPSC_Small push pop threads iterations queue =
     (if threads \<noteq> 2 then (\<lambda>_. Some (Inr (SkipWithError ''BM_Boost_SPSC_Small requires exactly 2 threads'')))
      else let payload = make_small_payload
           in run_benchmark (at_once push) (at_once pop) (same_message 1 1 payload) iterations (replicate 32 0)
                [SetItemsProcessed iterations] queue)"

definition BM_Boost_SPSC_RobotState :: "'s boost_push \<Rightarrow> 's boost_pop \<Rightarrow> 's boost_bench" where
  "BM_Boost_SPSC_RobotState push pop threads iterations queue =
     (if threads \<noteq> 2 then (\<lambda>_. Some (Inr (SkipWithError ''BM_Boost_SPSC_RobotState requires exactly 2 threads'')))
      else let robot = make_robot_state
           in run_benchmark (at_once push) (at_once pop) (same_message 1 1 (robot_bytes robot)) iterations
                (replicate 192 0) [SetItemsProcessed iterations] queue)"

definition BM_Boost_MPMC_Small :: "'s boost_push \<Rightarrow> 's boost_pop \<Rightarrow> 's boost_bench" where
  "BM_Boost_MPMC_Small push pop threads iterations queue =
     (let payload = make_small_payload;
          producers = threads - 1
      in run_benchmark (at_once push) (at_once pop) (same_message producers 1 payload) iterations (replicate 32 0)
           (counters threads (int iterations * int producers) (int producers)) queue)"

definition BM_Boost_MPMC_RobotState :: "'s boost_push \<Rightarrow> 's boost_pop \<Rightarrow> 's boost_bench" where
  "BM_Boost_MPMC_RobotState push pop threads iterations queue =
     (let robot = make_robot_state;
          producers = threads - 1
      in run_benchmark (at_once push) (at_once pop) (same_message producers 1 (robot_bytes robot)) iterations
           (replicate 192 0) (counters threads (int iterations * int producers) (int producers)) queue)"

section \<open>They complete\<close>

text \<open>
  C30. The Boost benchmarks complete, on any queues that keep their documented contract and have room
  for at least one element: for every schedule of the threads and after any number of earlier runs,
  thread 0 pops what the others push, in order, the threads can always finish, and then as many
  elements were popped as are reported.
\<close>

theorem boost_benchmarks_complete:
  assumes "fixed_queue push pop rep (\<lambda>v. length v = 32 \<or> length v = 192) slots" "0 < slots" "rep queue []"
  shows "benchmark_ok (=) (\<lambda>_ :: unit. 2) (\<lambda>s. s) queue (\<lambda>_. BM_Boost_SPSC_Small push pop 2) \<and>
    benchmark_ok (=) (\<lambda>_ :: unit. 2) (\<lambda>s. s) queue (\<lambda>_. BM_Boost_SPSC_RobotState push pop 2) \<and>
    benchmark_ok (=) Suc (\<lambda>s. s) queue (\<lambda>n. BM_Boost_MPMC_Small push pop (Suc n)) \<and>
    benchmark_ok (=) Suc (\<lambda>s. s) queue (\<lambda>n. BM_Boost_MPMC_RobotState push pop (Suc n))"
proof -
  have l: "length make_small_payload = 32" "length (robot_bytes make_robot_state) = 192"
    using length_robot_bytes [of make_robot_state]
    by (simp_all add: make_small_payload_def robot_ok_def make_robot_state_def)
  note ok = retry_queue.bench_benchmark_ok [OF bounded_retry_queue [OF assms(1,2)], where enter = "\<lambda>s. s"]
  show ?thesis
    by (intro conjI ok [where S = "\<lambda>_. same_message 1 1 make_small_payload" and reports = "\<lambda>_ n. [SetItemsProcessed n]"]
        ok [where S = "\<lambda>_. same_message 1 1 (robot_bytes make_robot_state)" and reports = "\<lambda>_ n. [SetItemsProcessed n]"]
        ok [OF BM_Boost_MPMC_Small_def [unfolded Let_def]] ok [OF BM_Boost_MPMC_RobotState_def [unfolded Let_def]])
      (simp_all add: assms(3) l BM_Boost_SPSC_Small_def BM_Boost_SPSC_RobotState_def)
qed

text \<open>A queue with the documented behaviour: a list of at most \<open>n\<close> elements.\<close>

definition list_push :: "nat \<Rightarrow> byte list list boost_push" where
  "list_push n v q = Inr (if length q < n then (True, q @ [v]) else (False, q))"

definition list_pop :: "byte list list boost_pop" where
  "list_pop d q = Inr (case q of [] \<Rightarrow> (False, d, []) | v # r \<Rightarrow> (True, v, r))"

lemma list_fixed_queue: "fixed_queue (list_push n) list_pop (\<lambda>s q. s = q \<and> length q \<le> n) ok n"
  by unfold_locales (auto simp: list_push_def list_pop_def)

theorem boost_benchmarks_complete_witness:
  "fixed_queue (list_push 32768) list_pop (\<lambda>s q. s = q \<and> length q \<le> 32768) (\<lambda>v. length v = 32 \<or> length v = 192) 32768 \<and>
   benchmark_ok (=) (\<lambda>_ :: unit. 2) (\<lambda>s. s) [] (\<lambda>_. BM_Boost_SPSC_Small (list_push 32768) list_pop 2) \<and>
   benchmark_ok (=) Suc (\<lambda>s. s) [] (\<lambda>n. BM_Boost_MPMC_RobotState (list_push 32768) list_pop (Suc n))"
  using boost_benchmarks_complete [OF list_fixed_queue, of 32768 "[]"] list_fixed_queue by auto

end
