(* ===== verification/Bench_Latest.thy ===== *)
theory Bench_Latest
  imports Benchmarks Seqlock
begin

text \<open>
  The benchmarks of \<open>SharedLatest\<close>: \<open>BM_Latest_*\<close> of \<open>bench/benchmark_ring_buffer.cpp\<close> and those of
  \<open>bench/benchmark_futex.cpp\<close> in which the threads do not wait for each other. The addition of
  \<open>double\<close>s is an argument \<open>add\<close>: nothing depends on how it rounds.
\<close>

unbundle bit_operations_syntax

section \<open>Payloads\<close>

record Command =
  x_pos :: double
  y_pos :: double
  x_vel :: double
  y_vel :: double
  yaw_rate :: double
  pitch_angle :: double
  body_height :: double
  pan_dir :: double
  tilt_dir :: double

definition command_bytes :: "Command \<Rightarrow> byte list" where
  "command_bytes c = enc64 (x_pos c) @ enc64 (y_pos c) @ enc64 (x_vel c) @ enc64 (y_vel c) @ enc64 (yaw_rate c) @
     enc64 (pitch_angle c) @ enc64 (body_height c) @ enc64 (pan_dir c) @ enc64 (tilt_dir c)"

definition make_command :: Command where
  "make_command =
     \<lparr>x_pos = 0, y_pos = 0, x_vel = 0x3FF0000000000000, y_vel = 0x3FE0000000000000, yaw_rate = 0x3FB999999999999A,
      pitch_angle = 0, body_height = 0x3FD3333333333333, pan_dir = 0, tilt_dir = 0\<rparr>"

text \<open>\<open>cmd.x_vel += 0.001\<close> and \<open>msg.tick++\<close>.\<close>

definition faster :: "(double \<Rightarrow> double \<Rightarrow> double) \<Rightarrow> Command \<Rightarrow> Command" where
  "faster add cmd = cmd\<lparr>x_vel := add (x_vel cmd) 0x3F50624DD2F1A9FC\<rparr>"

definition next_tick :: "RobotState \<Rightarrow> RobotState" where
  "next_tick msg = msg\<lparr>tick := tick msg + 1\<rparr>"

text \<open>The state that the reading benchmarks start from has no position and no velocity.\<close>

definition seed :: RobotState where
  "seed = \<lparr>tick = 123, robot_id = 7, mode = 2, position = [0, 0, 0], velocity = [0, 0, 0],
     joints = map float_of_nat [0..<32]\<rparr>"

lemma length_command_bytes [simp]: "length (command_bytes c) = 72"
  by (simp add: command_bytes_def)

lemma robots_ok: "robot_ok state_msg" "robot_ok seed" "robot_ok m \<Longrightarrow> robot_ok (next_tick m)"
  by (simp_all add: robot_ok_def state_msg_def seed_def next_tick_def)

section \<open>The loops\<close>

text \<open>\<open>for (auto _ : state) { change the message; publish it; }\<close>\<close>

fun write_loop ::
  "(nat \<Rightarrow> byte list \<Rightarrow> ring_state \<Rightarrow> ring_state exec) \<Rightarrow> ('a \<Rightarrow> 'a) \<Rightarrow> ('a \<Rightarrow> byte list) \<Rightarrow> nat \<Rightarrow> 'a \<Rightarrow>
     ring_state \<Rightarrow> ('a \<times> ring_state) exec"
where
  "write_loop publish change bytes 0 msg st = Inr (msg, st)"
| "write_loop publish change bytes (Suc n) msg st =
     bindE (publish n (bytes (change msg)) st) (write_loop publish change bytes n (change msg))"

text \<open>
  \<open>for (auto _ : state) { if (latest.try_read(out, retries)) ++ok; else ++fail; }\<close>; \<open>reads\<close> collects the
  values of the successful reads, \<open>read_at\<close> counts the accesses.
\<close>

record read_stats =
  read_out :: "byte list"
  read_ok :: int
  read_fail :: int
  read_at :: nat
  reads :: "byte list list"

fun read_loop :: "(nat \<Rightarrow> ring_state) \<Rightarrow> nat \<Rightarrow> nat \<Rightarrow> nat \<Rightarrow> read_stats \<Rightarrow> read_stats exec" where
  "read_loop \<sigma> n retries 0 r = Inr r"
| "read_loop \<sigma> n retries (Suc iterations) r =
     bindE (latest_try_read \<sigma> n retries (read_at r) (read_out r)) (\<lambda>(got, v, k).
       read_loop \<sigma> n retries iterations
         (if got then r\<lparr>read_out := v, read_at := k, read_ok := read_ok r + 1, reads := reads r @ [v]\<rparr>
          else r\<lparr>read_out := v, read_at := k, read_fail := read_fail r + 1\<rparr>))"

definition no_reads :: "nat \<Rightarrow> read_stats" where
  "no_reads n = \<lparr>read_out = replicate n 0, read_ok = 0, read_fail = 0, read_at = 0, reads = []\<rparr>"

section \<open>The benchmarks\<close>

definition BM_Latest_RobotState_Write ::
  "(nat \<Rightarrow> u64) \<Rightarrow> nat \<Rightarrow> ring_state \<Rightarrow> (RobotState \<times> ring_state \<times> bench_report) exec" where
  "BM_Latest_RobotState_Write clock iterations latest =
     bindE (write_loop (\<lambda>i. latest_write (clock i)) next_tick robot_bytes iterations state_msg latest)
       (\<lambda>(msg, latest). Inr (msg, latest, SetItemsProcessed iterations))"

text \<open>The counts of the successful and the failed reads are the reported items and \<open>read_fail\<close>.\<close>

definition BM_Latest_RobotState_Read :: "u64 \<Rightarrow> nat \<Rightarrow> ring_state \<Rightarrow> (read_stats \<times> ring_state) exec" where
  "BM_Latest_RobotState_Read now iterations latest =
     bindE (latest_write now (robot_bytes seed) latest) (\<lambda>latest.
     bindE (read_loop (\<lambda>_. latest) 192 64 iterations (no_reads 192)) (\<lambda>r. Inr (r, latest)))"

text \<open>Thread 0 of the benchmark with a reader and a writer; the writer acts between its accesses.\<close>

definition BM_Latest_RobotState_RW :: "nat \<Rightarrow> nat \<Rightarrow> (nat \<Rightarrow> ring_state) \<Rightarrow> (string + read_stats) exec" where
  "BM_Latest_RobotState_RW threads iterations \<sigma> =
     (if threads \<noteq> 2 then Inr (Inl ''BM_Latest_RobotState_RW requires exactly 2 threads (1 writer, 1 reader)'')
      else bindE (read_loop \<sigma> 192 64 iterations (no_reads 192)) (\<lambda>r. Inr (Inr r)))"

text \<open>The message, the slot, the items and the bytes reported.\<close>

definition BM_Write_NoFutex ::
  "(double \<Rightarrow> double \<Rightarrow> double) \<Rightarrow> (nat \<Rightarrow> u64) \<Rightarrow> nat \<Rightarrow> ring_state \<Rightarrow> (Command \<times> ring_state \<times> int \<times> int) exec" where
  "BM_Write_NoFutex add clock iterations sl =
     bindE (write_loop (\<lambda>i. latest_write (clock i)) (faster add) command_bytes iterations make_command sl)
       (\<lambda>(cmd, sl). Inr (cmd, sl, int iterations, int iterations * 72))"

definition BM_WriteAndNotify_WithFutex ::
  "(double \<Rightarrow> double \<Rightarrow> double) \<Rightarrow> (nat \<Rightarrow> u64) \<Rightarrow> nat \<Rightarrow> ring_state \<Rightarrow> (Command \<times> ring_state \<times> int \<times> int) exec" where
  "BM_WriteAndNotify_WithFutex add clock iterations sl =
     bindE (write_loop (\<lambda>i. latest_write_and_notify (clock i)) (faster add) command_bytes iterations make_command sl)
       (\<lambda>(cmd, sl). Inr (cmd, sl, int iterations, int iterations * 72))"

text \<open>\<open>sl_read\<close> is created and written once, before the first run.\<close>

definition sl_read :: "u64 \<Rightarrow> ring_state exec" where
  "sl_read now = latest_write now (command_bytes make_command) (empty_ring 72)"

definition BM_TryRead_Baseline :: "nat \<Rightarrow> ring_state \<Rightarrow> (read_stats \<times> bench_report) exec" where
  "BM_TryRead_Baseline iterations sl =
     bindE (read_loop (\<lambda>_. sl) 72 1024 iterations (no_reads 72)) (\<lambda>r. Inr (r, SetItemsProcessed iterations))"

text \<open>Thread 1, the reader, of the benchmark in which a writer and a reader do not wait.\<close>

definition BM_Concurrent_WriteRead_Spin :: "nat \<Rightarrow> nat \<Rightarrow> (nat \<Rightarrow> ring_state) \<Rightarrow> (string + read_stats) exec" where
  "BM_Concurrent_WriteRead_Spin threads iterations \<sigma> =
     (if threads \<noteq> 2 then Inr (Inl ''Requires exactly 2 threads'')
      else bindE (read_loop \<sigma> 72 1024 iterations (no_reads 72)) (\<lambda>r. Inr (Inr r)))"

section \<open>Writing alone\<close>

lemma latest_write_ok:
  "length v \<le> length (ring st) \<Longrightarrow> latest_write now v st =
     Inr (st\<lparr>ring := mem_write (ring st) 0 v,
       control := (control st)\<lparr>sequence := sequence (control st) + 2, head_reserve := now\<rparr>\<rparr>)"
  by (simp add: latest_write_def Let_def store_bytes_ok)

text \<open>
  After \<open>k\<close> turns, the slot holds the \<open>k\<close>-th message; \<open>d\<close> is what one turn adds to the notification
  counter.
\<close>

definition writes_of :: "u64 \<Rightarrow> (nat \<Rightarrow> byte list \<Rightarrow> ring_state \<Rightarrow> ring_state exec) \<Rightarrow> bool" where
  "writes_of d publish \<longleftrightarrow> (\<forall>i v st. length v \<le> length (ring st) \<longrightarrow>
     (\<exists>st'. publish i v st = Inr st' \<and> ring st' = mem_write (ring st) 0 v \<and>
        sequence (control st') = sequence (control st) + 2 \<and> tail_publish (control st') = tail_publish (control st) + d))"

lemma writes_of_publish:
  "writes_of 0 (\<lambda>i. latest_write (clock i))" "writes_of 1 (\<lambda>i. latest_write_and_notify (clock i))"
  by (simp_all add: writes_of_def latest_write_ok latest_write_and_notify_def latest_notify_def)

lemma write_loop_ok:
  assumes "writes_of d publish" "\<And>m. P m \<Longrightarrow> P (change m) \<and> length (bytes m) = n"
  shows "P msg \<Longrightarrow> n \<le> length (ring st) \<Longrightarrow> \<exists>st'. write_loop publish change bytes k msg st = Inr ((change ^^ k) msg, st') \<and>
    length (ring st') = length (ring st) \<and> sequence (control st') = sequence (control st) + 2 * of_nat k \<and>
    tail_publish (control st') = tail_publish (control st) + d * of_nat k \<and>
    (0 < k \<longrightarrow> take n (ring st') = bytes ((change ^^ k) msg))"
proof (induction k arbitrary: msg st)
  case (Suc k)
  have l: "P (change msg)" "length (bytes (change msg)) = n" using assms(2) Suc.prems(1) by blast+
  from assms(1) l(2) Suc.prems(2) obtain st1 where
    1: "publish k (bytes (change msg)) st = Inr st1" "ring st1 = mem_write (ring st) 0 (bytes (change msg))"
    "sequence (control st1) = sequence (control st) + 2" "tail_publish (control st1) = tail_publish (control st) + d"
    unfolding writes_of_def by blast
  have len: "length (ring st1) = length (ring st)" using 1(2) l(2) Suc.prems(2) by (simp add: mem_write_def)
  have t: "take n (ring st1) = bytes (change msg)" using 1(2) l(2) Suc.prems(2) by (simp add: mem_write_def)
  from Suc.IH [OF l(1), of st1] len Suc.prems(2) obtain st' where
    2: "write_loop publish change bytes k (change msg) st1 = Inr ((change ^^ k) (change msg), st')"
    "length (ring st') = length (ring st)" "sequence (control st') = sequence (control st1) + 2 * of_nat k"
    "tail_publish (control st') = tail_publish (control st1) + d * of_nat k"
    "0 < k \<longrightarrow> take n (ring st') = bytes ((change ^^ k) (change msg))" by auto
  have "k = 0 \<Longrightarrow> st' = st1" using 2(1) by simp
  with 1 2 t show ?case by (cases "k = 0") (auto simp: funpow_swap1 algebra_simps)
qed simp

text \<open>A slot that nobody is writing, large enough for \<open>n\<close> bytes.\<close>

definition quiet_slot :: "nat \<Rightarrow> ring_state \<Rightarrow> bool" where
  "quiet_slot n st \<longleftrightarrow> sequence (control st) AND 1 = 0 \<and> n \<le> length (ring st)"

lemma even_plus_even: "(s :: u64) AND 1 = 0 \<Longrightarrow> (s + 2 * k) AND 1 = 0"
  by (simp add: and_one_eq mod_2_eq_odd)

section \<open>Reading\<close>

lemma read_loop_quiet:
  assumes "quiet_slot n st" "0 < retries"
  shows "\<exists>r'. read_loop (\<lambda>_. st) n retries k r = Inr r' \<and> read_ok r' = read_ok r + int k \<and> read_fail r' = read_fail r \<and>
    reads r' = reads r @ replicate k (take n (ring st))"
proof (induction k arbitrary: r)
  case (Suc k)
  have read: "latest_try_read (\<lambda>_. st) n retries (read_at r) (read_out r) =
      Inr (True, take n (ring st), read_at r + n + 2)"
    using assms by (intro read_quiet) (simp_all add: quiet_slot_def)
  from Suc.IH [of "r\<lparr>read_out := take n (ring st), read_at := read_at r + n + 2, read_ok := read_ok r + 1,
      reads := reads r @ [take n (ring st)]\<rparr>"] read show ?case
    by (auto simp: replicate_app_Cons_same)
qed simp

lemma try_read_total:
  assumes "\<And>k. n \<le> length (ring (\<sigma> k))"
  shows "\<exists>got v k'. latest_try_read \<sigma> n retries k dst = Inr (got, v, k') \<and> k \<le> k'"
proof (induction retries arbitrary: k dst)
  case (Suc r)
  obtain u where u: "copy_observed \<sigma> (k + 1) n = Inr u"
    using assms by (auto simp: copy_observed_def list_all_iff less_le_trans)
  from Suc.IH [of "k + 1" dst] Suc.IH [of "k + n + 2" u] u show ?case
    by (fastforce simp: Let_def)
qed auto

text \<open>
  Reading while the writer works: every turn is counted, and the values read are committed values in
  the order in which they were committed.
\<close>

lemma read_loop_observed:
  assumes obs: "observation (latest_init n) (latest_step n) \<sigma>"
  shows "\<exists>r' js. read_loop (\<lambda>k. slot (\<sigma> k)) n retries k r = Inr r' \<and>
    read_ok r' + read_fail r' = read_ok r + read_fail r + int k \<and> read_ok r' = read_ok r + int (length js) \<and>
    reads r' = reads r @ map (\<lambda>j. last (hist (\<sigma> j))) js \<and> sorted js \<and> (\<forall>j \<in> set js. read_at r \<le> j)"
proof (induction k arbitrary: r)
  case 0
  show ?case by (rule exI [of _ r], rule exI [of _ "[]"]) simp
next
  case (Suc k)
  have "n \<le> length (ring (slot (\<sigma> i)))" for i using latest_ring_size seqlock.inv_observed [OF obs] by blast
  from try_read_total [of n "\<lambda>k. slot (\<sigma> k)" retries "read_at r" "read_out r", OF this] obtain got v k' where
    read: "latest_try_read (\<lambda>k. slot (\<sigma> k)) n retries (read_at r) (read_out r) = Inr (got, v, k')" "read_at r \<le> k'"
    by blast
  show ?case
  proof (cases got)
    case True
    from read(1) True obtain j where j: "read_at r \<le> j" "j < k'" "v = last (hist (\<sigma> j))"
      using try_read_committed [OF obs, of retries "read_at r" "read_out r" v k'] by auto
    from Suc.IH [of "r\<lparr>read_out := v, read_at := k', read_ok := read_ok r + 1, reads := reads r @ [v]\<rparr>"] obtain r' js where
      "read_loop (\<lambda>k. slot (\<sigma> k)) n retries k
        (r\<lparr>read_out := v, read_at := k', read_ok := read_ok r + 1, reads := reads r @ [v]\<rparr>) = Inr r'"
      "read_ok r' + read_fail r' = read_ok r + 1 + read_fail r + int k" "read_ok r' = read_ok r + 1 + int (length js)"
      "reads r' = (reads r @ [v]) @ map (\<lambda>j. last (hist (\<sigma> j))) js" "sorted js" "\<forall>j \<in> set js. k' \<le> j" by auto
    with True read j show ?thesis by (intro exI [of _ r'] exI [of _ "j # js"]) auto
  next
    case False
    from Suc.IH [of "r\<lparr>read_out := v, read_at := k', read_fail := read_fail r + 1\<rparr>"] obtain r' js where
      "read_loop (\<lambda>k. slot (\<sigma> k)) n retries k (r\<lparr>read_out := v, read_at := k', read_fail := read_fail r + 1\<rparr>) = Inr r'"
      "read_ok r' + read_fail r' = read_ok r + (read_fail r + 1) + int k" "read_ok r' = read_ok r + int (length js)"
      "reads r' = reads r @ map (\<lambda>j. last (hist (\<sigma> j))) js" "sorted js" "\<forall>j \<in> set js. k' \<le> j" by auto
    with False read show ?thesis by (intro exI [of _ r'] exI [of _ js]) auto
  qed
qed

lemma try_read_baseline:
  "\<exists>sl r. sl_read now = Inr sl \<and> BM_TryRead_Baseline n sl = Inr (r, SetItemsProcessed n) \<and>
     reads r = replicate n (command_bytes make_command)"
proof -
  let ?s = "(empty_ring 72)\<lparr>ring := mem_write (ring (empty_ring 72)) 0 (command_bytes make_command),
    control := (control (empty_ring 72))\<lparr>sequence := sequence (control (empty_ring 72)) + 2, head_reserve := now\<rparr>\<rparr>"
  have s: "sl_read now = Inr ?s" unfolding sl_read_def by (rule latest_write_ok) (simp add: empty_ring_def)
  have q: "quiet_slot 72 ?s" "take 72 (ring ?s) = command_bytes make_command"
    by (simp_all add: quiet_slot_def empty_ring_def mem_write_def)
  from read_loop_quiet [OF q(1), of 1024 n "no_reads 72"] q(2) show ?thesis
    by (intro exI [of _ ?s]) (auto simp: s BM_TryRead_Baseline_def no_reads_def)
qed

section \<open>Properties\<close>

text \<open>
  What the single-threaded benchmarks of \<open>SharedLatest\<close> do in \<open>n\<close> iterations on a quiet slot. The
  writing ones leave a quiet slot with the \<open>n\<close>-th message, and only \<open>write_and_notify\<close> counts
  notifications; they report \<open>n\<close> items. The reading ones succeed \<open>n\<close> times, with what was written before.
\<close>

theorem latest_benchmarks_alone:
  assumes "quiet_slot 72 sl" "quiet_slot 192 latest"
  shows "\<exists>sl' sl'' latest' r.
    BM_Write_NoFutex add clock n sl = Inr ((faster add ^^ n) make_command, sl', int n, int n * 72) \<and>
    quiet_slot 72 sl' \<and> notify_counter sl' = notify_counter sl \<and>
    BM_WriteAndNotify_WithFutex add clock n sl = Inr ((faster add ^^ n) make_command, sl'', int n, int n * 72) \<and>
    quiet_slot 72 sl'' \<and> tail_publish (control sl'') = tail_publish (control sl) + of_nat n \<and>
    (0 < n \<longrightarrow> take 72 (ring sl') = command_bytes ((faster add ^^ n) make_command) \<and>
       take 72 (ring sl'') = command_bytes ((faster add ^^ n) make_command)) \<and>
    BM_Latest_RobotState_Write clock n latest = Inr ((next_tick ^^ n) state_msg, latest', SetItemsProcessed n) \<and>
    quiet_slot 192 latest' \<and> (0 < n \<longrightarrow> take 192 (ring latest') = robot_bytes ((next_tick ^^ n) state_msg)) \<and>
    (\<exists>latest''. BM_Latest_RobotState_Read now n latest = Inr (r, latest'') \<and> quiet_slot 192 latest'') \<and>
    read_ok r = int n \<and> read_fail r = 0 \<and> reads r = replicate n (robot_bytes seed) \<and>
    (\<exists>sl0 r0. sl_read now = Inr sl0 \<and> BM_TryRead_Baseline n sl0 = Inr (r0, SetItemsProcessed n) \<and>
       reads r0 = replicate n (command_bytes make_command))"
proof -
  note Q = assms [unfolded quiet_slot_def]
  from write_loop_ok [OF writes_of_publish(1), of "\<lambda>_. True" "faster add" command_bytes 72 make_command sl clock n] Q(1)
  obtain sl' where 1: "BM_Write_NoFutex add clock n sl = Inr ((faster add ^^ n) make_command, sl', int n, int n * 72)"
    "quiet_slot 72 sl'" "notify_counter sl' = notify_counter sl"
    "0 < n \<longrightarrow> take 72 (ring sl') = command_bytes ((faster add ^^ n) make_command)"
    by (auto simp: BM_Write_NoFutex_def quiet_slot_def notify_counter_def even_plus_even)
  from write_loop_ok [OF writes_of_publish(2), of "\<lambda>_. True" "faster add" command_bytes 72 make_command sl clock n] Q(1)
  obtain sl'' where 2: "BM_WriteAndNotify_WithFutex add clock n sl = Inr ((faster add ^^ n) make_command, sl'', int n, int n * 72)"
    "quiet_slot 72 sl''" "tail_publish (control sl'') = tail_publish (control sl) + of_nat n"
    "0 < n \<longrightarrow> take 72 (ring sl'') = command_bytes ((faster add ^^ n) make_command)"
    by (auto simp: BM_WriteAndNotify_WithFutex_def quiet_slot_def even_plus_even)
  from write_loop_ok [OF writes_of_publish(1), of robot_ok next_tick robot_bytes 192 state_msg latest clock n] Q(2)
  obtain latest' where 3: "BM_Latest_RobotState_Write clock n latest = Inr ((next_tick ^^ n) state_msg, latest', SetItemsProcessed n)"
    "quiet_slot 192 latest'" "0 < n \<longrightarrow> take 192 (ring latest') = robot_bytes ((next_tick ^^ n) state_msg)"
    by (auto simp: BM_Latest_RobotState_Write_def quiet_slot_def even_plus_even robots_ok length_robot_bytes)
  let ?s = "latest\<lparr>ring := mem_write (ring latest) 0 (robot_bytes seed),
    control := (control latest)\<lparr>sequence := sequence (control latest) + 2, head_reserve := now\<rparr>\<rparr>"
  have l: "length (robot_bytes seed) = 192" by (rule length_robot_bytes [OF robots_ok(2)])
  have 4: "latest_write now (robot_bytes seed) latest = Inr ?s" using Q(2) l by (simp add: latest_write_ok)
  have 5: "quiet_slot 192 ?s" "take 192 (ring ?s) = robot_bytes seed"
    using Q(2) l even_plus_even [of _ 1] by (simp_all add: quiet_slot_def mem_write_def)
  from read_loop_quiet [OF 5(1), of 64 n "no_reads 192"] 4 5 obtain r where
    "BM_Latest_RobotState_Read now n latest = Inr (r, ?s)" "read_ok r = int n" "read_fail r = 0"
    "reads r = replicate n (robot_bytes seed)"
    by (auto simp: BM_Latest_RobotState_Read_def no_reads_def)
  with 1 2 3 5(1) show ?thesis using try_read_baseline [of now n] by blast
qed

theorem latest_benchmarks_alone_witness:
  "quiet_slot 72 (empty_ring 72) \<and> quiet_slot 192 (empty_ring 192) \<and>
   (\<exists>latest. BM_Latest_RobotState_Write (\<lambda>_. 5) 3 (empty_ring 192) =
      Inr ((next_tick ^^ 3) state_msg, latest, SetItemsProcessed 3) \<and>
      take 192 (ring latest) = robot_bytes ((next_tick ^^ 3) state_msg)) \<and>
   tick ((next_tick ^^ 3) state_msg) = 126"
proof -
  have q: "quiet_slot 72 (empty_ring 72)" "quiet_slot 192 (empty_ring 192)"
    by (simp_all add: quiet_slot_def empty_ring_def)
  have "tick ((next_tick ^^ 3) state_msg) = 126" by (simp add: next_tick_def state_msg_def numeral_3_eq_3)
  with q latest_benchmarks_alone [OF q, of "\<lambda>a b. a" "\<lambda>_. 5" 3 0] show ?thesis by auto
qed

text \<open>
  The benchmarks with a writer and a reader that do not wait for each other: whatever the writer
  does between the accesses of the reader, the reader finishes its \<open>n\<close> iterations, every iteration is
  counted as a success or a failure, and the values of the successful reads are values that the
  writer committed, whole and in the order of the commits.
\<close>

theorem latest_benchmarks_observed:
  assumes "observation (latest_init 192) (latest_step 192) \<sigma>" "observation (latest_init 72) (latest_step 72) \<tau>"
  shows "\<exists>r js r' js'. BM_Latest_RobotState_RW 2 n (\<lambda>k. slot (\<sigma> k)) = Inr (Inr r) \<and>
    read_ok r + read_fail r = int n \<and> read_ok r = int (length (reads r)) \<and>
    reads r = map (\<lambda>j. last (hist (\<sigma> j))) js \<and> sorted js \<and>
    BM_Concurrent_WriteRead_Spin 2 n (\<lambda>k. slot (\<tau> k)) = Inr (Inr r') \<and>
    reads r' = map (\<lambda>j. last (hist (\<tau> j))) js' \<and> sorted js'"
proof -
  from read_loop_observed [OF assms(1), of 64 n "no_reads 192"] obtain r js where
    "read_loop (\<lambda>k. slot (\<sigma> k)) 192 64 n (no_reads 192) = Inr r" "read_ok r + read_fail r = int n"
    "read_ok r = int (length (reads r))" "reads r = map (\<lambda>j. last (hist (\<sigma> j))) js" "sorted js"
    by (auto simp: no_reads_def)
  moreover from read_loop_observed [OF assms(2), of 1024 n "no_reads 72"] obtain r' js' where
    "read_loop (\<lambda>k. slot (\<tau> k)) 72 1024 n (no_reads 72) = Inr r'" "reads r' = map (\<lambda>j. last (hist (\<tau> j))) js'" "sorted js'"
    by (auto simp: no_reads_def)
  ultimately show ?thesis by (auto simp: BM_Latest_RobotState_RW_def BM_Concurrent_WriteRead_Spin_def)
qed

text \<open>A writer that stays in its first write of \<open>n\<close> bytes, before the first of them.\<close>

definition unwritten :: "nat \<Rightarrow> latest_sys" where
  "unwritten n = \<lparr>slot = empty_ring n, wpc = WIdle, hist = [replicate n 0]\<rparr>"

definition stalled :: "nat \<Rightarrow> latest_sys" where
  "stalled n = (unwritten n)\<lparr>slot := (empty_ring n)\<lparr>control := (control (empty_ring n))\<lparr>sequence := 1\<rparr>\<rparr>,
     wpc := WCopy 0 (replicate n 7) 0\<rparr>"

lemma stalled_observation: "observation (latest_init n) (latest_step n) (\<lambda>_. stalled n)"
proof -
  have "latest_step n (unwritten n) ((unwritten n)\<lparr>wpc := WBegin (sequence (control (slot (unwritten n)))) (replicate n 7)\<rparr>)"
    by (rule latest_step.load) (simp_all add: unwritten_def)
  moreover have "latest_step n ((unwritten n)\<lparr>wpc := WBegin 0 (replicate n 7)\<rparr>) (stalled n)"
    using latest_step.begin_write [of "(unwritten n)\<lparr>wpc := WBegin 0 (replicate n 7)\<rparr>" 0 "replicate n 7" n]
    by (simp add: stalled_def unwritten_def)
  moreover have "sequence (control (slot (unwritten n))) = 0" by (simp add: unwritten_def empty_ring_def)
  ultimately have "(latest_step n)\<^sup>*\<^sup>* (unwritten n) (stalled n)" by (auto intro: converse_rtranclp_into_rtranclp)
  moreover have "latest_init n (unwritten n)" by (auto simp: latest_init_def unwritten_def)
  ultimately show ?thesis unfolding observation_def by blast
qed

theorem latest_benchmarks_observed_witness:
  "observation (latest_init 192) (latest_step 192) (\<lambda>_. stalled 192) \<and>
   observation (latest_init 72) (latest_step 72) (\<lambda>_. stalled 72) \<and>
   (\<exists>r. \<exists>js :: nat list. BM_Latest_RobotState_RW 2 10 (\<lambda>_. slot (stalled 192)) = Inr (Inr r) \<and>
     read_ok r + read_fail r = 10 \<and> reads r = map (\<lambda>_. replicate 192 0) js)"
proof -
  have h: "last (hist (stalled 192)) = replicate 192 0" by (simp add: stalled_def unwritten_def)
  from latest_benchmarks_observed [OF stalled_observation stalled_observation, of 10, unfolded h] obtain r and js :: "nat list" where
    "BM_Latest_RobotState_RW 2 10 (\<lambda>_. slot (stalled 192)) = Inr (Inr r)" "read_ok r + read_fail r = int 10"
    "reads r = map (\<lambda>_. replicate 192 0) js" by blast
  with stalled_observation show ?thesis by auto
qed

end
