(* ===== verification/Bench_Handoff.thy ===== *)
theory Bench_Handoff
  imports Bench_Latest
begin

text \<open>
  \<open>BM_Handoff_Spin\<close> of \<open>bench/benchmark_futex.cpp\<close>: a writer and a reader hand over a \<open>SharedLatest\<close> slot
  with a flag that both spin on. Every access to the flag is a step, and so is every write and every
  read of the slot; that the two never overlap is shown.
\<close>

section \<open>The two threads\<close>

datatype spin_writer = SWLoop | SWWrite | SWReady | SWSpin | SWDone
datatype spin_reader = SRLoop | SRSpin | SRRead | SRClear | SRDone

text \<open>\<open>handed\<close> lists the messages written, \<open>received\<close> what the reader's variable held after each read.\<close>

record spin_sys =
  sl_spin :: ring_state
  spin_ready :: int
  spin_cmd :: Command
  spin_out :: "byte list"
  spin_writer :: spin_writer
  spin_reader :: spin_reader
  writer_left :: nat
  reader_left :: nat
  handed :: "Command list"
  received :: "byte list list"

definition spin_writer_step :: "(double \<Rightarrow> double \<Rightarrow> double) \<Rightarrow> u64 \<Rightarrow> spin_sys \<Rightarrow> spin_sys exec" where
  "spin_writer_step add now s =
     (case spin_writer s of
        SWLoop \<Rightarrow>
          Inr (if writer_left s = 0 then s\<lparr>spin_writer := SWDone\<rparr>
               else s\<lparr>writer_left := writer_left s - 1, spin_cmd := faster add (spin_cmd s), spin_writer := SWWrite\<rparr>)
      | SWWrite \<Rightarrow>
          bindE (latest_write now (command_bytes (spin_cmd s)) (sl_spin s)) (\<lambda>sl.
            Inr (s\<lparr>sl_spin := sl, spin_writer := SWReady, handed := handed s @ [spin_cmd s]\<rparr>))
      | SWReady \<Rightarrow> Inr (s\<lparr>spin_ready := 1, spin_writer := SWSpin\<rparr>)
      | SWSpin \<Rightarrow> Inr (s\<lparr>spin_writer := if spin_ready s \<noteq> 0 then SWSpin else SWLoop\<rparr>)
      | SWDone \<Rightarrow> Inr s)"

definition spin_reader_step :: "spin_sys \<Rightarrow> spin_sys exec" where
  "spin_reader_step s =
     (case spin_reader s of
        SRLoop \<Rightarrow>
          Inr (if reader_left s = 0 then s\<lparr>spin_reader := SRDone\<rparr>
               else s\<lparr>reader_left := reader_left s - 1, spin_reader := SRSpin\<rparr>)
      | SRSpin \<Rightarrow> Inr (s\<lparr>spin_reader := if spin_ready s = 0 then SRSpin else SRRead\<rparr>)
      | SRRead \<Rightarrow>
          bindE (latest_try_read (\<lambda>_. sl_spin s) 72 1024 0 (spin_out s)) (\<lambda>(_, v, _).
            Inr (s\<lparr>spin_out := v, spin_reader := SRClear, received := received s @ [v]\<rparr>))
      | SRClear \<Rightarrow> Inr (s\<lparr>spin_ready := 0, spin_reader := SRLoop\<rparr>)
      | SRDone \<Rightarrow> Inr s)"

definition spin_start :: "nat \<Rightarrow> ring_state \<Rightarrow> spin_sys" where
  "spin_start iterations sl =
     \<lparr>sl_spin = sl, spin_ready = 0, spin_cmd = make_command, spin_out = replicate 72 0, spin_writer = SWLoop,
      spin_reader = SRLoop, writer_left = iterations, reader_left = iterations, handed = [], received = []\<rparr>"

definition BM_Handoff_Spin :: "nat \<Rightarrow> nat \<Rightarrow> ring_state \<Rightarrow> string + spin_sys" where
  "BM_Handoff_Spin threads iterations sl =
     (if threads \<noteq> 2 then Inl ''Requires exactly 2 threads'' else Inr (spin_start iterations sl))"

definition spin_init :: "nat \<Rightarrow> spin_sys \<Rightarrow> bool" where
  "spin_init n s \<longleftrightarrow> (\<exists>sl. quiet_slot 72 sl \<and> BM_Handoff_Spin 2 n sl = Inr s)"

definition spin_step :: "(double \<Rightarrow> double \<Rightarrow> double) \<Rightarrow> spin_sys \<Rightarrow> spin_sys \<Rightarrow> bool" where
  "spin_step add s s' \<longleftrightarrow> (\<exists>now. spin_writer_step add now s = Inr s') \<or> spin_reader_step s = Inr s'"

section \<open>Whose turn it is\<close>

text \<open>While the writer has its turn, the reader is waiting or gone.\<close>

definition reader_away :: "spin_sys \<Rightarrow> bool" where
  "reader_away s \<longleftrightarrow> spin_ready s = 0 \<and> spin_reader s \<in> {SRLoop, SRSpin, SRDone} \<and>
     received s = map command_bytes (handed s)"

definition pending :: "spin_sys \<Rightarrow> bool" where
  "pending s \<longleftrightarrow> map command_bytes (handed s) = received s @ [command_bytes (spin_cmd s)] \<and>
     take 72 (ring (sl_spin s)) = command_bytes (spin_cmd s)"

definition spin_turn :: "spin_sys \<Rightarrow> bool" where
  "spin_turn s \<longleftrightarrow>
     (case spin_writer s of
        SWReady \<Rightarrow> spin_ready s = 0 \<and> spin_reader s \<in> {SRLoop, SRSpin} \<and> pending s
      | SWSpin \<Rightarrow> reader_away s \<or>
          spin_ready s = 1 \<and> spin_reader s \<in> {SRLoop, SRSpin, SRRead} \<and> pending s \<or>
          spin_ready s = 1 \<and> spin_reader s = SRClear \<and> received s = map command_bytes (handed s)
      | _ \<Rightarrow> reader_away s)"

definition spin_counts :: "nat \<Rightarrow> spin_sys \<Rightarrow> bool" where
  "spin_counts n s \<longleftrightarrow>
     writer_left s + length (handed s) + (if spin_writer s = SWWrite then 1 else 0) = n \<and>
     reader_left s + length (received s) + (if spin_reader s \<in> {SRSpin, SRRead} then 1 else 0) = n \<and>
     (spin_writer s = SWDone \<longrightarrow> writer_left s = 0) \<and> (spin_reader s = SRDone \<longrightarrow> reader_left s = 0)"

definition spin_inv :: "nat \<Rightarrow> spin_sys \<Rightarrow> bool" where
  "spin_inv n s \<longleftrightarrow> quiet_slot 72 (sl_spin s) \<and> spin_turn s \<and> spin_counts n s"

lemmas spin_defs = spin_inv_def spin_turn_def spin_counts_def reader_away_def pending_def

lemma spin_writer_inv:
  assumes "spin_inv n s"
  shows "\<exists>s'. spin_writer_step add now s = Inr s' \<and> spin_inv n s'"
proof (cases "spin_writer s")
  case SWWrite
  have q: "sequence (control (sl_spin s)) AND 1 = 0" "72 \<le> length (ring (sl_spin s))"
    using assms by (simp_all add: spin_inv_def quiet_slot_def)
  let ?sl = "(sl_spin s)\<lparr>ring := mem_write (ring (sl_spin s)) 0 (command_bytes (spin_cmd s)),
    control := (control (sl_spin s))\<lparr>sequence := sequence (control (sl_spin s)) + 2, head_reserve := now\<rparr>\<rparr>"
  have "latest_write now (command_bytes (spin_cmd s)) (sl_spin s) = Inr ?sl" using q by (simp add: latest_write_ok)
  moreover have "quiet_slot 72 ?sl" "take 72 (ring ?sl) = command_bytes (spin_cmd s)"
    using q even_plus_even [of _ 1] by (simp_all add: quiet_slot_def mem_write_def)
  moreover have "spin_reader s \<noteq> SRDone" using assms SWWrite by (auto simp: spin_defs)
  ultimately show ?thesis
    using assms SWWrite by (auto simp: spin_writer_step_def spin_defs)
qed (use assms in \<open>auto simp: spin_writer_step_def spin_defs\<close>)

lemma spin_reader_inv:
  assumes "spin_inv n s"
  shows "\<exists>s'. spin_reader_step s = Inr s' \<and> spin_inv n s'"
proof (cases "spin_reader s")
  case SRRead
  then have p: "spin_writer s = SWSpin" "spin_ready s = 1" "pending s" "quiet_slot 72 (sl_spin s)"
    using assms by (cases "spin_writer s"; auto simp: spin_inv_def spin_turn_def reader_away_def)+
  from p(4) have "latest_try_read (\<lambda>_. sl_spin s) 72 1024 0 (spin_out s) = Inr (True, take 72 (ring (sl_spin s)), 0 + 72 + 2)"
    by (intro read_quiet) (simp_all add: quiet_slot_def)
  with assms SRRead p show ?thesis by (auto simp: spin_reader_step_def spin_defs)
next
  case SRLoop
  with assms show ?thesis
    by (cases "spin_writer s") (auto simp: spin_reader_step_def spin_defs dest: arg_cong [where f = length])
qed (use assms in \<open>cases "spin_writer s"; auto simp: spin_reader_step_def spin_defs\<close>)+

interpretation spinning: invariant_system "spin_init n" "spin_step add" "spin_inv n" for n add
proof
  show "spin_init n s \<Longrightarrow> spin_inv n s" for s
    by (auto simp: spin_init_def BM_Handoff_Spin_def spin_start_def spin_defs)
  show "spin_inv n s \<Longrightarrow> spin_step add s s' \<Longrightarrow> spin_inv n s'" for s s'
    using spin_writer_inv [of n s add] spin_reader_inv [of n s] unfolding spin_step_def
    by (metis sum.inject(2))
qed

section \<open>They finish\<close>

text \<open>The steps that are left if nobody has to spin.\<close>

definition spin_left :: "spin_sys \<Rightarrow> nat" where
  "spin_left s = 5 * writer_left s + (case spin_writer s of SWLoop \<Rightarrow> 1 | SWWrite \<Rightarrow> 4 | SWReady \<Rightarrow> 3 | SWSpin \<Rightarrow> 2 | SWDone \<Rightarrow> 0) +
     5 * reader_left s + (case spin_reader s of SRLoop \<Rightarrow> 1 | SRSpin \<Rightarrow> 4 | SRRead \<Rightarrow> 3 | SRClear \<Rightarrow> 2 | SRDone \<Rightarrow> 0)"

lemma spin_progress:
  assumes "spin_inv n s" "\<not> (spin_writer s = SWDone \<and> spin_reader s = SRDone)"
  shows "\<exists>s'. spin_step add s s' \<and> spin_left s' < spin_left s"
proof -
  obtain sw where sw: "spin_writer_step add 0 s = Inr sw" using spin_writer_inv [OF assms(1)] by blast
  obtain sr where sr: "spin_reader_step s = Inr sr" using spin_reader_inv [OF assms(1)] by blast
  have "spin_left sw < spin_left s" if "spin_writer s \<noteq> SWDone" "\<not> (spin_writer s = SWSpin \<and> spin_ready s \<noteq> 0)"
    using sw that by (cases "spin_writer s") (auto simp: spin_writer_step_def spin_left_def bindE_eq_Inr split: if_splits)
  moreover have "spin_left sr < spin_left s" if "spin_reader s \<noteq> SRDone" "\<not> (spin_reader s = SRSpin \<and> spin_ready s = 0)"
    using sr that by (cases "spin_reader s") (auto simp: spin_reader_step_def spin_left_def bindE_eq_Inr split: if_splits)
  moreover have "spin_reader s \<noteq> SRDone \<and> \<not> (spin_reader s = SRSpin \<and> spin_ready s = 0)"
    if "spin_writer s = SWDone \<or> spin_writer s = SWSpin \<and> spin_ready s \<noteq> 0"
    using assms that by (auto simp: spin_defs)
  ultimately show ?thesis using sw sr unfolding spin_step_def by blast
qed

lemma spin_can_finish:
  "spin_inv n s \<Longrightarrow> \<exists>s'. (spin_step add)\<^sup>*\<^sup>* s s' \<and> spin_writer s' = SWDone \<and> spin_reader s' = SRDone"
proof (induction "spin_left s" arbitrary: s rule: less_induct)
  case less
  show ?case
  proof (cases "spin_writer s = SWDone \<and> spin_reader s = SRDone")
    case False
    from spin_progress [OF less.prems False] obtain s1 where s1: "spin_step add s s1" "spin_left s1 < spin_left s" by blast
    from less.hyps [OF s1(2) spinning.inv_step [OF less.prems s1(1)]] s1(1) show ?thesis
      by (meson converse_rtranclp_into_rtranclp)
  qed blast
qed

text \<open>
  C28. \<open>BM_Handoff_Spin\<close> hands over one message at a time: however the two threads interleave, the slot
  is never written while it is read, and the reader has received exactly the messages written, in
  order, except at most the last. The threads can always finish, and then every one of the \<open>n\<close>
  messages has been received.
\<close>

theorem handoff_spin_pairs:
  assumes "reachable (spin_init n) (spin_step add) s"
  shows "\<not> (spin_writer s = SWWrite \<and> spin_reader s = SRRead) \<and>
    (\<exists>rest. map command_bytes (handed s) = received s @ rest \<and> length rest \<le> 1) \<and>
    (\<exists>s'. (spin_step add)\<^sup>*\<^sup>* s s' \<and> spin_writer s' = SWDone \<and> spin_reader s' = SRDone) \<and>
    (spin_writer s = SWDone \<longrightarrow> received s = map command_bytes (handed s) \<and> length (received s) = n)"
proof -
  have inv: "spin_inv n s" using assms by (rule spinning.inv_reachable)
  then have "\<exists>rest. map command_bytes (handed s) = received s @ rest \<and> length rest \<le> 1"
    by (cases "spin_writer s") (auto simp: spin_defs)
  moreover have "spin_writer s = SWDone \<longrightarrow> received s = map command_bytes (handed s) \<and> length (handed s) = n"
    "\<not> (spin_writer s = SWWrite \<and> spin_reader s = SRRead)" using inv by (auto simp: spin_defs)
  ultimately show ?thesis using spin_can_finish [OF inv] by auto
qed

text \<open>A run of one iteration up to the moment at which the reader is about to read.\<close>

fun spin_run :: "bool list \<Rightarrow> spin_sys \<Rightarrow> spin_sys exec" where
  "spin_run [] s = Inr s"
| "spin_run (w # ws) s = bindE (if w then spin_writer_step (\<lambda>a b. a) 5 s else spin_reader_step s) (spin_run ws)"

lemma spin_run_steps: "spin_run ws s = Inr s' \<Longrightarrow> (spin_step (\<lambda>a b. a))\<^sup>*\<^sup>* s s'"
proof (induction ws arbitrary: s)
  case (Cons w ws)
  then obtain s1 where "spin_step (\<lambda>a b. a) s s1" "spin_run ws s1 = Inr s'"
    by (auto simp: spin_step_def bindE_eq_Inr split: if_splits)
  with Cons.IH show ?case by (meson converse_rtranclp_into_rtranclp)
qed simp

lemma spin_hands_over:
  "\<exists>s. spin_run [True, True, True, False, False] (spin_start 1 (empty_ring 72)) = Inr s \<and> spin_reader s = SRRead \<and>
     handed s = [make_command] \<and> received s = []"
  by (simp add: spin_writer_step_def spin_reader_step_def spin_start_def latest_write_ok empty_ring_def faster_def)

theorem handoff_spin_pairs_witness:
  "\<exists>s s'. reachable (spin_init 1) (spin_step (\<lambda>a b. a)) s \<and> spin_reader s = SRRead \<and> spin_writer s \<noteq> SWWrite \<and>
     handed s = [make_command] \<and> (spin_step (\<lambda>a b. a))\<^sup>*\<^sup>* s s' \<and> spin_reader s' = SRDone"
proof -
  obtain s where s: "spin_run [True, True, True, False, False] (spin_start 1 (empty_ring 72)) = Inr s"
    "spin_reader s = SRRead" "handed s = [make_command]" using spin_hands_over by blast
  have "spin_init 1 (spin_start 1 (empty_ring 72))" unfolding spin_init_def quiet_slot_def
    by (rule exI [of _ "empty_ring 72"]) (simp add: empty_ring_def BM_Handoff_Spin_def)
  then have "reachable (spin_init 1) (spin_step (\<lambda>a b. a)) s"
    using spin_run_steps [OF s(1)] unfolding reachable_def by blast
  with handoff_spin_pairs [OF this] s(2,3) show ?thesis by blast
qed

end
