(* ===== verification/Bench_Handoff_Futex.thy ===== *)
theory Bench_Handoff_Futex
  imports Bench_Latest
begin

text \<open>
  \<open>BM_Handoff_Futex\<close> of \<open>bench/benchmark_futex.cpp\<close>: the reader waits for the notification of a
  \<open>SharedLatest\<close> slot, the writer for a counter \<open>ack\<close> that the reader counts up.
  \<open>BM_Concurrent_WriteRead_Futex\<close> has the same loops. Every access to a
  counter and every system call is a step, and so is every write and every read of the slot. A thread
  blocked in the kernel goes on when the other wakes it, or when its 100 ms are over.
\<close>

section \<open>The two threads\<close>

text \<open>Where a thread is, with the value of its variable \<open>ack_seen\<close> or \<open>seen\<close>.\<close>

datatype futex_writer =
    HWLoop u32 | HWWrite u32 | HWNotify u32 | HWWake u32 | HWWait u32 | HWBlocked u32 | HWLoad | HWDone

datatype futex_reader =
    HRLoop u32 | HRWait u32 | HRBlocked u32 | HRCounter | HRRead u32 | HRAck u32 | HRWake u32 | HRDone

text \<open>
  \<open>notified\<close> and \<open>acked\<close> count the notifications and the acknowledgements of this run; \<open>written\<close> lists
  the messages written and \<open>got\<close> what the reader's variable held after each read.
\<close>

record handoff_sys =
  sl_futex :: ring_state
  ack :: u64
  hand_cmd :: Command
  hand_out :: "byte list"
  hand_writer :: futex_writer
  hand_reader :: futex_reader
  writes_left :: nat
  reads_left :: nat
  notified :: nat
  acked :: nat
  written :: "Command list"
  got :: "byte list list"

text \<open>\<open>FUTEX_WAKE\<close> on the notification counter and on \<open>ack\<close>.\<close>

fun wake_reader :: "futex_reader \<Rightarrow> futex_reader" where
  "wake_reader (HRBlocked seen) = HRCounter"
| "wake_reader r = r"

fun wake_writer :: "futex_writer \<Rightarrow> futex_writer" where
  "wake_writer (HWBlocked ack_seen) = HWLoad"
| "wake_writer w = w"

definition futex_writer_step :: "(double \<Rightarrow> double \<Rightarrow> double) \<Rightarrow> u64 \<Rightarrow> handoff_sys \<Rightarrow> handoff_sys exec" where
  "futex_writer_step add now s =
     (case hand_writer s of
        HWLoop a \<Rightarrow>
          Inr (if writes_left s = 0 then s\<lparr>hand_writer := HWDone\<rparr>
               else s\<lparr>writes_left := writes_left s - 1, hand_cmd := faster add (hand_cmd s), hand_writer := HWWrite a\<rparr>)
      | HWWrite a \<Rightarrow>
          bindE (latest_write now (command_bytes (hand_cmd s)) (sl_futex s)) (\<lambda>sl.
            Inr (s\<lparr>sl_futex := sl, hand_writer := HWNotify a, written := written s @ [hand_cmd s]\<rparr>))
      | HWNotify a \<Rightarrow>
          Inr (s\<lparr>sl_futex := latest_notify (sl_futex s), hand_writer := HWWake a, notified := notified s + 1\<rparr>)
      | HWWake a \<Rightarrow> Inr (s\<lparr>hand_reader := wake_reader (hand_reader s), hand_writer := HWWait a\<rparr>)
      | HWWait a \<Rightarrow> Inr (s\<lparr>hand_writer := if futex_word (ack s) \<noteq> a then HWLoad else HWBlocked a\<rparr>)
      | HWLoad \<Rightarrow> Inr (s\<lparr>hand_writer := HWLoop (futex_load (ack s))\<rparr>)
      | _ \<Rightarrow> Inr s)"

definition futex_reader_step :: "handoff_sys \<Rightarrow> handoff_sys exec" where
  "futex_reader_step s =
     (case hand_reader s of
        HRLoop seen \<Rightarrow>
          Inr (if reads_left s = 0 then s\<lparr>hand_reader := HRDone\<rparr>
               else s\<lparr>reads_left := reads_left s - 1, hand_reader := HRWait seen\<rparr>)
      | HRWait seen \<Rightarrow>
          Inr (s\<lparr>hand_reader :=
            if futex_word (tail_publish (control (sl_futex s))) \<noteq> seen then HRCounter else HRBlocked seen\<rparr>)
      | HRCounter \<Rightarrow> Inr (s\<lparr>hand_reader := HRRead (notify_counter (sl_futex s))\<rparr>)
      | HRRead seen \<Rightarrow>
          bindE (latest_try_read (\<lambda>_. sl_futex s) 72 1024 0 (hand_out s)) (\<lambda>(_, v, _).
            Inr (s\<lparr>hand_out := v, hand_reader := HRAck seen, got := got s @ [v]\<rparr>))
      | HRAck seen \<Rightarrow> Inr (s\<lparr>ack := ack s + 1, hand_reader := HRWake seen, acked := acked s + 1\<rparr>)
      | HRWake seen \<Rightarrow> Inr (s\<lparr>hand_writer := wake_writer (hand_writer s), hand_reader := HRLoop seen\<rparr>)
      | _ \<Rightarrow> Inr s)"

text \<open>When the 100 ms of a blocked thread are over.\<close>

definition writer_timeout :: "handoff_sys \<Rightarrow> handoff_sys" where
  "writer_timeout s = s\<lparr>hand_writer := wake_writer (hand_writer s)\<rparr>"

definition reader_timeout :: "handoff_sys \<Rightarrow> handoff_sys" where
  "reader_timeout s = s\<lparr>hand_reader := wake_reader (hand_reader s)\<rparr>"

text \<open>Both threads load their variables before the first iteration of either.\<close>

definition handoff_start :: "nat \<Rightarrow> ring_state \<Rightarrow> u64 \<Rightarrow> handoff_sys" where
  "handoff_start iterations sl a =
     \<lparr>sl_futex = sl, ack = a, hand_cmd = make_command, hand_out = replicate 72 0, hand_writer = HWLoop (futex_load a),
      hand_reader = HRLoop (notify_counter sl), writes_left = iterations, reads_left = iterations, notified = 0,
      acked = 0, written = [], got = []\<rparr>"

definition BM_Handoff_Futex :: "nat \<Rightarrow> nat \<Rightarrow> ring_state \<Rightarrow> u64 \<Rightarrow> string + handoff_sys" where
  "BM_Handoff_Futex threads iterations sl a =
     (if threads \<noteq> 2 then Inl ''Requires exactly 2 threads'' else Inr (handoff_start iterations sl a))"

text \<open>The slot of \<open>BM_Concurrent_WriteRead_Futex\<close>, which is written once when it is created.\<close>

definition sl_conc_f :: "u64 \<Rightarrow> ring_state exec" where
  "sl_conc_f now = latest_write_and_notify now (command_bytes make_command) (empty_ring 72)"

definition BM_Concurrent_WriteRead_Futex :: "nat \<Rightarrow> nat \<Rightarrow> ring_state \<Rightarrow> u64 \<Rightarrow> string + handoff_sys" where
  "BM_Concurrent_WriteRead_Futex threads iterations sl conc_ack =
     (if threads \<noteq> 2 then Inl ''Requires exactly 2 threads'' else Inr (handoff_start iterations sl conc_ack))"

definition handoff_init :: "nat \<Rightarrow> handoff_sys \<Rightarrow> bool" where
  "handoff_init n s \<longleftrightarrow> n < 2 ^ 32 \<and> (\<exists>sl a. quiet_slot 72 sl \<and> BM_Handoff_Futex 2 n sl a = Inr s)"

definition handoff_step :: "(double \<Rightarrow> double \<Rightarrow> double) \<Rightarrow> handoff_sys \<Rightarrow> handoff_sys \<Rightarrow> bool" where
  "handoff_step add s s' \<longleftrightarrow>
     (\<exists>now. futex_writer_step add now s = Inr s') \<or> futex_reader_step s = Inr s' \<or>
     s' = writer_timeout s \<or> s' = reader_timeout s"

section \<open>Work left\<close>

text \<open>How far each thread is from its end; every step of a thread, and every wake-up, takes it closer.\<close>

fun writer_rank :: "futex_writer \<Rightarrow> nat" where
  "writer_rank (HWWrite _) = 7"
| "writer_rank (HWNotify _) = 6"
| "writer_rank (HWWake _) = 5"
| "writer_rank (HWWait _) = 4"
| "writer_rank (HWBlocked _) = 3"
| "writer_rank HWLoad = 2"
| "writer_rank (HWLoop _) = 1"
| "writer_rank HWDone = 0"

fun reader_rank :: "futex_reader \<Rightarrow> nat" where
  "reader_rank (HRWait _) = 7"
| "reader_rank (HRBlocked _) = 6"
| "reader_rank HRCounter = 5"
| "reader_rank (HRRead _) = 4"
| "reader_rank (HRAck _) = 3"
| "reader_rank (HRWake _) = 2"
| "reader_rank (HRLoop _) = 1"
| "reader_rank HRDone = 0"

definition handoff_left :: "handoff_sys \<Rightarrow> nat" where
  "handoff_left s =
     8 * writes_left s + writer_rank (hand_writer s) + 8 * reads_left s + reader_rank (hand_reader s)"

lemma wake_rank:
  "writer_rank (wake_writer w) \<le> writer_rank w" "reader_rank (wake_reader r) \<le> reader_rank r"
  by (cases w; simp) (cases r; simp)

lemma writer_left: "futex_writer_step add now s = Inr s' \<Longrightarrow> s' = s \<or> handoff_left s' < handoff_left s"
  using wake_rank(2) [of "hand_reader s"]
  by (cases "hand_writer s") (auto simp: futex_writer_step_def handoff_left_def bindE_eq_Inr split: if_splits)

lemma reader_left: "futex_reader_step s = Inr s' \<Longrightarrow> s' = s \<or> handoff_left s' < handoff_left s"
  using wake_rank(1) [of "hand_writer s"]
  by (cases "hand_reader s") (auto simp: futex_reader_step_def handoff_left_def bindE_eq_Inr split: if_splits)

lemma timeout_left:
  "writer_timeout s = s \<or> handoff_left (writer_timeout s) < handoff_left s"
  "reader_timeout s = s \<or> handoff_left (reader_timeout s) < handoff_left s"
  by (cases "hand_writer s"; simp add: writer_timeout_def handoff_left_def)
    (cases "hand_reader s"; simp add: reader_timeout_def handoff_left_def)

lemma step_left: "handoff_step add s s' \<Longrightarrow> s' = s \<or> handoff_left s' < handoff_left s"
  using timeout_left [of s] writer_left reader_left unfolding handoff_step_def by blast

text \<open>A thread that is neither blocked nor at its end moves, and a blocked one does when its time is over.\<close>

lemma writer_moves:
  "futex_writer_step add now s = Inr s' \<Longrightarrow>
     hand_writer s = HWDone \<or> (\<exists>a. hand_writer s = HWBlocked a \<and> hand_writer (writer_timeout s) = HWLoad) \<or>
     hand_writer s' \<noteq> hand_writer s"
  by (cases "hand_writer s") (auto simp: futex_writer_step_def writer_timeout_def bindE_eq_Inr split: if_splits)

lemma reader_moves:
  "futex_reader_step s = Inr s' \<Longrightarrow>
     hand_reader s = HRDone \<or> (\<exists>x. hand_reader s = HRBlocked x \<and> hand_reader (reader_timeout s) = HRCounter) \<or>
     hand_reader s' \<noteq> hand_reader s"
  by (cases "hand_reader s") (auto simp: futex_reader_step_def reader_timeout_def bindE_eq_Inr split: if_splits)

section \<open>Nobody misses a wake-up\<close>

fun reader_seen :: "futex_reader \<Rightarrow> u32 option" where
  "reader_seen (HRLoop x) = Some x"
| "reader_seen (HRWait x) = Some x"
| "reader_seen (HRBlocked x) = Some x"
| "reader_seen (HRRead x) = Some x"
| "reader_seen (HRAck x) = Some x"
| "reader_seen (HRWake x) = Some x"
| "reader_seen _ = None"

fun writer_seen :: "futex_writer \<Rightarrow> u32 option" where
  "writer_seen (HWLoop x) = Some x"
| "writer_seen (HWWrite x) = Some x"
| "writer_seen (HWNotify x) = Some x"
| "writer_seen (HWWake x) = Some x"
| "writer_seen (HWWait x) = Some x"
| "writer_seen (HWBlocked x) = Some x"
| "writer_seen _ = None"

fun has_notified :: "futex_writer \<Rightarrow> bool" where
  "has_notified (HWWake _) = True"
| "has_notified (HWWait _) = True"
| "has_notified (HWBlocked _) = True"
| "has_notified _ = False"

fun reading :: "futex_reader \<Rightarrow> bool" where
  "reading HRCounter = True"
| "reading (HRRead _) = True"
| "reading (HRAck _) = True"
| "reading _ = False"

text \<open>
  The reader's variable is the counter as of the \<open>i\<close>-th notification, the writer's is \<open>ack\<close> as of the
  \<open>j\<close>-th acknowledgement. After a notification, either the reader has it still to see or to
  acknowledge, or there is an acknowledgement that the writer has not seen.
\<close>

definition handoff_at :: "nat \<Rightarrow> u64 \<Rightarrow> u64 \<Rightarrow> nat \<Rightarrow> nat \<Rightarrow> handoff_sys \<Rightarrow> bool" where
  "handoff_at n c0 a0 i j s \<longleftrightarrow>
     n < 2 ^ 32 \<and> quiet_slot 72 (sl_futex s) \<and> i \<le> notified s \<and> j \<le> acked s \<and>
     tail_publish (control (sl_futex s)) = c0 + of_nat (notified s) \<and> ack s = a0 + of_nat (acked s) \<and>
     (\<forall>x. reader_seen (hand_reader s) = Some x \<longrightarrow> x = futex_load (c0 + of_nat i)) \<and>
     (\<forall>x. writer_seen (hand_writer s) = Some x \<longrightarrow> x = futex_load (a0 + of_nat j)) \<and>
     (has_notified (hand_writer s) \<longrightarrow> i < notified s \<or> j < acked s \<or> reading (hand_reader s)) \<and>
     (\<forall>x. hand_reader s = HRBlocked x \<longrightarrow> i < notified s \<longrightarrow> (\<exists>a. hand_writer s = HWWake a)) \<and>
     (\<forall>a. hand_writer s = HWBlocked a \<longrightarrow> j < acked s \<longrightarrow> (\<exists>x. hand_reader s = HRWake x))"

definition handoff_counts :: "nat \<Rightarrow> handoff_sys \<Rightarrow> bool" where
  "handoff_counts n s \<longleftrightarrow>
     notified s + writes_left s + (case hand_writer s of HWWrite _ \<Rightarrow> 1 | HWNotify _ \<Rightarrow> 1 | _ \<Rightarrow> 0) = n \<and>
     acked s + reads_left s +
       (case hand_reader s of HRWait _ \<Rightarrow> 1 | HRBlocked _ \<Rightarrow> 1 | HRCounter \<Rightarrow> 1 | HRRead _ \<Rightarrow> 1 | HRAck _ \<Rightarrow> 1 | _ \<Rightarrow> 0) = n"

definition handoff_inv :: "nat \<Rightarrow> handoff_sys \<Rightarrow> bool" where
  "handoff_inv n s \<longleftrightarrow> handoff_counts n s \<and> (\<exists>c0 a0 i j. handoff_at n c0 a0 i j s)"

lemma futex_load_of_nat:
  assumes "i < 2 ^ 32" "j < 2 ^ 32"
  shows "futex_load (c + of_nat i) = futex_load (c + of_nat j) \<longleftrightarrow> i = j"
proof -
  have u: "futex_load (c + of_nat k) = ucast c + of_nat k" for k
  proof (induction k)
    case (Suc k)
    have "c + of_nat (Suc k) = (c + of_nat k) + 1" by simp
    then show ?case using Suc by (simp only: futex_load_def ucast_add_one) simp
  qed (simp add: futex_load_def)
  have "unat (of_nat i :: u32) = i" "unat (of_nat j :: u32) = j" using assms by (simp_all add: unat_of_nat)
  then have "(of_nat i :: u32) = of_nat j \<longleftrightarrow> i = j" by metis
  then show ?thesis by (simp add: u)
qed

lemma handoff_stepI:
  "f = Inr s' \<Longrightarrow> handoff_at n c0 a0 i j s' \<Longrightarrow> handoff_counts n s' \<Longrightarrow> \<exists>s'. f = Inr s' \<and> handoff_inv n s'"
  unfolding handoff_inv_def by blast

lemma futex_writer_inv:
  assumes "handoff_inv n s"
  shows "\<exists>s'. futex_writer_step add now s = Inr s' \<and> handoff_inv n s'"
proof -
  obtain c0 a0 i j where at: "handoff_at n c0 a0 i j s" and cnt: "handoff_counts n s"
    using assms by (auto simp: handoff_inv_def)
  have b: "acked s < 2 ^ 32" "j < 2 ^ 32" using at cnt by (auto simp: handoff_at_def handoff_counts_def)
  note defs = futex_writer_step_def handoff_at_def handoff_counts_def
  show ?thesis
  proof (cases "hand_writer s")
    case (HWWrite a)
    have q: "sequence (control (sl_futex s)) AND 1 = 0" "72 \<le> length (ring (sl_futex s))"
      using at by (simp_all add: handoff_at_def quiet_slot_def)
    let ?sl = "(sl_futex s)\<lparr>ring := mem_write (ring (sl_futex s)) 0 (command_bytes (hand_cmd s)),
      control := (control (sl_futex s))\<lparr>sequence := sequence (control (sl_futex s)) + 2, head_reserve := now\<rparr>\<rparr>"
    have "latest_write now (command_bytes (hand_cmd s)) (sl_futex s) = Inr ?sl" using q by (simp add: latest_write_ok)
    moreover have "quiet_slot 72 ?sl" using q even_plus_even [of _ 1] by (simp add: quiet_slot_def mem_write_def)
    ultimately show ?thesis
      by (intro handoff_stepI [of _ "s\<lparr>sl_futex := ?sl, hand_writer := HWNotify a, written := written s @ [hand_cmd s]\<rparr>" n c0 a0 i j])
        (use at cnt HWWrite in \<open>auto simp: defs\<close>)
  next
    case (HWNotify a)
    show ?thesis
      by (rule handoff_stepI [of _ "s\<lparr>sl_futex := latest_notify (sl_futex s), hand_writer := HWWake a, notified := notified s + 1\<rparr>" n c0 a0 i j])
        (use at cnt HWNotify in \<open>auto simp: defs latest_notify_def quiet_slot_def\<close>)
  next
    case (HWWake a)
    show ?thesis
      by (rule handoff_stepI [of _ "s\<lparr>hand_reader := wake_reader (hand_reader s), hand_writer := HWWait a\<rparr>" n c0 a0 i j])
        (use at cnt HWWake in \<open>cases "hand_reader s"; auto simp: defs\<close>)+
  next
    case (HWWait a)
    have "futex_word (ack s) = a \<longleftrightarrow> acked s = j"
      using at HWWait futex_load_of_nat [OF b, of a0] by (simp add: handoff_at_def futex_word_load)
    then show ?thesis
      by (intro handoff_stepI [of _ "s\<lparr>hand_writer := if futex_word (ack s) \<noteq> a then HWLoad else HWBlocked a\<rparr>" n c0 a0 i j])
        (use at cnt HWWait in \<open>auto simp: defs\<close>)
  next
    case HWLoad
    show ?thesis
      by (rule handoff_stepI [of _ "s\<lparr>hand_writer := HWLoop (futex_load (ack s))\<rparr>" n c0 a0 i "acked s"])
        (use at cnt HWLoad in \<open>auto simp: defs\<close>)
  next
    case (HWLoop a)
    show ?thesis
      by (rule handoff_stepI [of _ "if writes_left s = 0 then s\<lparr>hand_writer := HWDone\<rparr>
          else s\<lparr>writes_left := writes_left s - 1, hand_cmd := faster add (hand_cmd s), hand_writer := HWWrite a\<rparr>" n c0 a0 i j])
        (use at cnt HWLoop in \<open>auto simp: defs\<close>)
  qed (use assms in \<open>auto simp: futex_writer_step_def\<close>)
qed

lemma futex_reader_inv:
  assumes "handoff_inv n s"
  shows "\<exists>s'. futex_reader_step s = Inr s' \<and> handoff_inv n s'"
proof -
  obtain c0 a0 i j where at: "handoff_at n c0 a0 i j s" and cnt: "handoff_counts n s"
    using assms by (auto simp: handoff_inv_def)
  have b: "notified s < 2 ^ 32" "i < 2 ^ 32" using at cnt by (auto simp: handoff_at_def handoff_counts_def)
  note defs = futex_reader_step_def handoff_at_def handoff_counts_def
  show ?thesis
  proof (cases "hand_reader s")
    case (HRLoop x)
    show ?thesis
      by (rule handoff_stepI [of _ "if reads_left s = 0 then s\<lparr>hand_reader := HRDone\<rparr>
          else s\<lparr>reads_left := reads_left s - 1, hand_reader := HRWait x\<rparr>" n c0 a0 i j])
        (use at cnt HRLoop in \<open>auto simp: defs\<close>)
  next
    case (HRWait x)
    have "futex_word (tail_publish (control (sl_futex s))) = x \<longleftrightarrow> notified s = i"
      using at HRWait futex_load_of_nat [OF b, of c0] by (simp add: handoff_at_def futex_word_load)
    then show ?thesis
      by (intro handoff_stepI [of _ "s\<lparr>hand_reader :=
          if futex_word (tail_publish (control (sl_futex s))) \<noteq> x then HRCounter else HRBlocked x\<rparr>" n c0 a0 i j])
        (use at cnt HRWait in \<open>auto simp: defs\<close>)
  next
    case HRCounter
    show ?thesis
      by (rule handoff_stepI [of _ "s\<lparr>hand_reader := HRRead (notify_counter (sl_futex s))\<rparr>" n c0 a0 "notified s" j])
        (use at cnt HRCounter in \<open>auto simp: defs notify_counter_def\<close>)
  next
    case (HRRead x)
    have "quiet_slot 72 (sl_futex s)" using at by (simp add: handoff_at_def)
    then have "latest_try_read (\<lambda>_. sl_futex s) 72 1024 0 (hand_out s) = Inr (True, take 72 (ring (sl_futex s)), 0 + 72 + 2)"
      by (intro read_quiet) (simp_all add: quiet_slot_def)
    then show ?thesis
      by (intro handoff_stepI [of _ "s\<lparr>hand_out := take 72 (ring (sl_futex s)), hand_reader := HRAck x,
          got := got s @ [take 72 (ring (sl_futex s))]\<rparr>" n c0 a0 i j])
        (use at cnt HRRead in \<open>auto simp: defs\<close>)
  next
    case (HRAck x)
    show ?thesis
      by (rule handoff_stepI [of _ "s\<lparr>ack := ack s + 1, hand_reader := HRWake x, acked := acked s + 1\<rparr>" n c0 a0 i j])
        (use at cnt HRAck in \<open>auto simp: defs\<close>)
  next
    case (HRWake x)
    show ?thesis
      by (rule handoff_stepI [of _ "s\<lparr>hand_writer := wake_writer (hand_writer s), hand_reader := HRLoop x\<rparr>" n c0 a0 i j])
        (use at cnt HRWake in \<open>cases "hand_writer s"; auto simp: defs\<close>)+
  qed (use assms in \<open>auto simp: futex_reader_step_def\<close>)
qed

lemma timeout_inv:
  assumes "handoff_inv n s"
  shows "handoff_inv n (writer_timeout s)" "handoff_inv n (reader_timeout s)"
proof -
  obtain c0 a0 i j where at: "handoff_at n c0 a0 i j s" and cnt: "handoff_counts n s"
    using assms by (auto simp: handoff_inv_def)
  have "handoff_at n c0 a0 i j (writer_timeout s)" "handoff_counts n (writer_timeout s)"
    using at cnt by (cases "hand_writer s"; auto simp: handoff_at_def handoff_counts_def writer_timeout_def)+
  moreover have "handoff_at n c0 a0 i j (reader_timeout s)" "handoff_counts n (reader_timeout s)"
    using at cnt by (cases "hand_reader s"; auto simp: handoff_at_def handoff_counts_def reader_timeout_def)+
  ultimately show "handoff_inv n (writer_timeout s)" "handoff_inv n (reader_timeout s)"
    unfolding handoff_inv_def by blast+
qed

interpretation futexes: invariant_system "handoff_init n" "handoff_step add" "handoff_inv n" for n add
proof
  show "handoff_inv n s" if init: "handoff_init n s" for s
  proof -
    from init obtain sl a where s: "n < 2 ^ 32" "quiet_slot 72 sl" "s = handoff_start n sl a"
      by (auto simp: handoff_init_def BM_Handoff_Futex_def)
    then have "handoff_at n (tail_publish (control sl)) a 0 0 s" "handoff_counts n s"
      by (simp_all add: handoff_at_def handoff_counts_def handoff_start_def notify_counter_def)
    then show ?thesis unfolding handoff_inv_def by blast
  qed
  show "handoff_inv n s \<Longrightarrow> handoff_step add s s' \<Longrightarrow> handoff_inv n s'" for s s'
    using futex_writer_inv [of n s add] futex_reader_inv [of n s] timeout_inv [of n s] unfolding handoff_step_def
    by (metis sum.inject(2))
qed

text \<open>A blocked thread whose counter has moved on is about to be woken; the two are never both blocked.\<close>

lemma wake_pending:
  assumes at: "handoff_at n c0 a0 i j s"
  shows "hand_reader s = HRBlocked x \<Longrightarrow> notify_counter (sl_futex s) = x \<and> i = notified s \<or> (\<exists>b. hand_writer s = HWWake b)"
    and "hand_writer s = HWBlocked a \<Longrightarrow> futex_load (ack s) = a \<and> j = acked s \<or> (\<exists>y. hand_reader s = HRWake y)"
proof -
  assume b: "hand_reader s = HRBlocked x"
  show "notify_counter (sl_futex s) = x \<and> i = notified s \<or> (\<exists>b. hand_writer s = HWWake b)"
  proof (cases "i = notified s")
    case True
    with at b show ?thesis unfolding handoff_at_def notify_counter_def by simp
  next
    case False
    with at b show ?thesis unfolding handoff_at_def by (meson nat_less_le)
  qed
next
  assume b: "hand_writer s = HWBlocked a"
  show "futex_load (ack s) = a \<and> j = acked s \<or> (\<exists>y. hand_reader s = HRWake y)"
  proof (cases "j = acked s")
    case True
    with at b show ?thesis unfolding handoff_at_def by simp
  next
    case False
    with at b show ?thesis unfolding handoff_at_def by (meson nat_less_le)
  qed
qed

lemma not_both_blocked:
  assumes at: "handoff_at n c0 a0 i j s"
  shows "\<not> (hand_reader s = HRBlocked x \<and> hand_writer s = HWBlocked a)"
proof
  assume b: "hand_reader s = HRBlocked x \<and> hand_writer s = HWBlocked a"
  with at have "i < notified s \<or> j < acked s" unfolding handoff_at_def by simp blast
  with b wake_pending [OF at, of x] wake_pending(2) [OF at, of a] show False by auto
qed

section \<open>Runs\<close>

text \<open>Runs without timeouts; \<open>True\<close> is a step of the writer.\<close>

fun futex_run :: "(double \<Rightarrow> double \<Rightarrow> double) \<Rightarrow> u64 \<Rightarrow> bool list \<Rightarrow> handoff_sys \<Rightarrow> handoff_sys exec" where
  "futex_run add now [] s = Inr s"
| "futex_run add now (w # ws) s =
     bindE (if w then futex_writer_step add now s else futex_reader_step s) (futex_run add now ws)"

lemma futex_run_steps: "futex_run add now ws s = Inr s' \<Longrightarrow> (handoff_step add)\<^sup>*\<^sup>* s s'"
proof (induction ws arbitrary: s)
  case (Cons w ws)
  then obtain s1 where "handoff_step add s s1" "futex_run add now ws s1 = Inr s'"
    by (auto simp: handoff_step_def bindE_eq_Inr split: if_splits)
  with Cons.IH show ?case by (meson converse_rtranclp_into_rtranclp)
qed simp

section \<open>Properties\<close>

text \<open>
  C29. \<open>BM_Handoff_Futex\<close> goes on without its timeouts until one of the two threads has finished, and
  finishes with them. In every reachable state, with or without timeouts before: the two threads are never
  both blocked; a thread is blocked although its counter has moved on only while the other is about to wake
  it; no call faults; as long as neither thread has finished, the next step of one of them changes the
  state; as long as one of them has not, such a step or the end of a wait does; and every step that
  changes the state brings the run closer to its end. (For fewer than \<open>2^32\<close> iterations, since
  the kernel compares 32 bits.) Once one thread has finished, the other may depend on its timeout.
\<close>

theorem handoff_futex_not_stuck:
  assumes "reachable (handoff_init n) (handoff_step add) s"
  shows "\<not> (hand_reader s = HRBlocked x \<and> hand_writer s = HWBlocked a) \<and>
    (hand_reader s = HRBlocked x \<and> notify_counter (sl_futex s) \<noteq> x \<longrightarrow> (\<exists>b. hand_writer s = HWWake b)) \<and>
    (hand_writer s = HWBlocked a \<and> futex_load (ack s) \<noteq> a \<longrightarrow> (\<exists>y. hand_reader s = HRWake y)) \<and>
    (\<exists>w r. futex_writer_step add now s = Inr w \<and> futex_reader_step s = Inr r \<and>
      (hand_writer s \<noteq> HWDone \<and> hand_reader s \<noteq> HRDone \<longrightarrow> w \<noteq> s \<or> r \<noteq> s) \<and>
      (hand_writer s \<noteq> HWDone \<or> hand_reader s \<noteq> HRDone \<longrightarrow>
        w \<noteq> s \<or> r \<noteq> s \<or> writer_timeout s \<noteq> s \<or> reader_timeout s \<noteq> s)) \<and>
    (handoff_step add s s' \<longrightarrow> s' = s \<or> handoff_left s' < handoff_left s)"
proof -
  have inv: "handoff_inv n s" using assms by (rule futexes.inv_reachable)
  then obtain c0 a0 i j where at: "handoff_at n c0 a0 i j s" unfolding handoff_inv_def by blast
  obtain w r where wr: "futex_writer_step add now s = Inr w" "futex_reader_step s = Inr r"
    using futex_writer_inv [OF inv] futex_reader_inv [OF inv] by blast
  note W = writer_moves [OF wr(1)] and R = reader_moves [OF wr(2)] and nb = not_both_blocked [OF at]
  have "w \<noteq> s \<or> r \<noteq> s" if "hand_writer s \<noteq> HWDone" "hand_reader s \<noteq> HRDone"
    using W R that nb by blast
  moreover have "w \<noteq> s \<or> r \<noteq> s \<or> writer_timeout s \<noteq> s \<or> reader_timeout s \<noteq> s"
    if "hand_writer s \<noteq> HWDone \<or> hand_reader s \<noteq> HRDone"
  proof (rule ccontr)
    assume "\<not> ?thesis"
    then have "w = s" "r = s" "writer_timeout s = s" "reader_timeout s = s" by blast+
    with W R that show False by auto
  qed
  moreover have "\<exists>b. hand_writer s = HWWake b" if "hand_reader s = HRBlocked x" "notify_counter (sl_futex s) \<noteq> x"
    using wake_pending(1) [OF at that(1)] that(2) by blast
  moreover have "\<exists>y. hand_reader s = HRWake y" if "hand_writer s = HWBlocked a" "futex_load (ack s) \<noteq> a"
    using wake_pending(2) [OF at that(1)] that(2) by blast
  moreover have "handoff_step add s s' \<longrightarrow> s' = s \<or> handoff_left s' < handoff_left s" using step_left by blast
  ultimately show ?thesis using wr nb by meson
qed

text \<open>A reader that has found no notification, before the writer's first step.\<close>

theorem handoff_futex_not_stuck_witness:
  "\<exists>s w. reachable (handoff_init 1) (handoff_step (\<lambda>x _. x)) s \<and> hand_reader s = HRBlocked 0 \<and>
     futex_reader_step s = Inr s \<and> futex_writer_step (\<lambda>x _. x) 5 s = Inr w \<and> w \<noteq> s \<and>
     handoff_left w < handoff_left s"
proof -
  let ?add = "\<lambda>x _. x :: double"
  have q: "quiet_slot 72 (empty_ring 72)" by (simp add: quiet_slot_def empty_ring_def)
  have init: "handoff_init 1 (handoff_start 1 (empty_ring 72) 0)"
    unfolding handoff_init_def using q by (intro conjI exI [of _ "empty_ring 72"] exI [of _ 0]) (simp_all add: BM_Handoff_Futex_def)
  obtain s where s: "futex_run ?add 5 [False, False] (handoff_start 1 (empty_ring 72) 0) = Inr s"
    "hand_reader s = HRBlocked 0" "hand_writer s = HWLoop 0"
    by (simp add: futex_reader_step_def handoff_start_def empty_ring_def notify_counter_def futex_word_load futex_load_def)
  have r: "reachable (handoff_init 1) (handoff_step ?add) s"
    unfolding reachable_def using init futex_run_steps [OF s(1)] by blast
  have f: "futex_reader_step s = Inr s" using s(2) by (simp add: futex_reader_step_def)
  note T = handoff_futex_not_stuck [OF r]
  obtain w where w: "futex_writer_step ?add 5 s = Inr w" "w \<noteq> s"
    using T [of 0 0 5] f s(2,3) by auto
  then have "handoff_step ?add s w" by (auto simp: handoff_step_def)
  with T [of 0 0 5 w] w(2) have "handoff_left w < handoff_left s" by blast
  with r s(2) f w show ?thesis by blast
qed

text \<open>
  The reader is slow between counting \<open>ack\<close> up and waking. The writer sees the new value, writes again
  and blocks; the wake-up for the first message then ends its wait for the second.
\<close>

definition late_wake :: "bool list" where
  "late_wake = [True, True, True, True] @ [False, False, False, False, False] @
     [True, True, True, True, True, True, True] @ [False] @ [True, True, True]"

lemma quiet_slot_write:
  assumes "quiet_slot 72 st"
  obtains st' where "latest_write now (command_bytes c) st = Inr st'" "quiet_slot 72 st'"
    "tail_publish (control st') = tail_publish (control st)"
  using assms even_plus_even [of "sequence (control st)" 1]
  by (simp add: latest_write_ok quiet_slot_def mem_write_def)

lemma quiet_slot_read: "quiet_slot 72 st \<Longrightarrow> latest_try_read (\<lambda>_. st) 72 1024 0 dst = Inr (True, take 72 (ring st), 74)"
  using read_quiet(1) [of 0 "\<lambda>_. st" st 72 1024 dst] by (simp add: quiet_slot_def)

lemma latest_notify_simps [simp]:
  "quiet_slot n (latest_notify st) = quiet_slot n st"
  "tail_publish (control (latest_notify st)) = tail_publish (control st) + 1"
  by (simp_all add: latest_notify_def quiet_slot_def)

lemma futex_load_plus_one: "futex_load (a + 1) = futex_load a + 1" "(x :: u32) + 1 \<noteq> x"
  by (simp_all add: futex_load_def ucast_add_one)

text \<open>
  C33. The writer of \<open>BM_Concurrent_WriteRead_Futex\<close> can run ahead of the reader, even if nothing ever times
  out: there is an interleaving
  after which it has written three messages of which the reader has read one. The comment on the
  benchmark says that the acknowledgement pairs the iterations one to one.
\<close>

theorem handoff_futex_runs_ahead:
  assumes "BM_Concurrent_WriteRead_Futex 2 n sl a = Inr s0" "quiet_slot 72 sl" "3 \<le> n"
  shows "\<exists>s. futex_run add now late_wake s0 = Inr s \<and> length (written s) = 3 \<and> length (got s) = 1"
proof -
  have s0: "s0 = handoff_start n sl a" using assms(1) by (simp add: BM_Concurrent_WriteRead_Futex_def)
  obtain s1 where 1: "latest_write now (command_bytes (faster add make_command)) sl = Inr s1" "quiet_slot 72 s1"
    "tail_publish (control s1) = tail_publish (control sl)" by (rule quiet_slot_write [OF assms(2)])
  then have q1: "quiet_slot 72 (latest_notify s1)" by simp
  obtain s2 where 2: "latest_write now (command_bytes (faster add (faster add make_command))) (latest_notify s1) = Inr s2"
    "quiet_slot 72 s2" by (rule quiet_slot_write [OF q1])
  then have q2: "quiet_slot 72 (latest_notify s2)" by simp
  obtain s3 where 3: "latest_write now (command_bytes (faster add (faster add (faster add make_command)))) (latest_notify s2) = Inr s3"
    by (rule quiet_slot_write [OF q2])
  obtain m where m: "n = Suc (Suc (Suc m))" using assms(3) by (metis Suc_le_D numeral_3_eq_3 Suc_le_mono)
  show ?thesis unfolding s0
    by (simp add: late_wake_def futex_writer_step_def futex_reader_step_def handoff_start_def m 1 2 3 q1
        quiet_slot_read futex_word_load notify_counter_def futex_load_plus_one)
qed

text \<open>
  A writer that has run ahead can leave its reader with nothing to wait for but the timeout: three
  iterations later the writer has finished, the reader has read twice and is blocked, and neither
  thread's next step changes anything.
\<close>

definition late_wake_end :: "bool list" where
  "late_wake_end = late_wake @ [True, True, True] @
     [False, False, False, False, False, False, False, False] @ [True, True]"

lemma handoff_futex_last_wait:
  assumes "BM_Handoff_Futex 2 3 sl a = Inr s0" "quiet_slot 72 sl"
  shows "\<exists>s. futex_run add now late_wake_end s0 = Inr s \<and> hand_writer s = HWDone \<and>
    (\<exists>x. hand_reader s = HRBlocked x) \<and> length (got s) = 2 \<and>
    futex_writer_step add now s = Inr s \<and> futex_reader_step s = Inr s"
proof -
  have s0: "s0 = handoff_start (Suc (Suc (Suc 0))) sl a"
    using assms(1) by (simp add: BM_Handoff_Futex_def numeral_3_eq_3)
  obtain s1 where 1: "latest_write now (command_bytes (faster add make_command)) sl = Inr s1" "quiet_slot 72 s1"
    "tail_publish (control s1) = tail_publish (control sl)" by (rule quiet_slot_write [OF assms(2)])
  then have q1: "quiet_slot 72 (latest_notify s1)" by simp
  obtain s2 where 2: "latest_write now (command_bytes (faster add (faster add make_command))) (latest_notify s1) = Inr s2"
    "quiet_slot 72 s2" "tail_publish (control s2) = tail_publish (control sl) + 1"
    by (rule quiet_slot_write [OF q1]) (simp add: 1(3))
  then have q2: "quiet_slot 72 (latest_notify s2)" by simp
  obtain s3 where 3: "latest_write now (command_bytes (faster add (faster add (faster add make_command)))) (latest_notify s2) = Inr s3"
    "quiet_slot 72 s3" "tail_publish (control s3) = tail_publish (control sl) + 1 + 1"
    by (rule quiet_slot_write [OF q2]) (simp add: 2(3))
  then have q3: "quiet_slot 72 (latest_notify s3)" by simp
  have ne: "futex_load (3 + c) \<noteq> futex_load c + 1" for c
    using futex_load_of_nat [of 3 1 c] by (simp add: add.commute [of 3] futex_load_plus_one)
  show ?thesis unfolding s0
    by (simp add: late_wake_end_def late_wake_def futex_writer_step_def futex_reader_step_def handoff_start_def
        1 2 3 q1 q3 quiet_slot_read futex_word_load notify_counter_def
        futex_load_plus_one ne)
qed

text \<open>On the slot of \<open>BM_Concurrent_WriteRead_Futex\<close>.\<close>

lemma sl_conc_f_quiet: "\<exists>sl. sl_conc_f now = Inr sl \<and> quiet_slot 72 sl"
proof -
  have "quiet_slot 72 (empty_ring 72)" by (simp add: quiet_slot_def empty_ring_def)
  then obtain st where "latest_write now (command_bytes make_command) (empty_ring 72) = Inr st" "quiet_slot 72 st"
    by (rule quiet_slot_write)
  then show ?thesis by (simp add: sl_conc_f_def latest_write_and_notify_def)
qed

theorem handoff_futex_runs_ahead_witness:
  "\<exists>sl s0 s. sl_conc_f 5 = Inr sl \<and> quiet_slot 72 sl \<and> BM_Concurrent_WriteRead_Futex 2 100 sl 0 = Inr s0 \<and>
     futex_run (\<lambda>x _. x) 7 late_wake s0 = Inr s \<and>
     length (written s) = 3 \<and> length (got s) = 1"
proof -
  obtain sl where "sl_conc_f 5 = Inr sl" "quiet_slot 72 sl" using sl_conc_f_quiet by blast
  moreover obtain s0 where "BM_Concurrent_WriteRead_Futex 2 100 sl 0 = Inr s0" by (simp add: BM_Concurrent_WriteRead_Futex_def)
  moreover have "(3 :: nat) \<le> 100" by simp
  ultimately show ?thesis using handoff_futex_runs_ahead [of 100 sl 0 s0 "\<lambda>x _. x" 7] by blast
qed

end
