(* ===== verification/Bench_Files.thy ===== *)
theory Bench_Files
  imports Ipc_Adapter
begin

text \<open>
  The temporary files of the benchmarks (\<open>make_temp_path\<close> and \<open>TempFile\<close> of
  \<open>bench/benchmark_ring_buffer.cpp\<close>, repeated in the two other programs): every file of a process has a
  path of its own, and is removed with its object.
\<close>

text \<open>\<open>std::to_string\<close> of an unsigned number.\<close>

definition digit :: "nat \<Rightarrow> char" where
  "digit d = char_of (48 + d)"

fun to_string :: "nat \<Rightarrow> string" where
  "to_string n = (if n < 10 then [digit n] else to_string (n div 10) @ [digit (n mod 10)])"

declare to_string.simps [simp del]

definition make_temp_path :: "string \<Rightarrow> u64 \<Rightarrow> string \<Rightarrow> u64 \<Rightarrow> string \<times> u64" where
  "make_temp_path temp_directory_path pid prefix i =
     (path_append temp_directory_path (prefix @ ''_'' @ to_string (unat pid) @ ''_'' @ to_string (unat i)), i + 1)"

text \<open>\<open>~TempFile\<close>; the error code of \<open>remove\<close> is ignored.\<close>

definition TempFile_destroy :: "bool \<Rightarrow> string \<Rightarrow> world \<Rightarrow> world" where
  "TempFile_destroy fails path w = (if fails then w else w\<lparr>files := (files w)(path := None)\<rparr>)"

definition digits_value :: "string \<Rightarrow> nat" where
  "digits_value ds = foldl (\<lambda>v c. 10 * v + (of_char c - 48)) 0 ds"

lemma digits_value_to_string: "digits_value (to_string n) = n"
proof (induction n rule: to_string.induct)
  case (1 n)
  have d: "(of_char (digit k) :: nat) = 48 + k" if "k < 10" for k
    using that unfolding digit_def of_char_of by simp
  show ?case
  proof (cases "n < 10")
    case True
    then show ?thesis by (simp add: to_string.simps [of n] digits_value_def d)
  next
    case False
    then have "digits_value (to_string n) = 10 * digits_value (to_string (n div 10)) + (of_char (digit (n mod 10)) - 48)"
      by (simp add: to_string.simps [of n] digits_value_def)
    with 1 False show ?thesis by (simp add: d)
  qed
qed

text \<open>Calls of one process with the same prefix give different paths, for \<open>2^64\<close> calls.\<close>

lemma make_temp_path_distinct:
  assumes "fst (make_temp_path dir pid prefix i) = fst (make_temp_path dir pid prefix j)"
  shows "i = j"
proof -
  have "to_string (unat i) = to_string (unat j)"
    using assms by (auto simp: make_temp_path_def path_append_def hd_append split: if_splits)
  from arg_cong [OF this, of digits_value] show ?thesis by (simp add: digits_value_to_string word_unat_eq_iff)
qed

lemma TempFile_destroy_removes:
  "files (TempFile_destroy False path w) path = None"
  "other \<noteq> path \<Longrightarrow> files (TempFile_destroy fails path w) other = files w other"
  by (simp_all add: TempFile_destroy_def)

end
