(* ===== verification/Spec2Isabelle.thy ===== *)
theory Spec2Isabelle
  imports Ipc_Adapter Ring_Wellformed MPSC_Properties SPSC_Concurrent MPMC_Concurrent Queue_Concurrent Bench_Boost
    Bench_Handoff Bench_Handoff_Futex Bench_Files
begin

text \<open>
  This development verifies \<open>lf_ring\<close>, a library of queues and latest-value slots in files mapped
  into the memory of several processes.

  \<^bold>\<open>The program.\<close> Every primitive lives in a file of three regions (\<open>ring_layout.hpp\<close>): a header
  that names the kind of primitive and its capacity, a control block of five 64-bit counters, and
  the data bytes. \<open>shared_memory_mapping.cpp\<close> creates, opens and releases such files. Over them
  work three rings of variable-size records (\<open>ring_writer.hpp\<close> with \<open>shared_ring_buffer.cpp\<close>,
  \<open>shared_ring_buffer_spsc.cpp\<close>, \<open>shared_ring_buffer_mpmc.cpp\<close>), a queue of fixed slots
  (\<open>spsc_queue.hpp\<close>) and a slot guarded by a sequence lock (\<open>shared_latest.hpp\<close>) with blocking
  readers (\<open>futex.hpp\<close>). \<open>typed_message.hpp\<close> puts typed values on the byte rings, \<open>ipc_adapter.hpp\<close>
  turns the single-producer primitives into named topics with publishers and polling subscribers. Three
  programs under \<open>bench/\<close> run the primitives against each other, a locked queue and Boost's queues.

  \<^bold>\<open>Theories, in the order of the code.\<close>
  \<^item> \<open>Prelude\<close>: faults (\<open>exec\<close>), loops that may not end (\<open>run_loop\<close>, \<open>run_loopL\<close>, \<open>None\<close> when they do
    not), byte encodings, list and word lemmas.
  \<^item> \<open>Ring_Layout\<close>: constants, structs, \<open>align_up\<close>, region sizes.
  \<^item> \<open>Ring_Memory\<close>, \<open>Ring_Invariant\<close>, \<open>Ring_Interface\<close>: reading and writing records, the invariant
    \<open>ring_inv st h t ms\<close> (the bytes between the positions \<open>h\<close> and \<open>t\<close> are the records of the messages
    \<open>ms\<close> and padding), and the contracts of a consumer loop (\<open>ring_consumer\<close>) and of a byte ring
    (\<open>byte_ring\<close>), from which being a FIFO queue follows once.
  \<^item> \<open>Ring_Writer\<close>: \<open>detail::try_push\<close>, with any number of spurious failures of its
    compare-and-swap and with the publication spin.
  \<^item> \<open>Shared_Ring_Buffer\<close>, \<open>Shared_Ring_Buffer_SPSC\<close>, \<open>Shared_Ring_Buffer_MPMC\<close>: the three rings; each
    interprets both contracts.
  \<^item> \<open>Ring_Wellformed\<close>: every operation of every kind of ring keeps a ring well-formed.
  \<^item> \<open>MPSC_Steps\<close>, \<open>MPSC_Stores\<close>, \<open>MPSC_Concurrent\<close>, \<open>MPSC_Properties\<close>: \<open>detail::try_push\<close> and
    \<open>SharedRingBuffer::try_pop\<close> cut at every access to shared memory (\<open>producer_step\<close>, \<open>consumer_step\<close>),
    any number of producers and a consumer interleaved (\<open>mpsc_step\<close>), the invariant of that system
    (\<open>mpsc_inv\<close>) and what follows.
  \<^item> \<open>SPSC_Concurrent\<close>, \<open>MPMC_Steps\<close>, \<open>MPMC_Concurrent\<close>: the same for the two other rings
    (\<open>sproducer_step\<close>, \<open>sconsumer_step\<close>, \<open>mconsumer_step\<close>).
  \<^item> \<open>Shared_Memory_Mapping\<close>: \<open>create_mapping\<close>, \<open>open_mapping\<close>, release and move over a world of
    files, descriptors and mappings; every system call may fail.
  \<^item> \<open>Ring_Files\<close>: \<open>create\<close>, \<open>open\<close> and \<open>claim\<close> of the rings, and operations on a mapped ring
    (\<open>on_ring\<close>).
  \<^item> \<open>SPSC_Queue\<close>, \<open>Queue_Concurrent\<close>: \<open>SPSCQueue\<close>, a \<open>fixed_queue\<close>, and its two sides access by access.
  \<^item> \<open>Interleaving\<close>, \<open>Futex\<close>, \<open>Shared_Latest\<close>, \<open>Seqlock\<close>: runs of a writer observed by a reader at its
    successive loads; the futex wrapper and its protocol; \<open>SharedLatest\<close>; and its reads against a
    writer whose every access is a step, with and without recovery by \<open>claim\<close>.
  \<^item> \<open>Typed_Message\<close>: codecs (\<open>message_codec\<close>), typed writer and reader over any byte ring
    (\<open>typed_channel\<close>).
  \<^item> \<open>Polling\<close>, \<open>Ipc_Adapter\<close>: the polling loop over any \<open>polled_queue\<close>, topics, publishers,
    subscribers, and the life of the polling thread.
  \<^item> \<open>Bench_Loops\<close>, \<open>Bench_Queues\<close>: the loops of the queue benchmarks over any queue whose calls can be
    tried again (\<open>retry_queue\<close>), and that bytes and typed values on any byte ring, slots and the locked
    queue are such queues.
  \<^item> \<open>Benchmarks\<close>, \<open>Bench_Boost\<close>, \<open>Bench_Latest\<close>, \<open>Bench_Handoff\<close>, \<open>Bench_Handoff_Futex\<close>, \<open>Bench_Files\<close>: the
    benchmarks themselves, one definition each, and their temporary files.

  \<^bold>\<open>Correspondence.\<close> A structure is a record with the source's fields, an enumeration a datatype, a
  64-, 32- or 16-bit integer a word that wraps around; the data region is a list of bytes and every
  \<open>memcpy\<close> is checked against its bounds (\<open>Inl OutOfBounds\<close>). A division by a zero capacity is a
  fault. Exceptions are values (\<open>exn\<close>). A value of a trivially copyable type is its bytes. One
  operation is one function from the state to the result and the new state; where an operation is
  cut into accesses that interleave (the \<open>_step\<close> functions and relations, and the readers' \<open>\<sigma>\<close>), memory
  is sequentially consistent. Boost's queues and the addition of \<open>double\<close>s are arguments; the benchmark
  framework starts all threads together and gives each the same number of iterations, as documented.

  \<^bold>\<open>What is shown.\<close>
  \<^item> The rings are FIFO queues: any sequence of pushes and pops on a fresh ring returns what a queue
    returns, without a fault and without running out of steps; pushes are refused exactly when the
    record does not fit, and the three producers agree. The same holds across processes that use the
    file in turn, and after \<open>claim\<close>.
  \<^item> Interleaved at every access, with any number of producers and spurious failures: what is popped
    from the multi-producer ring is a prefix of what is published, whole, in order and numbered from
    one; no access is out of bounds, and the producer whose turn it is to publish can. The
    single-producer ring likewise. For the multi-consumer ring it holds as long as no consumer loads a
    head beyond the tail it has loaded. \<open>SPSCQueue\<close> is linearizable.
  \<^item> Creating and opening: a new file shows an empty ring; opening never faults whatever the file
    holds, and a throw leaks nothing; a half-written header is never accepted.
  \<^item> \<open>SPSCQueue\<close> is a bounded FIFO queue for any number of operations.
  \<^item> The sequence lock gives no torn reads while nobody recovers the slot, and what \<open>claim\<close> does in
    every situation; notifications are not lost.
  \<^item> Codecs and typed channels round-trip.
  \<^item> Subscribers of queues deliver every accepted message once and in order for every interleaving with
    the publisher, and end; a byte message may be followed by stale bytes of longer ones before. Subscribers
    of a latest value report commits in order, each at most twice. Starting and stopping never terminates
    the program.
  \<^item> The queue benchmarks finish under every schedule, having popped what was pushed and reporting its
    number; the handoff with a flag passes every message once; the handoff with futexes needs no timeout
    until one of its threads has finished (the other may then need one), and ends.
  \<^item> Where the code does less than its comments promise, the behaviour itself is proved on a
    reachable run: an empty ring that refuses for ever, a dead producer that blocks the others,
    sizes that wrap around, a queue that cannot be reopened, stale bytes behind a short message, a
    torn read after a recovery, a slot taken from a writer in its first write, a newest value
    that is never reported, a value that is reported twice, a multi-consumer ring that returns a message nobody pushed and refuses
    everything from then on, a size of \<open>2^64 - 1\<close>, and a benchmark's writer that runs ahead of its
    reader.

  \<^bold>\<open>Bounds.\<close> A push moves a tail counter by less than \<open>2^34\<close>; a run of \<open>n\<close> operations is covered while
  \<open>n * 2^34 \<le> 2^64\<close>, or without limit when the capacity divides \<open>2^64\<close> (\<open>counter_headroom\<close>). Loops
  have no fuel: that they end is proved. The interleaved rings are covered until their tail reaches
  \<open>2^64\<close> bytes, the sequence lock for \<open>2^63\<close> writes, the handoff with futexes for fewer than \<open>2^32\<close>
  iterations.

  \<^bold>\<open>Not modelled.\<close> Memory orders weaker than sequential consistency: the theorems say nothing about
  reorderings that the acquire and release annotations would allow. The waiting of the subscriber's
  condition variable, which changes no data; \<open>std::filesystem\<close> beyond path concatenation, existence and
  removal; what the benchmarks measure and print, the priorities and the processors of their threads.
  \<open>BM_ControlLoop_1kHz_Futex\<close>, which is \<open>BM_Concurrent_WriteRead_Futex\<close> with time measurements.
\<close>

end
